(* ===== verification/Prelude.thy ===== *)
theory Prelude
  imports Main "HOL-Library.Word" "HOL-Library.Monad_Syntax"
begin

text \<open>
  What every component shares: the signed 64-bit integer of the prices with its order, checked
  array access, the bit-smearing loop behind the two power-of-two roundings, and generic facts
  on options, lists and words.  A computation that can hit undefined behaviour (a null or
  dangling pointer, an index out of range) or that need not end returns an \<open>option\<close>: \<open>None\<close>
  stands for both, and the components prove that it does not occur.
\<close>

unbundle bit_operations_syntax

named_theorems eval_simps \<open>unfolding rules that run a model on a concrete input\<close>

section \<open>Signed 64-bit integers\<close>

text \<open>\<open>std::int64_t\<close>: 64 bits read as two's complement, ordered by that value.\<close>

datatype i64 = I64 (bits: "64 word")

definition i64_val :: "i64 \<Rightarrow> int" where
  "i64_val p = sint (bits p)"

lemma i64_val_inject [simp]: "i64_val p = i64_val q \<longleftrightarrow> p = q"
  by (cases p; cases q) (simp add: i64_val_def inj_eq [OF inj_signed])

instantiation i64 :: linorder
begin

definition less_eq_i64 :: "i64 \<Rightarrow> i64 \<Rightarrow> bool" where
  "less_eq_i64 p q \<longleftrightarrow> i64_val p \<le> i64_val q"

definition less_i64 :: "i64 \<Rightarrow> i64 \<Rightarrow> bool" where
  "less_i64 p q \<longleftrightarrow> i64_val p < i64_val q"

instance
  by standard
    (auto simp: less_eq_i64_def less_i64_def)

end

text \<open>
  Signed arithmetic, from the exact result: \<open>None\<close> when that does not fit 64 bits, which is
  undefined in C++.  The conversion to \<open>std::uint64_t\<close> takes the bits as they are.
\<close>

definition i64_exact :: "int \<Rightarrow> i64 option" where
  "i64_exact i = (if - (2 ^ 63) \<le> i \<and> i < 2 ^ 63 then Some (I64 (word_of_int i)) else None)"

lemma i64_exact_val:
  assumes "i64_exact i = Some p"
  shows "i64_val p = i"
proof -
  have p: "p = I64 (word_of_int i)" and "- (2 ^ 63) \<le> i" "i < 2 ^ 63"
    using assms by (auto simp: i64_exact_def split: if_splits)
  then show ?thesis
    by (simp add: i64_val_def signed_of_int signed_take_bit_int_eq_self)
qed

lemma i64_val_bounds: "- (2 ^ 63) \<le> i64_val p" "i64_val p < 2 ^ 63"
  using sint_range_size[of "bits p"] by (simp_all add: i64_val_def word_size)

lemma i64_exact_Some: "- (2 ^ 63) \<le> i \<Longrightarrow> i < 2 ^ 63 \<Longrightarrow> \<exists>p. i64_exact i = Some p \<and> i64_val p = i"
  using i64_exact_val by (fastforce simp: i64_exact_def)

lemma uint_bits: "0 \<le> i64_val p \<Longrightarrow> uint (bits p) = i64_val p"
  using i64_val_bounds[of p] unfolding i64_val_def
  by (simp add: uint_sint take_bit_int_eq_self)

instantiation option :: (type) default
begin

text \<open>The value a pointer is initialised with (\<open>Value{}\<close> for \<open>Value = Order*\<close>): null.\<close>

definition default_option :: "'a option" where
  "default_option = None"

instance ..

end

section \<open>Checked array access\<close>

definition fetch :: "'a list \<Rightarrow> nat \<Rightarrow> 'a option" where
  "fetch xs i = (if i < length xs then Some (xs ! i) else None)"

definition store :: "'a list \<Rightarrow> nat \<Rightarrow> 'a \<Rightarrow> 'a list option" where
  "store xs i x = (if i < length xs then Some (xs[i := x]) else None)"

lemma fetch_in [simp]: "i < length xs \<Longrightarrow> fetch xs i = Some (xs ! i)"
  by (simp add: fetch_def)

lemma store_in [simp]: "i < length xs \<Longrightarrow> store xs i x = Some (xs[i := x])"
  by (simp add: store_def)

section \<open>Rounding up to a power of two\<close>

text \<open>
  The loop \<open>for (i = 1; i < 64; i <<= 1) v |= v >> i\<close> of the two \<open>round_up_pow2\<close>
  functions: its index takes the values of \<open>smear_shifts\<close>.
\<close>

definition smear_shifts :: "nat list" where
  "smear_shifts = [1, 2, 4, 8, 16, 32]"

definition smear :: "64 word \<Rightarrow> 64 word" where
  "smear v = fold (\<lambda>i w. w OR drop_bit i w) smear_shifts v"

text \<open>After the shifts up to \<open>m div 2\<close>, a bit is set if one of the \<open>m\<close> bits from it on was.\<close>

lemma smear_step:
  fixes v w :: "64 word"
  assumes "\<And>n. bit w n \<longleftrightarrow> (\<exists>d<m. bit v (n + d))"
  shows "bit (w OR drop_bit m w) n \<longleftrightarrow> (\<exists>d<2 * m. bit v (n + d))"
proof -
  have "bit (w OR drop_bit m w) n \<longleftrightarrow> (\<exists>d<m. bit v (n + d)) \<or> (\<exists>d<m. bit v (n + m + d))"
    by (simp add: bit_or_iff bit_drop_bit_eq assms add.commute add.left_commute)
  also have "\<dots> \<longleftrightarrow> (\<exists>d<2 * m. bit v (n + d))"
  proof safe
    fix d assume "d < m" "bit v (n + d)"
    then show "\<exists>d<2 * m. bit v (n + d)" by (intro exI[of _ d]) simp
  next
    fix d assume "d < m" "bit v (n + m + d)"
    then show "\<exists>d<2 * m. bit v (n + d)" by (intro exI[of _ "m + d"]) (simp add: add.assoc)
  next
    fix d assume *: "d < 2 * m" "bit v (n + d)" "\<not> (\<exists>d<m. bit v (n + m + d))"
    then have "d < m" by (metis add.assoc add_diff_inverse_nat mult_2 nat_add_left_cancel_less)
    with * show "\<exists>d<m. bit v (n + d)" by blast
  qed
  finally show ?thesis .
qed

lemma bit_smear: "bit (smear v) n \<longleftrightarrow> (\<exists>d. bit v (n + d))"
proof -
  have 0: "bit v n \<longleftrightarrow> (\<exists>d<1. bit v (n + d))" for n by simp
  note 1 = smear_step[OF 0, simplified]
  note 2 = smear_step[OF 1, simplified]
  note 4 = smear_step[OF 2, simplified]
  note 8 = smear_step[OF 4, simplified]
  note 16 = smear_step[OF 8, simplified]
  note 32 = smear_step[OF 16, simplified]
  have "bit (smear v) n \<longleftrightarrow> (\<exists>d<64. bit v (n + d))"
    unfolding smear_def smear_shifts_def using 32 by simp
  moreover have "d < 64" if "bit v (n + d)" for d
    using bit_imp_le_length[OF that] by simp
  ultimately show ?thesis by blast
qed

text \<open>The smeared value has exactly the bits below the highest set bit, and that bit.\<close>

lemma smear_mask:
  assumes v: "unat v < 2 ^ Suc k" "2 ^ k \<le> unat v" and k: "k < 64"
  shows "smear v = mask (Suc k)"
proof (rule bit_eqI)
  fix n assume n: "possible_bit TYPE(64 word) n"
  have high: "\<not> bit v (k + Suc d)" for d
  proof -
    have "unat v < 2 ^ (k + Suc d)"
      using v(1) by (rule less_le_trans) (simp add: power_increasing)
    then have "\<not> bit (unat v) (k + Suc d)"
      by (simp add: bit_iff_odd div_less)
    then show ?thesis by (simp add: bit_unsigned_iff)
  qed
  have "unat v div 2 ^ k = 1"
    using v by (intro div_nat_eqI) auto
  then have top: "bit v k"
    by (metis bit_iff_odd bit_unsigned_iff odd_one)
  show "bit (smear v) n \<longleftrightarrow> bit (mask (Suc k) :: 64 word) n"
  proof (cases "n \<le> k")
    case True
    then have "bit v (n + (k - n))" using top by simp
    then have "bit (smear v) n" unfolding bit_smear by blast
    then show ?thesis using True n by (simp add: bit_mask_iff)
  next
    case False
    then have "\<not> bit v (n + d)" for d
      using high[of "n + d - Suc k"] by simp
    then show ?thesis using False by (simp add: bit_smear bit_mask_iff)
  qed
qed

text \<open>The body both \<open>round_up_pow2\<close> functions run on \<open>v \<ge> 2\<close>.\<close>

definition pow2_ceiling :: "64 word \<Rightarrow> 64 word" where
  "pow2_ceiling v = smear (v - 1) + 1"

lemma pow2_ceiling_bounds:
  assumes "2 \<le> unat v" "unat v \<le> 2 ^ 63"
  obtains k where "1 \<le> k" "k \<le> 63" "unat (pow2_ceiling v) = 2 ^ k"
    "unat v \<le> 2 ^ k" "2 ^ k < 2 * unat v"
proof -
  have u: "unat (v - 1) = unat v - 1"
    using assms(1) by (intro unat_minus_one) auto
  obtain k where k: "2 ^ k \<le> unat (v - 1)" "unat (v - 1) < 2 ^ Suc k"
    using ex_power_ivl1[of 2 "unat (v - 1)"] u assms(1) by (auto simp: Suc_le_eq)
  have "(2::nat) ^ k < 2 ^ 63"
    using k(1) u assms by (intro le_less_trans [OF k(1)]) simp
  then have k63: "k < 63" by (rule power_less_imp_less_exp [rotated]) simp
  have "smear (v - 1) + 1 = mask (Suc k) + 1"
    using smear_mask[OF k(2,1)] k63 by simp
  also have "\<dots> = 2 ^ Suc k"
    by (simp add: mask_eq_exp_minus_1)
  finally have "unat (pow2_ceiling v) = unat (2 ^ Suc k :: 64 word)"
    by (simp only: pow2_ceiling_def)
  also have "\<dots> = 2 ^ Suc k"
  proof -
    have "unat (of_nat (2 ^ Suc k) :: 64 word) = 2 ^ Suc k mod 2 ^ 64"
      by (subst unat_of_nat) simp
    also have "\<dots> = 2 ^ Suc k"
      using k63 by (intro mod_less power_strict_increasing) auto
    finally show ?thesis by (simp only: of_nat_power of_nat_numeral)
  qed
  finally show thesis
    using that[of "Suc k"] k u k63 assms(1) by simp
qed

text \<open>
  Beyond \<open>2 ^ 63\<close> no power of two fits in 64 bits and the last increment wraps to 0.
\<close>

lemma pow2_ceiling_wraps:
  assumes "2 ^ 63 < unat v"
  shows "pow2_ceiling v = 0"
proof -
  have u: "unat (v - 1) = unat v - 1"
    using assms by (intro unat_minus_one) auto
  have "smear (v - 1) = mask (Suc 63)"
    using assms u unsigned_less[of v, where ?'a = nat] by (intro smear_mask) auto
  then show ?thesis by (simp add: pow2_ceiling_def mask_eq_exp_minus_1)
qed

text \<open>Both functions, on every argument for which a power of two exists.\<close>

lemma pow2_rounding:
  assumes "unat v \<le> 2 ^ 63"
  obtains k where "1 \<le> k" "k \<le> 63" "unat (if v < 2 then 2 else pow2_ceiling v) = 2 ^ k"
    "unat v \<le> 2 ^ k" "2 ^ k < 2 * unat v \<or> k = 1"
proof (cases "v < 2")
  case True
  then show thesis using that[of 1] by (simp add: word_less_nat_alt)
next
  case False
  then have "2 \<le> unat v" by (simp add: word_less_nat_alt not_less)
  then obtain k where "1 \<le> k" "k \<le> 63" "unat (pow2_ceiling v) = 2 ^ k" "unat v \<le> 2 ^ k"
    "2 ^ k < 2 * unat v"
    by (rule pow2_ceiling_bounds[OF _ assms])
  then show thesis using that[of k] False by simp
qed

lemma and_pow2_mod: "(n::nat) AND (2 ^ k - Suc 0) = n mod 2 ^ k"
  unfolding One_nat_def [symmetric] mask_eq_exp_minus_1 [symmetric] take_bit_eq_mask [symmetric]
    take_bit_eq_mod ..

lemma map_eq_by_Some: "(\<And>k v. f k = Some v \<longleftrightarrow> g k = Some v) \<Longrightarrow> f = g"
  by (rule ext) (metis option.exhaust)

end
