(* ===== verification/Types.thy ===== *)
theory Types
  imports Prelude
begin

text \<open>
  The domain primitives and message types: \<open>include/obe/Types.hpp\<close>, \<open>Trade.hpp\<close>,
  \<open>Command.hpp\<close> and the data of \<open>Order.hpp\<close>.

  The enumerations have the fixed underlying type \<open>std::uint8_t\<close>, so a C++ value of them is
  any byte, and the journal reader casts unchecked bytes into them.  Where a value can come
  from the journal, the datatype has one more constructor for the bytes without an enumerator.
\<close>

section \<open>Domain primitives\<close>

type_synonym price = i64
type_synonym quantity = "64 word"
type_synonym order_id = "64 word"
type_synonym sequence = "64 word"
type_synonym trader_id = "32 word"

datatype side = Buy | Sell | Side_unnamed "8 word"

definition opposite :: "side \<Rightarrow> side" where
  "opposite s = (if s = Buy then Sell else Buy)"

definition side_to_string :: "side \<Rightarrow> string" where
  "side_to_string s = (if s = Buy then ''BUY'' else ''SELL'')"

datatype order_type = Limit | IOC | FOK | Stop | OrderType_unnamed "8 word"

definition order_type_to_string :: "order_type \<Rightarrow> string" where
  "order_type_to_string t =
     (case t of
        Limit \<Rightarrow> ''LIMIT''
      | IOC \<Rightarrow> ''IOC''
      | FOK \<Rightarrow> ''FOK''
      | Stop \<Rightarrow> ''STOP''
      | OrderType_unnamed _ \<Rightarrow> ''?'')"

datatype self_trade_policy = STP_None | CancelResting | CancelAggressing

section \<open>Orders\<close>

text \<open>
  The attributes of an \<open>Order\<close> without its list linkage; the \<open>PriceLevel\<close> theory extends
  the record with the three pointers.
\<close>

record order_data =
  o_id :: order_id
  o_trader :: trader_id
  o_side :: side
  o_price :: price
  o_quantity :: quantity
  o_remaining :: quantity
  o_sequence :: sequence

definition is_filled :: "'a order_data_scheme \<Rightarrow> bool" where
  "is_filled ord \<longleftrightarrow> o_remaining ord = 0"

text \<open>\<open>Order::fill\<close> clamps the traded amount to what is left and returns it.\<close>

definition order_fill ::
    "quantity \<Rightarrow> 'a order_data_scheme \<Rightarrow> quantity \<times> 'a order_data_scheme" where
  "order_fill qty ord =
     (let traded = (if qty < o_remaining ord then qty else o_remaining ord)
      in (traded, ord\<lparr>o_remaining := o_remaining ord - traded\<rparr>))"

definition set_sequence :: "sequence \<Rightarrow> 'a order_data_scheme \<Rightarrow> 'a order_data_scheme" where
  "set_sequence sq ord = ord\<lparr>o_sequence := sq\<rparr>"

record order_snapshot =
  sn_side :: side
  sn_price :: price
  sn_id :: order_id
  sn_remaining :: quantity
  sn_sequence :: sequence

definition snapshot_eq :: "order_snapshot \<Rightarrow> order_snapshot \<Rightarrow> bool" where
  "snapshot_eq a b \<longleftrightarrow>
     sn_side a = sn_side b \<and> sn_price a = sn_price b \<and> sn_id a = sn_id b \<and>
     sn_remaining a = sn_remaining b \<and> sn_sequence a = sn_sequence b"

section \<open>Execution reports\<close>

record trade =
  t_price :: price
  t_quantity :: quantity
  t_taker_id :: order_id
  t_maker_id :: order_id
  t_taker_trader :: trader_id
  t_maker_trader :: trader_id
  t_taker_side :: side

datatype submit_status =
  Rested | FullyFilled | PartiallyFilled | CancelledBySelfTrade | Rejected
  | Cancelled | Killed | StopAccepted

record submit_result =
  r_status :: submit_status
  r_filled :: quantity
  r_resting :: quantity
  r_trade_count :: "64 word"

text \<open>A default-constructed \<open>SubmitResult\<close>.\<close>

definition submit_result_init :: submit_result where
  "submit_result_init =
     \<lparr>r_status = Rejected, r_filled = 0, r_resting = 0, r_trade_count = 0\<rparr>"

section \<open>Commands\<close>

datatype command_type = Submit | Cancel | Shutdown | CommandType_unnamed "8 word"

record command =
  c_type :: command_type
  c_order_type :: order_type
  c_id :: order_id
  c_trader :: trader_id
  c_side :: side
  c_price :: price
  c_quantity :: quantity
  c_trigger_price :: price

text \<open>A default-constructed \<open>Command\<close>.\<close>

definition command_init :: command where
  "command_init =
     \<lparr>c_type = Submit, c_order_type = Limit, c_id = 0, c_trader = 0, c_side = Buy,
      c_price = I64 0, c_quantity = 0, c_trigger_price = I64 0\<rparr>"

definition make_submit ::
    "order_id \<Rightarrow> trader_id \<Rightarrow> side \<Rightarrow> price \<Rightarrow> quantity \<Rightarrow> command" where
  "make_submit oid trader sd price quantity =
     command_init\<lparr>c_type := Submit, c_order_type := Limit, c_id := oid, c_trader := trader,
       c_side := sd, c_price := price, c_quantity := quantity\<rparr>"

definition make_submit_typed ::
    "order_id \<Rightarrow> trader_id \<Rightarrow> side \<Rightarrow> price \<Rightarrow> quantity \<Rightarrow> order_type \<Rightarrow> command" where
  "make_submit_typed oid trader sd price quantity ty =
     (make_submit oid trader sd price quantity)\<lparr>c_order_type := ty\<rparr>"

definition make_stop ::
    "order_id \<Rightarrow> trader_id \<Rightarrow> side \<Rightarrow> price \<Rightarrow> quantity \<Rightarrow> command" where
  "make_stop oid trader sd trigger quantity =
     command_init\<lparr>c_type := Submit, c_order_type := Stop, c_id := oid, c_trader := trader,
       c_side := sd, c_price := I64 0, c_quantity := quantity, c_trigger_price := trigger\<rparr>"

definition make_cancel :: "order_id \<Rightarrow> command" where
  "make_cancel oid = command_init\<lparr>c_type := Cancel, c_id := oid\<rparr>"

definition make_shutdown :: command where
  "make_shutdown = command_init\<lparr>c_type := Shutdown\<rparr>"

lemmas command_defs = command_init_def make_submit_def make_submit_typed_def make_stop_def
  make_cancel_def make_shutdown_def

section \<open>Facts\<close>

lemma snapshot_eq_iff [simp]: "snapshot_eq a b \<longleftrightarrow> a = b"
  by (cases a; cases b) (simp add: snapshot_eq_def)

lemma opposite_Buy_iff [simp]: "opposite s = Buy \<longleftrightarrow> s \<noteq> Buy"
  by (simp add: opposite_def)

lemma opposite_neq [simp]: "opposite s \<noteq> s"
  by (auto simp: opposite_def)

lemma order_fill_min:
  "order_fill qty ord =
     (min qty (o_remaining ord), ord\<lparr>o_remaining := o_remaining ord - min qty (o_remaining ord)\<rparr>)"
  by (auto simp: order_fill_def Let_def min_def)

lemma order_fill_attributes:
  assumes "order_fill qty ord = (traded, ord')"
  shows "o_id ord' = o_id ord" "o_trader ord' = o_trader ord" "o_side ord' = o_side ord"
    "o_price ord' = o_price ord" "o_quantity ord' = o_quantity ord"
    "o_sequence ord' = o_sequence ord" "order_data.more ord' = order_data.more ord"
  using assms by (auto simp: order_fill_min)

text \<open>A fill never takes more than was left, and what it takes and leaves add up.\<close>

lemma order_fill_conserves:
  assumes "order_fill qty ord = (traded, ord')"
  shows "unat (o_remaining ord') + unat traded = unat (o_remaining ord)"
    and "traded \<le> qty" and "is_filled ord' \<longleftrightarrow> o_remaining ord \<le> qty"
  using assms
  by (auto simp: order_fill_def Let_def is_filled_def unat_sub word_le_nat_alt word_less_nat_alt
      split: if_splits)

end
