(* ===== verification/Interfaces.thy ===== *)
theory Interfaces
  imports Types
begin

text \<open>
  The contracts between the components, as locales: what the order book may rely on of its id
  index and of its object pool, and what the engine may rely on of the queue in front of it.
  The component that provides the operations interprets the locale on its model.
\<close>

section \<open>The id index of the order book\<close>

text \<open>
  Sequences of index operations and what a caller observes of them; \<open>map_run\<close> is the reference
  on a plain map, as the oracle of \<open>tests/test_flat_hash_map.cpp\<close> is.
\<close>

datatype 'v index_op = Op_find order_id | Op_insert order_id 'v | Op_erase order_id

datatype 'v index_obs = Obs_find "'v option" | Obs_insert | Obs_erase bool

fun map_run ::
    "'v index_op list \<Rightarrow> (order_id \<Rightarrow> 'v option) \<Rightarrow> 'v index_obs list \<times> (order_id \<Rightarrow> 'v option)" where
  "map_run [] f = ([], f)"
| "map_run (Op_find k # ops) f = (let (obs, g) = map_run ops f in (Obs_find (f k) # obs, g))"
| "map_run (Op_insert k v # ops) f =
     (let (obs, g) = map_run ops (f(k \<mapsto> v)) in (Obs_insert # obs, g))"
| "map_run (Op_erase k # ops) f =
     (let (obs, g) = map_run ops (f(k := None)) in (Obs_erase (f k \<noteq> None) # obs, g))"

fun index_run ::
    "('m \<Rightarrow> order_id \<Rightarrow> 'v option option) \<Rightarrow> ('m \<Rightarrow> order_id \<Rightarrow> 'v \<Rightarrow> 'm option) \<Rightarrow>
     ('m \<Rightarrow> order_id \<Rightarrow> (bool \<times> 'm) option) \<Rightarrow> 'v index_op list \<Rightarrow> 'm \<Rightarrow>
     ('v index_obs list \<times> 'm) option" where
  "index_run lookup put del [] m = Some ([], m)"
| "index_run lookup put del (Op_find k # ops) m =
     do {
       r \<leftarrow> lookup m k;
       (obs, m') \<leftarrow> index_run lookup put del ops m;
       Some (Obs_find r # obs, m')
     }"
| "index_run lookup put del (Op_insert k v # ops) m =
     do {
       m1 \<leftarrow> put m k v;
       (obs, m') \<leftarrow> index_run lookup put del ops m1;
       Some (Obs_insert # obs, m')
     }"
| "index_run lookup put del (Op_erase k # ops) m =
     do {
       (b, m1) \<leftarrow> del m k;
       (obs, m') \<leftarrow> index_run lookup put del ops m1;
       Some (Obs_erase b # obs, m')
     }"

locale id_index =
  fixes lookup :: "'m \<Rightarrow> order_id \<Rightarrow> 'v option option"
    and put :: "'m \<Rightarrow> order_id \<Rightarrow> 'v \<Rightarrow> 'm option"
    and del :: "'m \<Rightarrow> order_id \<Rightarrow> (bool \<times> 'm) option"
    and entries :: "'m \<Rightarrow> nat"
    and alpha :: "'m \<Rightarrow> order_id \<Rightarrow> 'v option"
    and inv :: "'m \<Rightarrow> bool"
  assumes lookup_alpha: "inv m \<Longrightarrow> lookup m k = Some (alpha m k)"
    and put_alpha: "inv m \<Longrightarrow> \<exists>m'. put m k v = Some m' \<and> inv m' \<and> alpha m' = (alpha m)(k \<mapsto> v)"
    and del_alpha: "inv m \<Longrightarrow>
      \<exists>m'. del m k = Some (alpha m k \<noteq> None, m') \<and> inv m' \<and> alpha m' = (alpha m)(k := None)"
    and entries_alpha: "inv m \<Longrightarrow> entries m = card (dom (alpha m))"
begin

lemma putE:
  assumes "inv m"
  obtains m' where "put m k v = Some m'" "inv m'" "alpha m' = (alpha m)(k \<mapsto> v)"
  using put_alpha[OF assms] by blast

lemma delE:
  assumes "inv m"
  obtains m' where "del m k = Some (alpha m k \<noteq> None, m')" "inv m'" "alpha m' = (alpha m)(k := None)"
  using del_alpha[OF assms] by blast

text \<open>Any sequence of operations is observed as it would be on a map.\<close>

lemma run_alpha:
  assumes "inv m"
  shows "\<exists>m'. index_run lookup put del ops m = Some (fst (map_run ops (alpha m)), m') \<and>
    inv m' \<and> alpha m' = snd (map_run ops (alpha m))"
  using assms
proof (induction ops arbitrary: m)
  case Nil
  then show ?case by simp
next
  case (Cons op ops)
  show ?case
  proof (cases op)
    case (Op_find k)
    then show ?thesis
      using Cons.IH[OF Cons.prems] lookup_alpha[OF Cons.prems] by (auto split: prod.splits)
  next
    case (Op_insert k v)
    obtain m1 where m1: "put m k v = Some m1" "inv m1" "alpha m1 = (alpha m)(k \<mapsto> v)"
      by (rule putE[OF Cons.prems])
    show ?thesis
      using Cons.IH[OF m1(2)] m1(1) Op_insert by (auto simp: m1(3) [symmetric] split: prod.splits)
  next
    case (Op_erase k)
    obtain m1 where m1: "del m k = Some (alpha m k \<noteq> None, m1)" "inv m1"
      "alpha m1 = (alpha m)(k := None)"
      by (rule delE[OF Cons.prems])
    show ?thesis
      using Cons.IH[OF m1(2)] m1(1) Op_erase by (auto simp: m1(3) [symmetric] split: prod.splits)
  qed
qed

end

section \<open>The object pool of the order book\<close>

type_synonym addr = nat

text \<open>A pointer: an address, or null.\<close>

type_synonym ptr = "addr option"

text \<open>
  \<open>heap\<close> gives the live object at an address.  An acquired object is at an address where none
  was live, and no operation moves or changes another object.
\<close>

text \<open>
  A client that keeps the addresses it has acquired, oldest first, and gives back the \<open>i\<close>-th of
  them; \<open>held_values\<close> are the objects that it holds then.
\<close>

datatype 'a pool_op = Op_acquire 'a | Op_release nat

definition drop_at :: "nat \<Rightarrow> 'b list \<Rightarrow> 'b list" where
  "drop_at i xs = take i xs @ drop (Suc i) xs"

fun held_values :: "'a pool_op list \<Rightarrow> 'a list \<Rightarrow> 'a list" where
  "held_values [] xs = xs"
| "held_values (Op_acquire x # ops) xs = held_values ops (xs @ [x])"
| "held_values (Op_release i # ops) xs = held_values ops (drop_at i xs)"

fun pool_run ::
    "('a \<Rightarrow> 'p \<Rightarrow> (ptr \<times> 'p) option) \<Rightarrow> (ptr \<Rightarrow> 'p \<Rightarrow> 'p option) \<Rightarrow> 'a pool_op list \<Rightarrow>
     ptr list \<Rightarrow> 'p \<Rightarrow> (ptr list \<times> 'p) option" where
  "pool_run acq rel [] held p = Some (held, p)"
| "pool_run acq rel (Op_acquire x # ops) held p =
     do {
       (a, p1) \<leftarrow> acq x p;
       pool_run acq rel ops (held @ [a]) p1
     }"
| "pool_run acq rel (Op_release i # ops) held p =
     (if i < length held then
        do {
          p1 \<leftarrow> rel (held ! i) p;
          pool_run acq rel ops (drop_at i held) p1
        }
      else pool_run acq rel ops held p)"

text \<open>The addresses are those of the objects, all of them, in this order.\<close>

definition holds :: "(addr \<Rightarrow> 'a option) \<Rightarrow> ptr list \<Rightarrow> 'a list \<Rightarrow> bool" where
  "holds h held xs \<longleftrightarrow>
     distinct held \<and> length held = length xs \<and> set held = Some ` dom h \<and>
     (\<forall>i < length xs. \<exists>a. held ! i = Some a \<and> h a = Some (xs ! i))"

lemma drop_at_beyond [simp]: "length xs \<le> i \<Longrightarrow> drop_at i xs = xs"
  by (simp add: drop_at_def)

lemma length_drop_at: "i < length xs \<Longrightarrow> length (drop_at i xs) = length xs - 1"
  by (simp add: drop_at_def)

lemma nth_drop_at: "i < length xs \<Longrightarrow> j < length xs - 1 \<Longrightarrow>
    drop_at i xs ! j = xs ! (if j < i then j else Suc j)"
  by (auto simp: drop_at_def nth_append min_def)

lemma set_drop_at:
  assumes "distinct xs" "i < length xs"
  shows "set (drop_at i xs) = set xs - {xs ! i}"
proof -
  define ys zs where "ys = take i xs" and "zs = drop (Suc i) xs"
  have xs: "xs = ys @ xs ! i # zs" unfolding ys_def zs_def by (rule id_take_nth_drop[OF assms(2)])
  have "distinct (ys @ xs ! i # zs)" using assms(1) xs by simp
  then have "xs ! i \<notin> set ys" "xs ! i \<notin> set zs" by auto
  moreover have "set xs = insert (xs ! i) (set ys \<union> set zs)" by (subst xs) simp
  moreover have "set (drop_at i xs) = set ys \<union> set zs" by (simp add: drop_at_def ys_def zs_def)
  ultimately show ?thesis by auto
qed

lemma holds_acquire:
  assumes "holds h held xs" "h a = None"
  shows "holds (h(a \<mapsto> x)) (held @ [Some a]) (xs @ [x])"
proof -
  note h = assms(1)[unfolded holds_def]
  have new: "Some a \<notin> set held" using h assms(2) by (auto simp: domIff)
  have "\<exists>b. (held @ [Some a]) ! i = Some b \<and> (h(a \<mapsto> x)) b = Some ((xs @ [x]) ! i)"
    if i: "i < length (xs @ [x])" for i
  proof (cases "i < length xs")
    case True
    then obtain b where b: "held ! i = Some b" "h b = Some (xs ! i)" using h by blast
    then have "b \<noteq> a" using assms(2) by auto
    then show ?thesis using b True h by (simp add: nth_append)
  next
    case False
    then have "i = length xs" using i by simp
    then show ?thesis using h by (simp add: nth_append)
  qed
  moreover have "set (held @ [Some a]) = Some ` dom (h(a \<mapsto> x))" using h by simp
  ultimately show ?thesis using h new unfolding holds_def by simp
qed

lemma holds_release:
  assumes "holds h held xs" "i < length xs" "held ! i = Some a"
  shows "holds (h(a := None)) (drop_at i held) (drop_at i xs)"
proof -
  note h = assms(1)[unfolded holds_def]
  have len: "i < length held" using h assms(2) by simp
  have "distinct (drop_at i held)"
    using h len by (simp add: drop_at_def distinct_take set_take_disj_set_drop_if_distinct)
  moreover have "length (drop_at i held) = length (drop_at i xs)"
    using h assms(2) by (simp add: length_drop_at)
  moreover have "set (drop_at i held) = Some ` dom (h(a := None))"
  proof -
    have "set (drop_at i held) = Some ` dom h - {Some a}"
      using h len assms(3) by (simp only: set_drop_at)
    also have "\<dots> = Some ` (dom h - {a})" by auto
    finally show ?thesis by simp
  qed
  moreover have "\<exists>b. drop_at i held ! j = Some b \<and> (h(a := None)) b = Some (drop_at i xs ! j)"
    if "j < length (drop_at i xs)" for j
  proof -
    let ?j = "if j < i then j else Suc j"
    have j: "j < length xs - 1" "?j < length xs" "?j \<noteq> i" using that assms(2) by (auto simp: length_drop_at)
    have all: "\<forall>k < length xs. \<exists>b. held ! k = Some b \<and> h b = Some (xs ! k)" using h by simp
    obtain b where b: "held ! ?j = Some b" "h b = Some (xs ! ?j)" using all[rule_format, OF j(2)] by blast
    have "?j < length held" "distinct held" using h j(2) by simp_all
    then have "held ! ?j \<noteq> held ! i" using len j(3) by (simp only: nth_eq_iff_index_eq not_False_eq_True)
    then have "b \<noteq> a" using b(1) assms(3) by simp
    moreover have "length held = length xs" using h by simp
    ultimately show ?thesis using b j(1) assms(2) by (simp only: nth_drop_at[OF len] nth_drop_at[OF assms(2)]) simp
  qed
  ultimately show ?thesis unfolding holds_def by blast
qed

locale object_pool =
  fixes acquire :: "'a \<Rightarrow> 'p \<Rightarrow> (ptr \<times> 'p) option"
    and release :: "ptr \<Rightarrow> 'p \<Rightarrow> 'p option"
    and live :: "'p \<Rightarrow> 64 word"
    and heap :: "'p \<Rightarrow> addr \<Rightarrow> 'a option"
    and inv :: "'p \<Rightarrow> bool"
  assumes acquire_heap: "inv p \<Longrightarrow>
      \<exists>a p'. acquire x p = Some (Some a, p') \<and> inv p' \<and> heap p a = None \<and> heap p' = (heap p)(a \<mapsto> x)"
    and release_heap: "inv p \<Longrightarrow> heap p a \<noteq> None \<Longrightarrow>
      \<exists>p'. release (Some a) p = Some p' \<and> inv p' \<and> heap p' = (heap p)(a := None)"
    and release_null: "release None p = Some p"
    and live_heap: "inv p \<Longrightarrow> live p = of_nat (card (dom (heap p)))"
    and heap_finite: "inv p \<Longrightarrow> finite (dom (heap p))"
begin

lemma acquireE:
  assumes "inv p"
  obtains a p' where "acquire x p = Some (Some a, p')" "inv p'" "heap p a = None"
    "heap p' = (heap p)(a \<mapsto> x)"
  using acquire_heap[OF assms] by blast

lemma releaseE:
  assumes "inv p" "heap p a = Some x"
  obtains p' where "release (Some a) p = Some p'" "inv p'" "heap p' = (heap p)(a := None)"
  using release_heap[OF assms(1)] assms(2) by blast

text \<open>Releasing what was just acquired leaves no object behind.\<close>

lemma acquire_release:
  assumes "inv p"
  obtains a p' p'' where "acquire x p = Some (Some a, p')" "release (Some a) p' = Some p''"
    "inv p''" "heap p'' = heap p" "live p'' = live p"
proof -
  obtain a p' where a: "acquire x p = Some (Some a, p')" "inv p'" "heap p a = None"
    "heap p' = (heap p)(a \<mapsto> x)"
    by (rule acquireE[OF assms])
  from a(4) have "heap p' a = Some x" by simp
  then obtain p'' where p'': "release (Some a) p' = Some p''" "inv p''" "heap p'' = (heap p')(a := None)"
    by (rule releaseE[OF a(2)])
  then have "heap p'' = heap p" using a by (auto simp: fun_eq_iff)
  then show thesis using that a p'' live_heap assms by simp
qed

text \<open>Any client gets its objects back unchanged, at addresses of their own.\<close>

lemma run_holds:
  assumes "inv p" "holds (heap p) held xs"
  shows "\<exists>held' p'. pool_run acquire release ops held p = Some (held', p') \<and> inv p' \<and>
    holds (heap p') held' (held_values ops xs)"
  using assms
proof (induction ops arbitrary: p held xs)
  case (Cons op ops)
  note IH = Cons.IH and prems = Cons.prems
  show ?case
  proof (cases op)
    case (Op_acquire x)
    obtain a p' where a: "acquire x p = Some (Some a, p')" "inv p'" "heap p a = None"
      "heap p' = (heap p)(a \<mapsto> x)"
      by (rule acquireE[OF prems(1)])
    have "holds (heap p') (held @ [Some a]) (xs @ [x])"
      unfolding a(4) by (rule holds_acquire[OF prems(2) a(3)])
    from IH[OF a(2) this] show ?thesis using a(1) Op_acquire by simp
  next
    case (Op_release i)
    have len: "length held = length xs" using prems(2) by (simp add: holds_def)
    show ?thesis
    proof (cases "i < length xs")
      case False
      then show ?thesis using IH[OF prems] Op_release len by simp
    next
      case True
      obtain a where a: "held ! i = Some a" "heap p a = Some (xs ! i)"
        using prems(2) True unfolding holds_def by blast
      obtain p' where p': "release (Some a) p = Some p'" "inv p'" "heap p' = (heap p)(a := None)"
        by (rule releaseE[OF prems(1) a(2)])
      have "holds (heap p') (drop_at i held) (drop_at i xs)"
        unfolding p'(3) by (rule holds_release[OF prems(2) True a(1)])
      from IH[OF p'(2) this] show ?thesis using p'(1) a(1) Op_release True len by simp
    qed
  qed
qed auto

end

section \<open>The command queue of the engine\<close>

datatype 'a queue_op = Op_push 'a | Op_pop

datatype 'a queue_obs = Obs_push bool | Obs_pop "'a option"

text \<open>The reference: a list that holds at most \<open>cap\<close> elements.\<close>

fun bounded_run :: "nat \<Rightarrow> 'a queue_op list \<Rightarrow> 'a list \<Rightarrow> 'a queue_obs list \<times> 'a list" where
  "bounded_run cap [] xs = ([], xs)"
| "bounded_run cap (Op_push x # ops) xs =
     (let room = length xs < cap;
          (obs, ys) = bounded_run cap ops (if room then xs @ [x] else xs)
      in (Obs_push room # obs, ys))"
| "bounded_run cap (Op_pop # ops) xs =
     (case xs of
        [] \<Rightarrow> let (obs, ys) = bounded_run cap ops [] in (Obs_pop None # obs, ys)
      | y # xs' \<Rightarrow> let (obs, ys) = bounded_run cap ops xs' in (Obs_pop (Some y) # obs, ys))"

fun queue_run ::
    "('a \<Rightarrow> 'q \<Rightarrow> (bool \<times> 'q) option) \<Rightarrow> ('q \<Rightarrow> ('a option \<times> 'q) option) \<Rightarrow>
     'a queue_op list \<Rightarrow> 'q \<Rightarrow> ('a queue_obs list \<times> 'q) option" where
  "queue_run enq deq [] q = Some ([], q)"
| "queue_run enq deq (Op_push x # ops) q =
     do {
       (b, q1) \<leftarrow> enq x q;
       (obs, q') \<leftarrow> queue_run enq deq ops q1;
       Some (Obs_push b # obs, q')
     }"
| "queue_run enq deq (Op_pop # ops) q =
     do {
       (r, q1) \<leftarrow> deq q;
       (obs, q') \<leftarrow> queue_run enq deq ops q1;
       Some (Obs_pop r # obs, q')
     }"

locale bounded_queue =
  fixes enq :: "'a \<Rightarrow> 'q \<Rightarrow> (bool \<times> 'q) option"
    and deq :: "'q \<Rightarrow> ('a option \<times> 'q) option"
    and contents :: "'q \<Rightarrow> 'a list"
    and room :: "'q \<Rightarrow> nat"
    and inv :: "'q \<Rightarrow> bool"
  assumes enq_contents: "inv q \<Longrightarrow>
      \<exists>q'. enq x q = Some (length (contents q) < room q, q') \<and> inv q' \<and> room q' = room q \<and>
        contents q' = (if length (contents q) < room q then contents q @ [x] else contents q)"
    and deq_empty: "inv q \<Longrightarrow> contents q = [] \<Longrightarrow> deq q = Some (None, q)"
    and deq_contents: "inv q \<Longrightarrow> contents q = x # xs \<Longrightarrow>
      \<exists>q'. deq q = Some (Some x, q') \<and> inv q' \<and> room q' = room q \<and> contents q' = xs"
begin

lemma run_contents:
  assumes "inv q"
  shows "\<exists>q'. queue_run enq deq ops q = Some (fst (bounded_run (room q) ops (contents q)), q') \<and>
    inv q' \<and> room q' = room q \<and> contents q' = snd (bounded_run (room q) ops (contents q))"
  using assms
proof (induction ops arbitrary: q)
  case (Cons op ops)
  note IH = Cons.IH and prems = Cons.prems
  show ?case
  proof (cases op)
    case (Op_push x)
    obtain q1 where q1: "enq x q = Some (length (contents q) < room q, q1)" "inv q1" "room q1 = room q"
      "contents q1 = (if length (contents q) < room q then contents q @ [x] else contents q)"
      using enq_contents[OF Cons.prems] by blast
    show ?thesis
      using Cons.IH[OF q1(2)] q1(1) Op_push
      by (auto simp: q1(3) q1(4) [symmetric] Let_def split_def)
  next
    case Op_pop
    show ?thesis
    proof (cases "contents q")
      case Nil
      then show ?thesis
        using Cons.IH[OF Cons.prems] deq_empty[OF Cons.prems] Op_pop by (auto simp: split_def Let_def)
    next
      case (Cons x xs)
      obtain q1 where q1: "deq q = Some (Some x, q1)" "inv q1" "room q1 = room q" "contents q1 = xs"
        using deq_contents[OF prems Cons] by blast
      show ?thesis
        using IH[OF q1(2)] q1 Op_pop Cons by (auto simp: split_def Let_def)
    qed
  qed
qed simp

end

end
