(* ===== verification/MemoryPool.thy ===== *)
theory MemoryPool
  imports Interfaces
begin

text \<open>
  The free-list allocator of \<open>include/obe/MemoryPool.hpp\<close> and the memory it hands out.

  A slot holds either a free-list node or a live object, as the storage of the pool does.
  Addresses count the slots in the order in which they were carved from the operating system:
  every \<open>::operator new\<close> returns a fresh region.  Memory is unlimited here, and slot counts are
  natural numbers; \<open>live_count_\<close>, which is decremented, is a 64-bit word.  \<open>PoolWidth\<close> gives all sizes
  their 64 bits, and running out of memory (\<open>std::bad_alloc\<close>) is left to \<open>BookFailure\<close>.
\<close>

section \<open>Memory\<close>

datatype 'a slot = FreeNode ptr | Object 'a

type_synonym 'a memory = "addr \<Rightarrow> 'a slot option"

text \<open>
  Reading and writing through a pointer to an object: \<open>None\<close> for a null pointer, for an address
  outside the pool and for a slot whose object has been destroyed.
\<close>

definition load :: "'a memory \<Rightarrow> ptr \<Rightarrow> 'a option" where
  "load mem p =
     do {
       a \<leftarrow> p;
       s \<leftarrow> mem a;
       (case s of Object x \<Rightarrow> Some x | FreeNode _ \<Rightarrow> None)
     }"

definition poke :: "'a memory \<Rightarrow> ptr \<Rightarrow> 'a \<Rightarrow> 'a memory option" where
  "poke mem p x =
     do {
       a \<leftarrow> p;
       _ \<leftarrow> load mem p;
       Some (mem(a \<mapsto> Object x))
     }"

text \<open>The live objects.\<close>

definition objects :: "'a memory \<Rightarrow> addr \<Rightarrow> 'a option" where
  "objects mem a = load mem (Some a)"

section \<open>The pool\<close>

record 'a mpool =
  mp_mem :: "'a memory"
  mp_blocks :: "addr list"
  mp_free_list :: ptr
  mp_slots_per_block :: nat
  mp_capacity :: nat
  mp_live_count :: "64 word"

text \<open>The loop of \<open>grow\<close>: thread the slots of the new block onto the front of the free list.\<close>

fun mp_thread :: "addr \<Rightarrow> nat list \<Rightarrow> 'a memory \<Rightarrow> ptr \<Rightarrow> 'a memory \<times> ptr" where
  "mp_thread raw [] mem fl = (mem, fl)"
| "mp_thread raw (i # is) mem fl = mp_thread raw is (mem(raw + i \<mapsto> FreeNode fl)) (Some (raw + i))"

definition mp_grow :: "'a mpool \<Rightarrow> 'a mpool" where
  "mp_grow p =
     (let n = mp_slots_per_block p;
          raw = mp_capacity p;
          (mem, fl) = mp_thread raw [0..<n] (mp_mem p) (mp_free_list p)
      in p\<lparr>mp_mem := mem, mp_blocks := mp_blocks p @ [raw], mp_free_list := fl,
           mp_slots_per_block := n * 2, mp_capacity := mp_capacity p + n\<rparr>)"

definition mp_new :: "nat \<Rightarrow> 'a mpool" where
  "mp_new initial_capacity =
     mp_grow \<lparr>mp_mem = Map.empty, mp_blocks = [], mp_free_list = None,
       mp_slots_per_block = (if initial_capacity = 0 then 1 else initial_capacity),
       mp_capacity = 0, mp_live_count = 0\<rparr>"

text \<open>\<open>acquire\<close> with the object that the constructor call builds.\<close>

definition mp_acquire :: "'a \<Rightarrow> 'a mpool \<Rightarrow> (ptr \<times> 'a mpool) option" where
  "mp_acquire x p0 =
     (let p = (if mp_free_list p0 = None then mp_grow p0 else p0)
      in do {
        node \<leftarrow> mp_free_list p;
        s \<leftarrow> mp_mem p node;
        (case s of
           Object _ \<Rightarrow> None
         | FreeNode nxt \<Rightarrow>
             Some (Some node,
               p\<lparr>mp_free_list := nxt, mp_live_count := mp_live_count p + 1,
                 mp_mem := (mp_mem p)(node \<mapsto> Object x)\<rparr>))
      })"

definition mp_release :: "ptr \<Rightarrow> 'a mpool \<Rightarrow> 'a mpool option" where
  "mp_release obj p =
     (case obj of
        None \<Rightarrow> Some p
      | Some a \<Rightarrow>
          do {
            _ \<leftarrow> load (mp_mem p) obj;
            Some (p\<lparr>mp_mem := (mp_mem p)(a \<mapsto> FreeNode (mp_free_list p)), mp_free_list := obj,
              mp_live_count := mp_live_count p - 1\<rparr>)
          })"

definition mp_block_count :: "'a mpool \<Rightarrow> nat" where
  "mp_block_count p = length (mp_blocks p)"

text \<open>The live objects of a pool.\<close>

definition mp_heap :: "'a mpool \<Rightarrow> addr \<Rightarrow> 'a option" where
  "mp_heap p = objects (mp_mem p)"

section \<open>Reading and writing\<close>

lemma load_null [simp]: "load mem None = None"
  by (simp add: load_def)

lemma load_Some [simp]: "load mem (Some a) = objects mem a"
  by (simp add: objects_def)

lemma objects_eq_Some: "objects mem a = Some x \<longleftrightarrow> mem a = Some (Object x)"
  unfolding objects_def load_def by (cases "mem a") (auto split: slot.splits)

lemma objects_upd_Object [simp]: "objects (mem(a \<mapsto> Object x)) = (objects mem)(a \<mapsto> x)"
  by (rule map_eq_by_Some) (auto simp: objects_eq_Some)

lemma objects_upd_FreeNode [simp]: "objects (mem(a \<mapsto> FreeNode n)) = (objects mem)(a := None)"
  by (rule map_eq_by_Some) (auto simp: objects_eq_Some)

lemma poke_null [simp]: "poke mem None x = None"
  by (simp add: poke_def)

lemma poke_Some [simp]:
  "poke mem (Some a) x = (if objects mem a = None then None else Some (mem(a \<mapsto> Object x)))"
  by (cases "objects mem a") (auto simp: poke_def)

text \<open>Two memories that differ at most in the contents of live objects.\<close>

definition same_layout :: "'a memory \<Rightarrow> 'a memory \<Rightarrow> bool" where
  "same_layout mem mem' \<longleftrightarrow>
     (\<forall>a. mem' a = mem a \<or> (\<exists>x y. mem a = Some (Object x) \<and> mem' a = Some (Object y)))"

lemma same_layout_refl [simp]: "same_layout mem mem"
  by (simp add: same_layout_def)

lemma same_layout_trans: "same_layout m1 m2 \<Longrightarrow> same_layout m2 m3 \<Longrightarrow> same_layout m1 m3"
  unfolding same_layout_def by metis

lemma same_layout_poke [simp]:
  "objects mem a \<noteq> None \<Longrightarrow> same_layout mem (mem(a \<mapsto> Object x))"
  by (auto simp: same_layout_def objects_eq_Some)

section \<open>Well-formed pools\<close>

text \<open>The free list as the list of its addresses.\<close>

fun free_chain :: "'a memory \<Rightarrow> ptr \<Rightarrow> addr list \<Rightarrow> bool" where
  "free_chain mem p [] \<longleftrightarrow> p = None"
| "free_chain mem p (a # as) \<longleftrightarrow> p = Some a \<and> (\<exists>n. mem a = Some (FreeNode n) \<and> free_chain mem n as)"

definition free_slots :: "'a memory \<Rightarrow> addr set" where
  "free_slots mem = {a. \<exists>n. mem a = Some (FreeNode n)}"

text \<open>
  Every slot below the capacity is on the free list exactly once or holds a live object.
\<close>

definition mp_inv :: "'a mpool \<Rightarrow> bool" where
  "mp_inv p \<longleftrightarrow>
     (\<exists>fl. free_chain (mp_mem p) (mp_free_list p) fl \<and> distinct fl \<and> set fl = free_slots (mp_mem p)) \<and>
     dom (mp_mem p) = {..<mp_capacity p} \<and> 0 < mp_slots_per_block p \<and>
     mp_live_count p = of_nat (card (dom (mp_heap p)))"

lemma mp_invI:
  "free_chain (mp_mem p) (mp_free_list p) fl \<Longrightarrow> distinct fl \<Longrightarrow> set fl = free_slots (mp_mem p) \<Longrightarrow>
   dom (mp_mem p) = {..<mp_capacity p} \<Longrightarrow> 0 < mp_slots_per_block p \<Longrightarrow>
   mp_live_count p = of_nat (card (dom (mp_heap p))) \<Longrightarrow> mp_inv p"
  unfolding mp_inv_def by blast

lemma free_chain_upd [simp]: "a \<notin> set fl \<Longrightarrow> free_chain (mem(a := s)) p fl \<longleftrightarrow> free_chain mem p fl"
  by (induction fl arbitrary: p) auto

lemma free_chain_frame:
  "(\<And>a. a \<in> set fl \<Longrightarrow> mem' a = mem a) \<Longrightarrow> free_chain mem' p fl \<longleftrightarrow> free_chain mem p fl"
  by (induction fl arbitrary: p) auto

lemma free_chain_free: "free_chain mem p fl \<Longrightarrow> a \<in> set fl \<Longrightarrow> a \<in> free_slots mem"
  by (induction fl arbitrary: p) (auto simp: free_slots_def)

lemma dom_objects: "dom (objects mem) = dom mem - free_slots mem"
  by (auto simp: free_slots_def dom_def objects_eq_Some) (metis slot.exhaust)

lemma mp_heap_finite: "mp_inv p \<Longrightarrow> finite (dom (mp_heap p))"
  by (simp add: mp_inv_def mp_heap_def dom_objects)

text \<open>The slots on the free list and the live objects make up the capacity.\<close>

lemma mp_inv_partition:
  assumes "mp_inv p" "free_chain (mp_mem p) (mp_free_list p) fl" "distinct fl"
    "set fl = free_slots (mp_mem p)"
  shows "length fl + card (dom (mp_heap p)) = mp_capacity p"
proof -
  have dom: "dom (mp_mem p) = {..<mp_capacity p}" using assms(1) by (simp add: mp_inv_def)
  have sub: "free_slots (mp_mem p) \<subseteq> {..<mp_capacity p}"
    using dom by (auto simp: free_slots_def)
  have "card (dom (mp_heap p)) = mp_capacity p - card (free_slots (mp_mem p))"
    using sub by (simp add: mp_heap_def dom_objects dom card_Diff_subset finite_subset)
  moreover have "card (free_slots (mp_mem p)) = length fl"
    using assms(3,4) by (metis distinct_card)
  moreover have "card (free_slots (mp_mem p)) \<le> mp_capacity p"
    using card_mono[OF _ sub] by simp
  ultimately show ?thesis by simp
qed

text \<open>Writing to live objects does not concern the pool.\<close>

lemma mp_inv_layout:
  assumes "mp_inv p" "same_layout (mp_mem p) mem'"
  shows "mp_inv (p\<lparr>mp_mem := mem'\<rparr>)" "dom (objects mem') = dom (mp_heap p)"
proof -
  have free: "mem' a = Some (FreeNode n) \<longleftrightarrow> mp_mem p a = Some (FreeNode n)" for a n
    using assms(2) unfolding same_layout_def by (metis option.inject slot.distinct(1))
  have "mem' a = None \<longleftrightarrow> mp_mem p a = None" for a
    using assms(2) unfolding same_layout_def by (metis option.distinct(1))
  then have dom: "dom mem' = dom (mp_mem p)" by (auto simp: dom_def)
  have slots: "free_slots mem' = free_slots (mp_mem p)" by (simp add: free_slots_def free)
  show heap: "dom (objects mem') = dom (mp_heap p)"
    by (simp add: mp_heap_def dom_objects dom slots)
  have "free_chain mem' q fl \<longleftrightarrow> free_chain (mp_mem p) q fl" for q fl
    by (induction fl arbitrary: q) (auto simp: free)
  then show "mp_inv (p\<lparr>mp_mem := mem'\<rparr>)"
    using assms(1) heap by (auto simp: mp_inv_def dom slots mp_heap_def)
qed

section \<open>Growing\<close>

text \<open>Threading a fresh block extends the free list and touches no other slot.\<close>

lemma mp_thread_ok:
  assumes "free_chain mem fl xs" "distinct xs" "set xs = free_slots mem"
    and "distinct is" "\<And>i. i \<in> set is \<Longrightarrow> mem (raw + i) = None"
    and "mp_thread raw is mem fl = (mem', fl')"
  shows "(\<exists>ys. free_chain mem' fl' ys \<and> distinct ys \<and> set ys = free_slots mem') \<and>
    dom mem' = dom mem \<union> ((+) raw) ` set is \<and> objects mem' = objects mem \<and>
    (is \<noteq> [] \<or> fl \<noteq> None \<longrightarrow> fl' \<noteq> None)"
  using assms
proof (induction "is" arbitrary: mem fl xs)
  case Nil
  then show ?case by auto
next
  case (Cons i "is")
  let ?a = "raw + i"
  define mem1 where "mem1 = mem(?a \<mapsto> FreeNode fl)"
  have fresh: "mem ?a = None" "?a \<notin> set xs"
    using Cons.prems(3,5) by (auto simp: free_slots_def)
  have 1: "free_chain mem1 (Some ?a) (?a # xs)" and 2: "distinct (?a # xs)"
    using Cons.prems(1,2) fresh by (auto simp: mem1_def)
  have 3: "set (?a # xs) = free_slots mem1"
    using Cons.prems(3) fresh by (auto simp: free_slots_def mem1_def)
  have 4: "distinct is" and 5: "\<And>j. j \<in> set is \<Longrightarrow> mem1 (raw + j) = None"
    using Cons.prems(4,5) by (auto simp: mem1_def)
  have 6: "mp_thread raw is mem1 (Some ?a) = (mem', fl')"
    using Cons.prems(6) by (simp add: mem1_def)
  note IH = Cons.IH[OF 1 2 3 4 5 6]
  have "objects mem ?a = None" using fresh by (simp add: objects_def load_def)
  then have "objects mem1 = objects mem" by (simp add: mem1_def fun_upd_idem)
  moreover have "dom mem1 = insert ?a (dom mem)" by (simp add: mem1_def)
  ultimately show ?case using IH by auto
qed

lemma mp_grow_ok:
  assumes "mp_inv p \<or> dom (mp_mem p) = {} \<and> mp_free_list p = None \<and> mp_capacity p = 0 \<and>
      0 < mp_slots_per_block p \<and> mp_live_count p = 0"
  shows "mp_inv (mp_grow p)" "mp_heap (mp_grow p) = mp_heap p" "mp_free_list (mp_grow p) \<noteq> None"
    "mp_live_count (mp_grow p) = mp_live_count p"
proof -
  obtain xs where xs: "free_chain (mp_mem p) (mp_free_list p) xs" "distinct xs"
    "set xs = free_slots (mp_mem p)"
  proof (cases "mp_inv p")
    case True
    then show thesis using that by (auto simp: mp_inv_def)
  next
    case False
    then have "free_slots (mp_mem p) = {}" "mp_free_list p = None"
      using assms by (auto simp: free_slots_def)
    then show thesis using that[of "[]"] by simp
  qed
  have dom: "dom (mp_mem p) = {..<mp_capacity p}" and pos: "0 < mp_slots_per_block p"
    using assms by (auto simp: mp_inv_def)
  have live: "mp_live_count p = of_nat (card (dom (mp_heap p)))"
    using assms by (auto simp: mp_inv_def mp_heap_def dom_objects)
  obtain mem fl where th: "mp_thread (mp_capacity p) [0..<mp_slots_per_block p] (mp_mem p)
      (mp_free_list p) = (mem, fl)" by fastforce
  have fresh: "mp_mem p (mp_capacity p + i) = None" for i
    using dom by (metis domIff lessThan_iff not_add_less1)
  have th': "(\<exists>ys. free_chain mem fl ys \<and> distinct ys \<and> set ys = free_slots mem) \<and>
      dom mem = dom (mp_mem p) \<union> ((+) (mp_capacity p)) ` set [0..<mp_slots_per_block p] \<and>
      objects mem = objects (mp_mem p) \<and>
      ([0..<mp_slots_per_block p] \<noteq> [] \<or> mp_free_list p \<noteq> None \<longrightarrow> fl \<noteq> None)"
    by (rule mp_thread_ok[OF xs _ _ th]) (auto simp: fresh)
  have grown: "mp_mem (mp_grow p) = mem" "mp_free_list (mp_grow p) = fl"
    "mp_capacity (mp_grow p) = mp_capacity p + mp_slots_per_block p"
    "mp_slots_per_block (mp_grow p) = mp_slots_per_block p * 2"
    "mp_live_count (mp_grow p) = mp_live_count p"
    using th by (simp_all add: mp_grow_def Let_def)
  have "((+) (mp_capacity p)) ` set [0..<mp_slots_per_block p] =
      {mp_capacity p..<mp_capacity p + mp_slots_per_block p}"
    using image_add_atLeastLessThan[of "mp_capacity p" 0 "mp_slots_per_block p"]
    by (simp only: set_upt) (simp add: add.commute)
  then have dom': "dom mem = {..<mp_capacity p + mp_slots_per_block p}"
    using th' dom by (simp only:) auto
  obtain ys where "free_chain mem fl ys" "distinct ys" "set ys = free_slots mem"
    using th' by blast
  moreover have "objects mem = objects (mp_mem p)" using th' by blast
  ultimately show "mp_inv (mp_grow p)"
    using dom' pos live by (intro mp_invI [of "mp_grow p" ys]) (simp_all add: grown mp_heap_def)
  show "mp_heap (mp_grow p) = mp_heap p" using th' by (simp add: mp_heap_def grown)
  show "mp_free_list (mp_grow p) \<noteq> None" using th' pos by (simp add: grown)
  show "mp_live_count (mp_grow p) = mp_live_count p" by (rule grown)
qed

lemma mp_new_ok:
  shows "mp_inv (mp_new n :: 'a mpool)" "mp_heap (mp_new n :: 'a mpool) = Map.empty"
    "mp_live_count (mp_new n :: 'a mpool) = 0"
proof -
  let ?p = "\<lparr>mp_mem = Map.empty, mp_blocks = [], mp_free_list = None,
    mp_slots_per_block = (if n = 0 then 1 else n), mp_capacity = 0, mp_live_count = 0\<rparr> :: 'a mpool"
  note grow = mp_grow_ok[of ?p]
  show "mp_inv (mp_new n :: 'a mpool)" using grow(1) by (simp add: mp_new_def)
  have "mp_heap ?p = Map.empty" by (auto simp: mp_heap_def objects_def load_def fun_eq_iff)
  then show "mp_heap (mp_new n :: 'a mpool) = Map.empty" using grow(2) by (simp add: mp_new_def)
  show "mp_live_count (mp_new n :: 'a mpool) = 0" using grow(4) by (simp add: mp_new_def)
qed

section \<open>Acquiring and releasing\<close>

lemma mp_acquire_ok:
  assumes inv: "mp_inv p0"
  shows "\<exists>a p'. mp_acquire x p0 = Some (Some a, p') \<and> mp_inv p' \<and> mp_heap p0 a = None \<and>
    mp_heap p' = (mp_heap p0)(a \<mapsto> x)"
proof -
  define p where "p = (if mp_free_list p0 = None then mp_grow p0 else p0)"
  have p: "mp_inv p" "mp_heap p = mp_heap p0" "mp_free_list p \<noteq> None"
    using inv mp_grow_ok[of p0] by (auto simp: p_def)
  then obtain fl where fl: "free_chain (mp_mem p) (mp_free_list p) fl" "distinct fl"
    "set fl = free_slots (mp_mem p)"
    by (auto simp: mp_inv_def)
  with p(3) obtain a as where as: "fl = a # as" "mp_free_list p = Some a"
    by (cases fl) auto
  with fl obtain n where n: "mp_mem p a = Some (FreeNode n)" "free_chain (mp_mem p) n as"
    by auto
  let ?p = "p\<lparr>mp_free_list := n, mp_live_count := mp_live_count p + 1,
    mp_mem := (mp_mem p)(a \<mapsto> Object x)\<rparr>"
  have acq: "mp_acquire x p0 = Some (Some a, ?p)"
    using as n by (simp add: mp_acquire_def p_def [symmetric] Let_def)
  have none: "mp_heap p a = None" using n by (simp add: mp_heap_def objects_def load_def)
  have heap: "mp_heap ?p = (mp_heap p)(a \<mapsto> x)" by (simp add: mp_heap_def)
  have free: "free_slots ((mp_mem p)(a \<mapsto> Object x)) = free_slots (mp_mem p) - {a}"
    by (auto simp: free_slots_def)
  have "free_chain ((mp_mem p)(a \<mapsto> Object x)) n as"
    using n(2) fl(2) as by simp
  moreover have "set as = free_slots (mp_mem p) - {a}" using fl as by auto
  moreover have "dom ((mp_mem p)(a \<mapsto> Object x)) = {..<mp_capacity p}"
    using p(1) n(1) by (auto simp: mp_inv_def)
  moreover have "mp_live_count ?p = of_nat (card (dom (mp_heap ?p)))"
    unfolding heap using p(1) none mp_heap_finite[OF p(1)]
    by (simp add: mp_inv_def domIff add.commute)
  ultimately have "mp_inv ?p"
    using p(1) fl(2) as(1) free by (intro mp_invI [of ?p as]) (simp_all add: mp_inv_def)
  then show ?thesis using acq none heap p(2) by auto
qed

lemma mp_release_ok:
  assumes inv: "mp_inv p" and live: "mp_heap p a \<noteq> None"
  shows "\<exists>p'. mp_release (Some a) p = Some p' \<and> mp_inv p' \<and> mp_heap p' = (mp_heap p)(a := None)"
proof -
  obtain x where x: "mp_mem p a = Some (Object x)"
    using live by (auto simp: mp_heap_def objects_eq_Some)
  obtain fl where fl: "free_chain (mp_mem p) (mp_free_list p) fl" "distinct fl"
    "set fl = free_slots (mp_mem p)"
    using inv by (auto simp: mp_inv_def)
  let ?mem = "(mp_mem p)(a \<mapsto> FreeNode (mp_free_list p))"
  let ?p = "p\<lparr>mp_mem := ?mem, mp_free_list := Some a, mp_live_count := mp_live_count p - 1\<rparr>"
  have rel: "mp_release (Some a) p = Some ?p"
    using live by (auto simp: mp_release_def mp_heap_def)
  have heap: "mp_heap ?p = (mp_heap p)(a := None)" by (simp add: mp_heap_def)
  have out: "a \<notin> set fl" using fl(3) x by (simp add: free_slots_def)
  have "free_chain ?mem (Some a) (a # fl)" "distinct (a # fl)"
    using fl out by auto
  moreover have "set (a # fl) = free_slots ?mem"
    using fl(3) by (auto simp: free_slots_def)
  moreover have "dom ?mem = {..<mp_capacity p}" using inv x by (auto simp: mp_inv_def)
  moreover have "mp_live_count ?p = of_nat (card (dom (mp_heap ?p)))"
  proof -
    have "a \<in> dom (mp_heap p)" using live by auto
    then have "card (dom (mp_heap p)) = Suc (card (dom (mp_heap p) - {a}))"
      using mp_heap_finite[OF inv] by (metis card.remove)
    then show ?thesis unfolding heap using inv by (simp add: mp_inv_def)
  qed
  ultimately have "mp_inv ?p"
    using inv by (intro mp_invI [of ?p "a # fl"]) (simp_all add: mp_inv_def)
  then show ?thesis using rel heap by auto
qed

interpretation mp: object_pool mp_acquire mp_release mp_live_count mp_heap mp_inv
proof unfold_locales
  fix p :: "'a mpool" and x a
  assume inv: "mp_inv p"
  show "\<exists>a p'. mp_acquire x p = Some (Some a, p') \<and> mp_inv p' \<and> mp_heap p a = None \<and>
      mp_heap p' = (mp_heap p)(a \<mapsto> x)"
    by (rule mp_acquire_ok[OF inv])
  show "mp_heap p a \<noteq> None \<Longrightarrow>
      \<exists>p'. mp_release (Some a) p = Some p' \<and> mp_inv p' \<and> mp_heap p' = (mp_heap p)(a := None)"
    by (rule mp_release_ok[OF inv])
  show "mp_live_count p = of_nat (card (dom (mp_heap p)))" using inv by (simp add: mp_inv_def)
  show "finite (dom (mp_heap p))" by (rule mp_heap_finite[OF inv])
qed (simp add: mp_release_def)

section \<open>Growth\<close>

lemma mp_free_slots_left:
  assumes "mp_inv p" "card (dom (mp_heap p)) < mp_capacity p"
  shows "mp_free_list p \<noteq> None"
proof
  assume none: "mp_free_list p = None"
  obtain fl where fl: "free_chain (mp_mem p) (mp_free_list p) fl" "distinct fl"
    "set fl = free_slots (mp_mem p)"
    using assms(1) by (auto simp: mp_inv_def)
  have "fl = []" using fl(1) none by (cases fl) simp_all
  then show False using mp_inv_partition[OF assms(1) fl] assms(2) by simp
qed

lemma mp_acquire_no_growth:
  assumes "mp_free_list p \<noteq> None" "mp_acquire x p = Some (a, p')"
  shows "mp_blocks p' = mp_blocks p" "mp_capacity p' = mp_capacity p"
proof -
  obtain y where y: "mp_free_list p = Some y" using assms(1) by auto
  obtain sl where sl: "mp_mem p y = Some sl"
    using assms(2) y by (auto simp: mp_acquire_def Let_def bind_eq_Some_conv)
  show "mp_blocks p' = mp_blocks p" "mp_capacity p' = mp_capacity p"
    using assms(2) y sl by (cases sl; auto simp: mp_acquire_def Let_def)+
qed

lemma mp_release_no_growth:
  assumes "mp_release a p = Some p'"
  shows "mp_blocks p' = mp_blocks p" "mp_capacity p' = mp_capacity p"
  using assms by (auto simp: mp_release_def bind_eq_Some_conv split: option.splits)

text \<open>The most objects that a client ever holds at once.\<close>

fun peak :: "'a pool_op list \<Rightarrow> 'a list \<Rightarrow> nat" where
  "peak [] xs = length xs"
| "peak (Op_acquire x # ops) xs = peak ops (xs @ [x])"
| "peak (Op_release i # ops) xs = max (length xs) (peak ops (drop_at i xs))"

lemma peak_length: "length xs \<le> peak ops xs"
proof (induction ops arbitrary: xs)
  case (Cons op ops)
  show ?case
  proof (cases op)
    case (Op_acquire x)
    then show ?thesis using Cons.IH[of "xs @ [x]"] by simp
  qed simp
qed simp

lemma holds_card: "holds h held xs \<Longrightarrow> card (dom h) = length xs"
  by (metis card_image distinct_card holds_def inj_Some)

lemma pool_run_no_growth:
  assumes "mp_inv p" "holds (mp_heap p) held xs" "peak ops xs \<le> mp_capacity p"
    and "pool_run mp_acquire mp_release ops held p = Some (held', p')"
  shows "mp_blocks p' = mp_blocks p \<and> mp_capacity p' = mp_capacity p"
  using assms
proof (induction ops arbitrary: p held xs)
  case (Cons op ops)
  note IH = Cons.IH and prems = Cons.prems
  show ?case
  proof (cases op)
    case (Op_acquire x)
    obtain a p1 where a: "mp_acquire x p = Some (Some a, p1)" "mp_inv p1" "mp_heap p a = None"
      "mp_heap p1 = (mp_heap p)(a \<mapsto> x)"
      by (rule mp.acquireE[OF prems(1)])
    have "length xs < peak (op # ops) xs" using peak_length[of "xs @ [x]" ops] Op_acquire by simp
    then have "mp_free_list p \<noteq> None"
      using mp_free_slots_left[OF prems(1)] holds_card[OF prems(2)] prems(3) by simp
    note same = mp_acquire_no_growth[OF this a(1)]
    have "holds (mp_heap p1) (held @ [Some a]) (xs @ [x])"
      unfolding a(4) by (rule holds_acquire[OF prems(2) a(3)])
    from IH[OF a(2) this] show ?thesis using prems(3,4) a(1) Op_acquire same by simp
  next
    case (Op_release i)
    have len: "length held = length xs" using prems(2) by (simp add: holds_def)
    show ?thesis
    proof (cases "i < length xs")
      case False
      then show ?thesis using IH[OF prems(1,2)] prems(3,4) Op_release len by simp
    next
      case True
      obtain a where a: "held ! i = Some a" "mp_heap p a = Some (xs ! i)"
        using prems(2) True unfolding holds_def by blast
      obtain p1 where p1: "mp_release (Some a) p = Some p1" "mp_inv p1" "mp_heap p1 = (mp_heap p)(a := None)"
        by (rule mp.releaseE[OF prems(1) a(2)])
      note same = mp_release_no_growth[OF p1(1)]
      have "holds (mp_heap p1) (drop_at i held) (drop_at i xs)"
        unfolding p1(3) by (rule holds_release[OF prems(2) True a(1)])
      from IH[OF p1(2) this] show ?thesis
        using prems(3,4) p1(1) a(1) Op_release True len same by simp
    qed
  qed
qed simp

lemma mp_new_layout:
  "mp_capacity (mp_new n :: 'a mpool) = max 1 n" "mp_block_count (mp_new n :: 'a mpool) = 1"
  by (auto simp: mp_new_def mp_grow_def mp_block_count_def Let_def split: prod.splits)

text \<open>
  Any sequence of acquisitions and releases on a new pool, the released ones chosen freely among those
  held, keeps its objects unchanged at distinct addresses, and adds no block as long as the client
  never holds more than the initial capacity.
\<close>

lemma pool_session_unbounded:
  assumes run: "pool_run mp_acquire mp_release ops [] (mp_new n) = Some (held, p)"
  shows "holds (mp_heap p) held (held_values ops [])"
    and "mp_live_count p = of_nat (length (held_values ops []))"
    and "mp_block_count p = 1 \<or> max 1 n < peak ops []"
proof -
  let ?p0 = "mp_new n :: 'a mpool"
  have h0: "holds (mp_heap ?p0) [] []" by (simp add: holds_def mp_new_ok)
  have r: "mp_inv p" "holds (mp_heap p) held (held_values ops [])"
    using mp.run_holds[OF mp_new_ok(1) h0, of ops] run by auto
  show "holds (mp_heap p) held (held_values ops [])" by (rule r(2))
  show "mp_live_count p = of_nat (length (held_values ops []))"
    using mp.live_heap[OF r(1)] holds_card[OF r(2)] by simp
  have "mp_block_count p = 1" if "peak ops ([] :: 'a list) \<le> max 1 n"
    using pool_run_no_growth[OF mp_new_ok(1) h0 _ run] that mp_new_layout[of n, where ?'a = 'a]
    by (simp add: mp_block_count_def)
  then show "mp_block_count p = 1 \<or> max 1 n < peak ops []" by (metis not_le)
qed

end
