(* ===== verification/PoolWidth.thy ===== *)
theory PoolWidth
  imports MemoryPool
begin

text \<open>
  The pool of \<open>include/obe/MemoryPool.hpp\<close> with its sizes at the width of \<open>size_t\<close>.  \<open>grow\<close> asks for
  \<open>n * kSlotSize\<close> bytes, a product that wraps, and doubles \<open>n\<close>, which wraps too; when the request is
  too small for its slots, threading them writes past the block.  \<open>MemoryPool\<close> has the same pool with
  sizes that do not wrap, and the two agree as long as the bytes in question can be counted.
\<close>

section \<open>The pool\<close>

text \<open>
  \<open>kSlotSize\<close> depends on the object type and is an argument.  The ghost field \<open>pw_next\<close> is the address
  of the next block.
\<close>

record 'a wide_pool =
  pw_mem :: "'a memory"
  pw_blocks :: "addr list"
  pw_free_list :: ptr
  pw_slots_per_block :: "64 word"
  pw_capacity :: "64 word"
  pw_live_count :: "64 word"
  pw_next :: addr

text \<open>The loop of \<open>grow\<close> over a block that has room for \<open>room\<close> slots.\<close>

fun pw_thread :: "addr \<Rightarrow> nat \<Rightarrow> nat list \<Rightarrow> 'a memory \<Rightarrow> ptr \<Rightarrow> ('a memory \<times> ptr) option" where
  "pw_thread raw room [] mem fl = Some (mem, fl)"
| "pw_thread raw room (i # is) mem fl =
     (if i < room then pw_thread raw room is (mem(raw + i \<mapsto> FreeNode fl)) (Some (raw + i)) else None)"

definition pw_grow :: "64 word \<Rightarrow> 'a wide_pool \<Rightarrow> 'a wide_pool option" where
  "pw_grow slot_size p =
     (let n = pw_slots_per_block p;
          bytes = n * slot_size;
          room = unat bytes div unat slot_size;
          raw = pw_next p
      in do {
        (mem, fl) \<leftarrow> pw_thread raw room [0..<unat n] (pw_mem p) (pw_free_list p);
        Some (p\<lparr>pw_mem := mem, pw_blocks := pw_blocks p @ [raw], pw_free_list := fl,
                pw_slots_per_block := n * 2, pw_capacity := pw_capacity p + n, pw_next := raw + room\<rparr>)
      })"

definition pw_new :: "64 word \<Rightarrow> 64 word \<Rightarrow> 'a wide_pool option" where
  "pw_new slot_size initial_capacity =
     pw_grow slot_size \<lparr>pw_mem = Map.empty, pw_blocks = [], pw_free_list = None,
       pw_slots_per_block = (if initial_capacity = 0 then 1 else initial_capacity),
       pw_capacity = 0, pw_live_count = 0, pw_next = 0\<rparr>"

definition pw_acquire :: "64 word \<Rightarrow> 'a \<Rightarrow> 'a wide_pool \<Rightarrow> (ptr \<times> 'a wide_pool) option" where
  "pw_acquire slot_size x p0 =
     do {
       p \<leftarrow> (if pw_free_list p0 = None then pw_grow slot_size p0 else Some p0);
       node \<leftarrow> pw_free_list p;
       s \<leftarrow> pw_mem p node;
       (case s of
          Object _ \<Rightarrow> None
        | FreeNode nxt \<Rightarrow>
            Some (Some node,
              p\<lparr>pw_free_list := nxt, pw_live_count := pw_live_count p + 1,
                pw_mem := (pw_mem p)(node \<mapsto> Object x)\<rparr>))
     }"

definition pw_release :: "ptr \<Rightarrow> 'a wide_pool \<Rightarrow> 'a wide_pool option" where
  "pw_release obj p =
     (case obj of
        None \<Rightarrow> Some p
      | Some a \<Rightarrow>
          do {
            _ \<leftarrow> load (pw_mem p) obj;
            Some (p\<lparr>pw_mem := (pw_mem p)(a \<mapsto> FreeNode (pw_free_list p)), pw_free_list := obj,
              pw_live_count := pw_live_count p - 1\<rparr>)
          })"

section \<open>The pool without a width\<close>

definition unbounded :: "'a wide_pool \<Rightarrow> 'a mpool" where
  "unbounded p =
     \<lparr>mp_mem = pw_mem p, mp_blocks = pw_blocks p, mp_free_list = pw_free_list p,
      mp_slots_per_block = unat (pw_slots_per_block p), mp_capacity = unat (pw_capacity p),
      mp_live_count = pw_live_count p\<rparr>"

lemma unbounded_simps [simp]:
  "mp_mem (unbounded p) = pw_mem p" "mp_blocks (unbounded p) = pw_blocks p"
  "mp_free_list (unbounded p) = pw_free_list p" "mp_capacity (unbounded p) = unat (pw_capacity p)"
  "mp_slots_per_block (unbounded p) = unat (pw_slots_per_block p)"
  "mp_live_count (unbounded p) = pw_live_count p"
  by (simp_all add: unbounded_def)

lemma pw_thread_fits:
  "\<forall>i \<in> set is. i < room \<Longrightarrow> pw_thread raw room is mem fl = Some (mp_thread raw is mem fl)"
  by (induction "is" arbitrary: mem fl) simp_all

lemma pw_thread_beyond: "room < k \<Longrightarrow> i \<le> room \<Longrightarrow> pw_thread raw room [i..<k] mem fl = None"
proof (induction "k - i" arbitrary: i mem fl)
  case (Suc n)
  then have "[i..<k] = i # [Suc i..<k]" by (simp add: upt_conv_Cons)
  then show ?case using Suc by (cases "i = room") simp_all
qed simp

text \<open>A block whose bytes can be counted has room for its slots, and no other block has.\<close>

lemma room_exact:
  assumes "unat n * unat slot < 2 ^ 64" "slot \<noteq> 0"
  shows "unat (n * slot) div unat slot = unat (n :: 64 word)"
proof -
  have "unat (n * slot) = unat n * unat slot"
    using assms(1) by (subst unat_mult_lem [THEN iffD1]) auto
  then show ?thesis using assms(2) by (simp add: unat_eq_zero)
qed

lemma room_short:
  assumes "2 ^ 64 \<le> unat n * unat slot"
  shows "unat (n * slot) div unat slot < unat (n :: 64 word)"
proof -
  have "unat (n * slot) < unat n * unat slot"
    using assms unsigned_less[of "n * slot", where ?'a = nat] by simp
  then show ?thesis by (simp add: less_mult_imp_div_less)
qed

lemma pw_grow_short: "2 ^ 64 \<le> unat (pw_slots_per_block p) * unat slot \<Longrightarrow> pw_grow slot p = None"
  by (simp add: pw_grow_def Let_def pw_thread_beyond[OF room_short])

lemma pw_grow_fits:
  assumes bytes: "unat (pw_slots_per_block p) * unat slot < 2 ^ 64" "2 \<le> unat slot"
    and cap: "unat (pw_capacity p) + unat (pw_slots_per_block p) < 2 ^ 64"
    and nxt: "pw_next p = unat (pw_capacity p)"
  obtains p' where "pw_grow slot p = Some p'" "unbounded p' = mp_grow (unbounded p)"
    "pw_next p' = unat (pw_capacity p')"
proof -
  let ?n = "pw_slots_per_block p"
  have "slot \<noteq> 0" using bytes(2) by auto
  then have room: "unat (?n * slot) div unat slot = unat ?n" using room_exact bytes(1) by blast
  obtain mem fl where th: "mp_thread (unat (pw_capacity p)) [0..<unat ?n] (pw_mem p) (pw_free_list p) =
      (mem, fl)" by fastforce
  let ?p = "p\<lparr>pw_mem := mem, pw_blocks := pw_blocks p @ [pw_next p], pw_free_list := fl,
    pw_slots_per_block := ?n * 2, pw_capacity := pw_capacity p + ?n, pw_next := pw_next p + unat ?n\<rparr>"
  have "unat ?n * 2 \<le> unat ?n * unat slot" using bytes(2) by simp
  then have "unat ?n * 2 < 2 ^ 64" using bytes(1) by linarith
  then have dbl: "unat (?n * 2) = unat ?n * 2" by (subst unat_mult_lem [THEN iffD1]) simp_all
  have sum: "unat (pw_capacity p + ?n) = unat (pw_capacity p) + unat ?n"
    using cap by (subst unat_add_lem [THEN iffD1]) simp_all
  have "pw_grow slot p = Some ?p"
    using th by (simp add: pw_grow_def Let_def room nxt pw_thread_fits)
  moreover have "unbounded ?p = mp_grow (unbounded p)"
    using th dbl sum nxt by (simp add: unbounded_def mp_grow_def Let_def)
  ultimately show thesis using that sum nxt by simp
qed

text \<open>
  The invariant of a pool of initial capacity \<open>c\<close>: it is well-formed, its sizes have not wrapped, and
  the next block is as large as everything before it together, and \<open>c\<close> more.
\<close>

definition pw_inv :: "nat \<Rightarrow> 'a wide_pool \<Rightarrow> bool" where
  "pw_inv c p \<longleftrightarrow>
     mp_inv (unbounded p) \<and> pw_next p = unat (pw_capacity p) \<and>
     unat (pw_slots_per_block p) = unat (pw_capacity p) + c"

text \<open>A pool that grows is full, so the request is for at most one slot more for each object.\<close>

lemma pw_full:
  assumes "mp_inv p" "mp_free_list p = None"
  shows "mp_capacity p = card (dom (mp_heap p))"
proof -
  obtain fl where fl: "free_chain (mp_mem p) (mp_free_list p) fl" "distinct fl" "set fl = free_slots (mp_mem p)"
    using assms(1) by (auto simp: mp_inv_def)
  have "fl = []" using fl(1) assms(2) by (cases fl) simp_all
  then show ?thesis using mp_inv_partition[OF assms(1) fl] by simp
qed

lemma pw_grow_inv:
  assumes inv: "pw_inv c p" and full: "pw_free_list p = None" and slot: "2 \<le> unat slot"
    and fits: "(c + card (dom (mp_heap (unbounded p)))) * unat slot < 2 ^ 64"
  obtains p' where "pw_grow slot p = Some p'" "unbounded p' = mp_grow (unbounded p)"
    "pw_next p' = unat (pw_capacity p')" "unat (pw_slots_per_block p') = unat (pw_capacity p') + c"
proof -
  let ?k = "card (dom (mp_heap (unbounded p)))"
  have k: "unat (pw_capacity p) = ?k" using pw_full[of "unbounded p"] inv full by (simp add: pw_inv_def)
  have n: "unat (pw_slots_per_block p) = ?k + c" using inv k by (simp add: pw_inv_def)
  have bytes: "unat (pw_slots_per_block p) * unat slot < 2 ^ 64" using fits n by (simp add: add.commute)
  have "(c + ?k) * 2 \<le> (c + ?k) * unat slot" using slot by (intro mult_le_mono2)
  then have small: "(c + ?k) * 2 < 2 ^ 64" using fits by linarith
  then have cap: "unat (pw_capacity p) + unat (pw_slots_per_block p) < 2 ^ 64" using k n by simp
  obtain p' where p': "pw_grow slot p = Some p'" "unbounded p' = mp_grow (unbounded p)"
    "pw_next p' = unat (pw_capacity p')"
    by (rule pw_grow_fits[OF bytes slot cap]) (use inv in \<open>simp_all add: pw_inv_def\<close>)
  have "mp_slots_per_block (unbounded p') = unat (pw_slots_per_block p) * 2"
    "mp_capacity (unbounded p') = unat (pw_capacity p) + unat (pw_slots_per_block p)"
    by (simp_all add: p'(2) mp_grow_def Let_def split_def)
  then have "unat (pw_slots_per_block p') = unat (pw_capacity p') + c" using n k by simp
  then show thesis using that p' by blast
qed

lemma pw_new_ok:
  assumes slot: "2 \<le> unat slot" and fits: "max 1 (unat cap) * unat slot < 2 ^ 64"
  obtains p where "pw_new slot cap = Some p" "pw_inv (max 1 (unat cap)) p" "unbounded p = mp_new (unat cap)"
proof -
  let ?n = "if cap = 0 then 1 else cap"
  let ?p = "\<lparr>pw_mem = Map.empty, pw_blocks = [], pw_free_list = None, pw_slots_per_block = ?n,
    pw_capacity = 0, pw_live_count = 0, pw_next = 0\<rparr> :: 'a wide_pool"
  have n: "unat ?n = max 1 (unat cap)" by (simp add: max_def unat_eq_zero Suc_le_eq unat_gt_0)
  have bytes: "unat (pw_slots_per_block ?p) * unat slot < 2 ^ 64" using fits n by simp
  have cap: "unat (pw_capacity ?p) + unat (pw_slots_per_block ?p) < 2 ^ 64"
    using unsigned_less[of ?n, where ?'a = nat] by simp
  obtain p where p: "pw_grow slot ?p = Some p" "unbounded p = mp_grow (unbounded ?p)"
    "pw_next p = unat (pw_capacity p)"
    by (rule pw_grow_fits[OF bytes slot cap]) simp_all
  have new: "unbounded p = mp_new (unat cap)"
    unfolding p(2) mp_new_def by (intro arg_cong[of _ _ mp_grow]) (simp add: unbounded_def unat_eq_zero)
  have "mp_slots_per_block (unbounded p) = unat ?n * 2" "mp_capacity (unbounded p) = unat ?n"
    by (simp_all add: p(2) mp_grow_def Let_def split_def)
  then have "unat (pw_slots_per_block p) = unat ?n * 2" "unat (pw_capacity p) = unat ?n" by simp_all
  then have "unat (pw_slots_per_block p) = unat (pw_capacity p) + max 1 (unat cap)" using n by simp
  moreover have "mp_inv (unbounded p)" unfolding new by (rule mp_new_ok)
  ultimately have "pw_inv (max 1 (unat cap)) p" using p(3) by (simp add: pw_inv_def)
  then show thesis using that p(1) new by (simp add: pw_new_def)
qed

lemma pw_acquire_ok:
  assumes inv: "pw_inv c p" and slot: "2 \<le> unat slot"
    and fits: "(c + card (dom (mp_heap (unbounded p)))) * unat slot < 2 ^ 64"
    and a: "mp_acquire x (unbounded p) = Some (Some a, q)" "mp_inv q"
  obtains p' where "pw_acquire slot x p = Some (Some a, p')" "unbounded p' = q" "pw_inv c p'"
proof -
  obtain p1 where p1: "(if pw_free_list p = None then pw_grow slot p else Some p) = Some p1"
    "unbounded p1 = (if pw_free_list p = None then mp_grow (unbounded p) else unbounded p)"
    "pw_next p1 = unat (pw_capacity p1)" "unat (pw_slots_per_block p1) = unat (pw_capacity p1) + c"
  proof (cases "pw_free_list p = None")
    case True
    then show thesis using that pw_grow_inv[OF inv True slot fits] by auto
  next
    case False
    then show thesis by (intro that[of p]) (use inv in \<open>auto simp: pw_inv_def\<close>)
  qed
  have acq: "mp_acquire x (unbounded p) =
      do {
        node \<leftarrow> pw_free_list p1;
        s \<leftarrow> pw_mem p1 node;
        (case s of
           Object _ \<Rightarrow> None
         | FreeNode nxt \<Rightarrow>
             Some (Some node, (unbounded p1)\<lparr>mp_free_list := nxt, mp_live_count := pw_live_count p1 + 1,
               mp_mem := (pw_mem p1)(node \<mapsto> Object x)\<rparr>))
      }"
    using p1(2)[symmetric] by (simp add: mp_acquire_def Let_def)
  then obtain nxt where n: "pw_free_list p1 = Some a" "pw_mem p1 a = Some (FreeNode nxt)"
    "q = (unbounded p1)\<lparr>mp_free_list := nxt, mp_live_count := pw_live_count p1 + 1,
       mp_mem := (pw_mem p1)(a \<mapsto> Object x)\<rparr>"
  proof -
    obtain node sl where "pw_free_list p1 = Some node" "pw_mem p1 node = Some sl"
      "(case sl of Object _ \<Rightarrow> None
        | FreeNode nxt \<Rightarrow> Some (Some node, (unbounded p1)\<lparr>mp_free_list := nxt,
            mp_live_count := pw_live_count p1 + 1, mp_mem := (pw_mem p1)(node \<mapsto> Object x)\<rparr>)) = Some (Some a, q)"
      using a(1) unfolding acq bind_eq_Some_conv by blast
    then show thesis using that by (cases sl) auto
  qed
  let ?p = "p1\<lparr>pw_free_list := nxt, pw_live_count := pw_live_count p1 + 1,
    pw_mem := (pw_mem p1)(a \<mapsto> Object x)\<rparr>"
  have q: "unbounded ?p = q" by (simp add: n(3) unbounded_def)
  have "pw_acquire slot x p = Some (Some a, ?p)"
    using p1(1) n(1,2) by (simp add: pw_acquire_def)
  moreover have "pw_inv c ?p" using a(2) q p1(3,4) by (simp add: pw_inv_def)
  ultimately show thesis using that q by blast
qed

lemma pw_release_ok:
  assumes inv: "pw_inv c p" and r: "mp_release (Some a) (unbounded p) = Some q" "mp_inv q"
  obtains p' where "pw_release (Some a) p = Some p'" "unbounded p' = q" "pw_inv c p'"
proof -
  let ?p = "p\<lparr>pw_mem := (pw_mem p)(a \<mapsto> FreeNode (pw_free_list p)), pw_free_list := Some a,
    pw_live_count := pw_live_count p - 1\<rparr>"
  have q: "pw_release (Some a) p = Some ?p" "unbounded ?p = q"
    using r(1) by (auto simp: mp_release_def pw_release_def bind_eq_Some_conv unbounded_def)
  then show thesis using that inv r(2) by (simp add: pw_inv_def)
qed

text \<open>Sessions of the two pools agree.\<close>

lemma pw_run_agrees:
  assumes "pw_inv c p" "2 \<le> unat slot" "holds (mp_heap (unbounded p)) held xs"
    and "(c + peak ops xs) * unat slot < 2 ^ 64"
  shows "\<exists>held' p'. pool_run (pw_acquire slot) pw_release ops held p = Some (held', p') \<and>
    pool_run mp_acquire mp_release ops held (unbounded p) = Some (held', unbounded p')"
  using assms
proof (induction ops arbitrary: p held xs)
  case (Cons op ops)
  note IH = Cons.IH and prems = Cons.prems
  have inv: "mp_inv (unbounded p)" using prems(1) by (simp add: pw_inv_def)
  show ?case
  proof (cases op)
    case (Op_acquire x)
    obtain a q where a: "mp_acquire x (unbounded p) = Some (Some a, q)" "mp_inv q"
      "mp_heap (unbounded p) a = None" "mp_heap q = (mp_heap (unbounded p))(a \<mapsto> x)"
      by (rule mp.acquireE[OF inv])
    have "length xs \<le> peak (op # ops) xs" by (rule peak_length)
    then have "(c + length xs) * unat slot \<le> (c + peak (op # ops) xs) * unat slot"
      by (intro mult_le_mono1) simp
    then have "(c + card (dom (mp_heap (unbounded p)))) * unat slot < 2 ^ 64"
      unfolding holds_card[OF prems(3)] using prems(4) by (rule le_less_trans)
    then obtain p1 where p1: "pw_acquire slot x p = Some (Some a, p1)" "unbounded p1 = q" "pw_inv c p1"
      by (rule pw_acquire_ok[OF prems(1,2) _ a(1,2)])
    have "holds (mp_heap (unbounded p1)) (held @ [Some a]) (xs @ [x])"
      unfolding p1(2) a(4) by (rule holds_acquire[OF prems(3) a(3)])
    from IH[OF p1(3) prems(2) this] show ?thesis using prems(4) p1(1,2) a(1) Op_acquire by simp
  next
    case (Op_release i)
    have len: "length held = length xs" using prems(3) by (simp add: holds_def)
    have small: "(c + peak ops (drop_at i xs)) * unat slot < 2 ^ 64"
    proof -
      have "(c + peak ops (drop_at i xs)) * unat slot \<le> (c + peak (op # ops) xs) * unat slot"
        using Op_release by (intro mult_le_mono1) simp
      then show ?thesis using prems(4) by linarith
    qed
    show ?thesis
    proof (cases "i < length xs")
      case False
      then show ?thesis using IH[OF prems(1-3)] small Op_release len by simp
    next
      case True
      obtain a where a: "held ! i = Some a" "mp_heap (unbounded p) a = Some (xs ! i)"
        using prems(3) True unfolding holds_def by blast
      obtain q where q: "mp_release (Some a) (unbounded p) = Some q" "mp_inv q"
        "mp_heap q = (mp_heap (unbounded p))(a := None)"
        by (rule mp.releaseE[OF inv a(2)])
      obtain p1 where p1: "pw_release (Some a) p = Some p1" "unbounded p1 = q" "pw_inv c p1"
        by (rule pw_release_ok[OF prems(1) q(1,2)])
      have "holds (mp_heap (unbounded p1)) (drop_at i held) (drop_at i xs)"
        unfolding p1(2) q(3) by (rule holds_release[OF prems(3) True a(1)])
      from IH[OF p1(3) prems(2) this small] show ?thesis
        using p1(1,2) q(1) a(1) Op_release True len by simp
    qed
  qed
qed simp

section \<open>Properties\<close>

text \<open>
  C19: The pool is an allocator: as long as the bytes for the initial capacity and for the most objects
  ever held together can be counted in 64 bits, any sequence of acquisitions and releases on a new pool,
  the released ones chosen freely among those held, runs without undefined behaviour; the addresses
  held are distinct, every object is found unchanged at its address, the live count is their number,
  and no block is added as long as the client never holds more than the initial capacity.  When the
  initial capacity alone needs more bytes, the constructor writes past the block it gets.
\<close>

theorem pool_session:
  fixes ops :: "'a pool_op list"
  assumes "2 \<le> unat slot_size"
  shows "((max 1 (unat cap) + peak ops []) * unat slot_size < 2 ^ 64 \<longrightarrow>
     (\<exists>p0 held p. pw_new slot_size cap = Some p0 \<and>
       pool_run (pw_acquire slot_size) pw_release ops [] p0 = Some (held, p) \<and>
       holds (objects (pw_mem p)) held (held_values ops []) \<and>
       pw_live_count p = of_nat (length (held_values ops [])) \<and>
       (length (pw_blocks p) = 1 \<or> max 1 (unat cap) < peak ops []))) \<and>
    (2 ^ 64 \<le> unat cap * unat slot_size \<longrightarrow> (pw_new slot_size cap :: 'a wide_pool option) = None)"
proof (intro conjI impI)
  assume fits: "(max 1 (unat cap) + peak ops []) * unat slot_size < 2 ^ 64"
  have "max 1 (unat cap) * unat slot_size \<le> (max 1 (unat cap) + peak ops []) * unat slot_size"
    by (intro mult_le_mono1) simp
  then have "max 1 (unat cap) * unat slot_size < 2 ^ 64" using fits by linarith
  then obtain p0 :: "'a wide_pool" where p0: "pw_new slot_size cap = Some p0"
    "pw_inv (max 1 (unat cap)) p0" "unbounded p0 = mp_new (unat cap)"
    by (rule pw_new_ok[OF assms])
  have h0: "holds (mp_heap (unbounded p0)) [] []" by (simp add: p0(3) holds_def mp_new_ok)
  obtain held p where r: "pool_run (pw_acquire slot_size) pw_release ops [] p0 = Some (held, p)"
    "pool_run mp_acquire mp_release ops [] (mp_new (unat cap)) = Some (held, unbounded p)"
    using pw_run_agrees[OF p0(2) assms h0 fits] p0(3) by auto
  show "\<exists>p0 held p. pw_new slot_size cap = Some p0 \<and>
       pool_run (pw_acquire slot_size) pw_release ops [] p0 = Some (held, p) \<and>
       holds (objects (pw_mem p)) held (held_values ops []) \<and>
       pw_live_count p = of_nat (length (held_values ops [])) \<and>
       (length (pw_blocks p) = 1 \<or> max 1 (unat cap) < peak ops [])"
    using p0(1) r(1) pool_session_unbounded[OF r(2)]
    by (auto simp: mp_heap_def mp_block_count_def)
next
  assume "2 ^ 64 \<le> unat cap * unat slot_size"
  moreover from this have "cap \<noteq> 0" by auto
  ultimately show "pw_new slot_size cap = None" by (simp add: pw_new_def pw_grow_short)
qed

theorem pool_session_witness:
  "\<exists>p0 held p. pw_new 72 1 = Some p0 \<and>
     pool_run (pw_acquire 72) pw_release [Op_acquire ''a'', Op_acquire ''b'', Op_release 0] [] p0 = Some (held, p) \<and>
     holds (objects (pw_mem p)) held [''b''] \<and> (pw_new 72 (push_bit 61 1) :: string wide_pool option) = None"
proof -
  have slot: "2 \<le> unat (72 :: 64 word)" by simp
  let ?ops = "[Op_acquire ''a'', Op_acquire ''b'', Op_release 0]"
  have "unat (push_bit 61 1 :: 64 word) = 2 ^ 61" by (simp add: push_bit_eq_mult)
  then have big: "2 ^ 64 \<le> unat (push_bit 61 1 :: 64 word) * unat (72 :: 64 word)" by simp
  have "held_values ?ops [] = [''b'']" "(max 1 (unat (1 :: 64 word)) + peak ?ops []) * unat (72 :: 64 word) < 2 ^ 64"
    by (simp_all add: drop_at_def)
  then obtain p0 held p where "pw_new 72 1 = Some p0"
    "pool_run (pw_acquire 72) pw_release ?ops [] p0 = Some (held, p)" "holds (objects (pw_mem p)) held [''b'']"
    using pool_session[OF slot, of 1 ?ops] by auto
  moreover have "(pw_new 72 (push_bit 61 1) :: string wide_pool option) = None"
    using pool_session[OF slot, of "push_bit 61 1" "[] :: string pool_op list"] big by blast
  ultimately show ?thesis by blast
qed

end
