(* ===== verification/PriceLevel.thy ===== *)
theory PriceLevel
  imports MemoryPool
begin

text \<open>
  The price level of \<open>include/obe/PriceLevel.hpp\<close>: a first-in first-out queue of orders,
  threaded through the \<open>prev_\<close> and \<open>next_\<close> pointers of the orders in the pool's memory, with
  its two aggregates.  \<open>level_rep\<close> relates a level and the memory to the list of the addresses
  that are queued; every operation is shown to act on that list as it should.
\<close>

section \<open>Orders as list nodes\<close>

text \<open>
  A \<open>PriceLevel*\<close> is named by the map that holds the level and its price: levels live in
  the nodes of the two maps of the book and never move.
\<close>

datatype book_side = Bids | Asks

type_synonym level_ref = "book_side \<times> price"

record order = order_data +
  o_prev :: ptr
  o_next :: ptr
  o_level :: "level_ref option"

definition order_new ::
    "order_id \<Rightarrow> trader_id \<Rightarrow> side \<Rightarrow> price \<Rightarrow> quantity \<Rightarrow> order" where
  "order_new oid trader sd price qty =
     \<lparr>o_id = oid, o_trader = trader, o_side = sd, o_price = price, o_quantity = qty,
      o_remaining = qty, o_sequence = 0, o_prev = None, o_next = None, o_level = None\<rparr>"

text \<open>What an order is apart from its linkage.\<close>

abbreviation order_view :: "order \<Rightarrow> order_data" where
  "order_view \<equiv> order_data.truncate"

section \<open>The level and its operations\<close>

record level =
  lv_price :: price
  lv_head :: ptr
  lv_tail :: ptr
  lv_count :: "64 word"
  lv_total :: quantity

definition level_new :: "price \<Rightarrow> level" where
  "level_new price =
     \<lparr>lv_price = price, lv_head = None, lv_tail = None, lv_count = 0, lv_total = 0\<rparr>"

definition level_empty :: "level \<Rightarrow> bool" where
  "level_empty lv \<longleftrightarrow> lv_head lv = None"

definition level_front :: "level \<Rightarrow> ptr" where
  "level_front lv = lv_head lv"

text \<open>\<open>self\<close> is the address of the level (\<open>this\<close>).\<close>

definition level_enqueue ::
    "level_ref \<Rightarrow> ptr \<Rightarrow> level \<Rightarrow> order memory \<Rightarrow> (level \<times> order memory) option" where
  "level_enqueue self p lv mem =
     do {
       ord \<leftarrow> load mem p;
       mem1 \<leftarrow> poke mem p (ord\<lparr>o_level := Some self, o_prev := lv_tail lv, o_next := None\<rparr>);
       (lv2, mem2) \<leftarrow>
         (if lv_tail lv \<noteq> None then
            do {
              t \<leftarrow> load mem1 (lv_tail lv);
              m \<leftarrow> poke mem1 (lv_tail lv) (t\<lparr>o_next := p\<rparr>);
              Some (lv, m)
            }
          else Some (lv\<lparr>lv_head := p\<rparr>, mem1));
       ord2 \<leftarrow> load mem2 p;
       Some (lv2\<lparr>lv_tail := p, lv_count := lv_count lv2 + 1,
               lv_total := lv_total lv2 + o_remaining ord2\<rparr>, mem2)
     }"

text \<open>The two conditionals of \<open>unlink\<close>: bypass the node in either direction.\<close>

definition level_bypass_next ::
    "ptr \<Rightarrow> level \<Rightarrow> order memory \<Rightarrow> (level \<times> order memory) option" where
  "level_bypass_next p lv mem =
     do {
       ord \<leftarrow> load mem p;
       if o_prev ord \<noteq> None then
         do {
           q \<leftarrow> load mem (o_prev ord);
           m \<leftarrow> poke mem (o_prev ord) (q\<lparr>o_next := o_next ord\<rparr>);
           Some (lv, m)
         }
       else Some (lv\<lparr>lv_head := o_next ord\<rparr>, mem)
     }"

definition level_bypass_prev ::
    "ptr \<Rightarrow> level \<Rightarrow> order memory \<Rightarrow> (level \<times> order memory) option" where
  "level_bypass_prev p lv mem =
     do {
       ord \<leftarrow> load mem p;
       if o_next ord \<noteq> None then
         do {
           q \<leftarrow> load mem (o_next ord);
           m \<leftarrow> poke mem (o_next ord) (q\<lparr>o_prev := o_prev ord\<rparr>);
           Some (lv, m)
         }
       else Some (lv\<lparr>lv_tail := o_prev ord\<rparr>, mem)
     }"

definition level_unlink ::
    "ptr \<Rightarrow> level \<Rightarrow> order memory \<Rightarrow> (level \<times> order memory) option" where
  "level_unlink p lv mem =
     do {
       (lv1, mem1) \<leftarrow> level_bypass_next p lv mem;
       (lv2, mem2) \<leftarrow> level_bypass_prev p lv1 mem1;
       ord \<leftarrow> load mem2 p;
       mem3 \<leftarrow> poke mem2 p (ord\<lparr>o_prev := None, o_next := None, o_level := None\<rparr>);
       Some (lv2\<lparr>lv_count := lv_count lv2 - 1, lv_total := lv_total lv2 - o_remaining ord\<rparr>, mem3)
     }"

definition level_on_fill :: "quantity \<Rightarrow> level \<Rightarrow> level" where
  "level_on_fill traded lv = lv\<lparr>lv_total := lv_total lv - traded\<rparr>"

text \<open>\<open>for_each\<close>: the orders that the callback sees, in the order in which it sees them.\<close>

partial_function (option) level_walk :: "order memory \<Rightarrow> ptr \<Rightarrow> order list option" where
  "level_walk mem p =
     (if p = None then Some []
      else
        do {
          ord \<leftarrow> load mem p;
          rest \<leftarrow> level_walk mem (o_next ord);
          Some (ord # rest)
        })"

definition level_for_each :: "level \<Rightarrow> order memory \<Rightarrow> order list option" where
  "level_for_each lv mem = level_walk mem (lv_head lv)"

section \<open>Segments of the doubly-linked list\<close>

definition first_ptr :: "addr list \<Rightarrow> ptr \<Rightarrow> ptr" where
  "first_ptr as n = (case as of [] \<Rightarrow> n | a # _ \<Rightarrow> Some a)"

definition last_ptr :: "addr list \<Rightarrow> ptr \<Rightarrow> ptr" where
  "last_ptr as p = (if as = [] then p else Some (last as))"

text \<open>
  The orders at the addresses \<open>as\<close> form a segment between the pointers \<open>p\<close> and \<open>n\<close>, all
  with the back-pointer \<open>l\<close>.
\<close>

fun dseg :: "(addr \<Rightarrow> order option) \<Rightarrow> level_ref \<Rightarrow> ptr \<Rightarrow> addr list \<Rightarrow> ptr \<Rightarrow> bool" where
  "dseg h l p [] n \<longleftrightarrow> True"
| "dseg h l p (a # as) n \<longleftrightarrow>
     (\<exists>ord. h a = Some ord \<and> o_prev ord = p \<and> o_next ord = first_ptr as n \<and>
        o_level ord = Some l \<and> dseg h l (Some a) as n)"

lemma first_ptr_simps [simp]:
  "first_ptr [] n = n" "first_ptr (a # as) n = Some a"
  by (simp_all add: first_ptr_def)

lemma last_ptr_simps [simp]:
  "last_ptr [] p = p" "last_ptr (as @ [a]) p = Some a" "last_ptr (a # as) p = last_ptr as (Some a)"
  by (simp_all add: last_ptr_def)

lemma first_ptr_append: "first_ptr (as @ bs) n = first_ptr as (first_ptr bs n)"
  by (cases as) simp_all

lemma last_ptr_append: "last_ptr (as @ bs) p = last_ptr bs (last_ptr as p)"
  by (induction as arbitrary: p) (simp_all add: last_ptr_def)

lemma dseg_append:
  "dseg h l p (as @ bs) n \<longleftrightarrow> dseg h l p as (first_ptr bs n) \<and> dseg h l (last_ptr as p) bs n"
  by (induction as arbitrary: p) (auto simp: first_ptr_append)

lemma dseg_frame: "dseg h l p as n \<Longrightarrow> (\<And>a. a \<in> set as \<Longrightarrow> h' a = h a) \<Longrightarrow> dseg h' l p as n"
  by (induction as arbitrary: p) auto

lemma dseg_upd [simp]: "a \<notin> set as \<Longrightarrow> dseg (h(a := x)) l p as n \<longleftrightarrow> dseg h l p as n"
  by (induction as arbitrary: p) auto

lemma dseg_dom: "dseg h l p as n \<Longrightarrow> a \<in> set as \<Longrightarrow> \<exists>ord. h a = Some ord \<and> o_level ord = Some l"
  by (induction as arbitrary: p) auto

text \<open>Redirecting the ends of a segment.\<close>

lemma dseg_set_next:
  assumes "dseg h l p (as @ [a]) n" "h a = Some ord" "a \<notin> set as"
  shows "dseg (h(a \<mapsto> ord\<lparr>o_next := n'\<rparr>)) l p (as @ [a]) n'"
  using assms by (simp add: dseg_append)

lemma dseg_set_prev:
  assumes "dseg h l p (a # as) n" "h a = Some ord" "a \<notin> set as"
  shows "dseg (h(a \<mapsto> ord\<lparr>o_prev := p'\<rparr>)) l p' (a # as) n"
  using assms by simp

section \<open>Representation\<close>

definition remaining_at :: "(addr \<Rightarrow> order option) \<Rightarrow> addr \<Rightarrow> quantity" where
  "remaining_at h a = (case h a of Some ord \<Rightarrow> o_remaining ord | None \<Rightarrow> 0)"

definition level_rep ::
    "(addr \<Rightarrow> order option) \<Rightarrow> level_ref \<Rightarrow> level \<Rightarrow> addr list \<Rightarrow> bool" where
  "level_rep h l lv as \<longleftrightarrow>
     dseg h l None as None \<and> distinct as \<and> lv_head lv = first_ptr as None \<and>
     lv_tail lv = last_ptr as None \<and> lv_count lv = of_nat (length as) \<and>
     lv_total lv = sum_list (map (remaining_at h) as)"

text \<open>Two memories with the same orders up to linkage.\<close>

definition same_orders :: "(addr \<Rightarrow> order option) \<Rightarrow> (addr \<Rightarrow> order option) \<Rightarrow> bool" where
  "same_orders h h' \<longleftrightarrow> (\<forall>a. map_option order_view (h' a) = map_option order_view (h a))"

lemma same_orders_refl [simp]: "same_orders h h"
  by (simp add: same_orders_def)

lemma same_orders_trans: "same_orders h1 h2 \<Longrightarrow> same_orders h2 h3 \<Longrightarrow> same_orders h1 h3"
  by (simp add: same_orders_def)

lemma same_orders_upd:
  "h a = Some ord \<Longrightarrow> order_view ord' = order_view ord \<Longrightarrow> same_orders h (h(a \<mapsto> ord'))"
  by (simp add: same_orders_def)

lemma order_view_eqD:
  assumes "order_view a = order_view b"
  shows "o_id a = o_id b" "o_trader a = o_trader b" "o_side a = o_side b" "o_price a = o_price b"
    "o_quantity a = o_quantity b" "o_remaining a = o_remaining b" "o_sequence a = o_sequence b"
  using assms by (simp_all add: order_data.truncate_def)

lemma order_view_links [simp]:
  "order_view (ord\<lparr>o_prev := x\<rparr>) = order_view ord"
  "order_view (ord\<lparr>o_next := x\<rparr>) = order_view ord"
  "order_view (ord\<lparr>o_level := y\<rparr>) = order_view ord"
  by (simp_all add: order_data.truncate_def)

lemma order_view_fields [simp]:
  "o_id (order_view ord) = o_id ord" "o_trader (order_view ord) = o_trader ord"
  "o_side (order_view ord) = o_side ord" "o_price (order_view ord) = o_price ord"
  "o_quantity (order_view ord) = o_quantity ord" "o_remaining (order_view ord) = o_remaining ord"
  "o_sequence (order_view ord) = o_sequence ord"
  by (simp_all add: order_data.truncate_def)

lemma same_orders_remaining: "same_orders h h' \<Longrightarrow> remaining_at h' a = remaining_at h a"
  unfolding same_orders_def remaining_at_def
  by (cases "h a"; cases "h' a"; drule spec [of _ a]) (auto dest: order_view_eqD)

lemma same_orders_dom: "same_orders h h' \<Longrightarrow> h' a = None \<longleftrightarrow> h a = None"
  unfolding same_orders_def by (metis option.map_disc_iff)

lemma level_rep_frame:
  assumes "level_rep h l lv as" "\<And>a. a \<in> set as \<Longrightarrow> h' a = h a"
  shows "level_rep h' l lv as"
  using assms by (auto simp: level_rep_def remaining_at_def intro: dseg_frame cong: map_cong)

lemma level_rep_dom:
  "level_rep h l lv as \<Longrightarrow> a \<in> set as \<Longrightarrow> \<exists>ord. h a = Some ord \<and> o_level ord = Some l"
  by (auto simp: level_rep_def dest: dseg_dom)

lemma level_rep_new [simp]: "level_rep h l (level_new p) []"
  by (simp add: level_rep_def level_new_def)

lemma level_rep_empty: "level_rep h l lv as \<Longrightarrow> level_empty lv \<longleftrightarrow> as = []"
  by (cases as) (simp_all add: level_rep_def level_empty_def)

lemma level_rep_front: "level_rep h l lv (a # as) \<Longrightarrow> level_front lv = Some a"
  by (simp add: level_rep_def level_front_def)

section \<open>Enqueue\<close>

text \<open>
  The memory after an operation on the level \<open>l\<close>: nothing is allocated or destroyed, orders
  differ in their linkage only, and orders outside \<open>as\<close> not at all.
\<close>

definition level_frame :: "order memory \<Rightarrow> addr set \<Rightarrow> order memory \<Rightarrow> bool" where
  "level_frame mem as mem' \<longleftrightarrow>
     same_layout mem mem' \<and> same_orders (objects mem) (objects mem') \<and>
     (\<forall>b. b \<notin> as \<longrightarrow> objects mem' b = objects mem b)"

lemma level_frame_refl [simp]: "level_frame mem as mem"
  by (simp add: level_frame_def)

lemma level_frame_trans:
  "level_frame m1 as m2 \<Longrightarrow> level_frame m2 as m3 \<Longrightarrow> level_frame m1 as m3"
  unfolding level_frame_def by (metis same_layout_trans same_orders_trans)

lemma level_frame_mono: "level_frame m as m' \<Longrightarrow> as \<subseteq> bs \<Longrightarrow> level_frame m bs m'"
  by (auto simp: level_frame_def)

lemma level_frame_poke:
  assumes "objects mem a = Some ord" "order_view ord' = order_view ord" "a \<in> as"
  shows "level_frame mem as (mem(a \<mapsto> Object ord'))"
  using assms by (auto simp: level_frame_def intro: same_orders_upd)

lemma level_frame_total:
  "level_frame mem as mem' \<Longrightarrow>
   map (remaining_at (objects mem')) xs = map (remaining_at (objects mem)) xs"
  by (simp add: level_frame_def same_orders_remaining)

lemma level_frame_remaining:
  "level_frame mem as mem' \<Longrightarrow> remaining_at (objects mem') a = remaining_at (objects mem) a"
  by (simp add: level_frame_def same_orders_remaining)

lemma level_enqueue_ok:
  assumes rep: "level_rep (objects mem) l lv as" and new: "objects mem a = Some ord" "a \<notin> set as"
  shows "\<exists>lv' mem'. level_enqueue l (Some a) lv mem = Some (lv', mem') \<and>
    level_frame mem (insert a (set as)) mem' \<and> level_rep (objects mem') l lv' (as @ [a]) \<and>
    lv_price lv' = lv_price lv"
proof -
  let ?o = "ord\<lparr>o_level := Some l, o_prev := lv_tail lv, o_next := None\<rparr>"
  define mem1 where "mem1 = mem(a \<mapsto> Object ?o)"
  have h1: "objects mem1 = (objects mem)(a \<mapsto> ?o)" by (simp add: mem1_def)
  have f1: "level_frame mem (insert a (set as)) mem1"
    unfolding mem1_def using new(1) by (intro level_frame_poke) auto
  show ?thesis
  proof (cases as rule: rev_cases)
    case Nil
    then have lv: "lv_tail lv = None" "lv_count lv = 0" "lv_total lv = 0"
      using rep by (simp_all add: level_rep_def)
    let ?lv = "lv\<lparr>lv_head := Some a, lv_tail := Some a, lv_count := 1,
      lv_total := o_remaining ord\<rparr>"
    have "level_enqueue l (Some a) lv mem = Some (?lv, mem1)"
      using new lv by (simp add: level_enqueue_def mem1_def)
    moreover have "level_rep (objects mem1) l ?lv [a]"
      using lv by (simp add: level_rep_def h1 remaining_at_def)
    ultimately show ?thesis using f1 Nil by auto
  next
    case (snoc bs b)
    have ab: "a \<noteq> b" "a \<notin> set bs" "b \<notin> set bs" "distinct bs"
      using new(2) snoc rep by (auto simp: level_rep_def)
    have tail: "lv_tail lv = Some b" using rep snoc by (simp add: level_rep_def)
    obtain t where t: "objects mem b = Some t"
      using level_rep_dom[OF rep, of b] snoc by auto
    have t1: "objects mem1 b = Some t" using t ab by (simp add: h1)
    define mem2 where "mem2 = mem1(b \<mapsto> Object (t\<lparr>o_next := Some a\<rparr>))"
    have h2: "objects mem2 = (objects mem1)(b \<mapsto> t\<lparr>o_next := Some a\<rparr>)" by (simp add: mem2_def)
    have f2: "level_frame mem1 (insert a (set as)) mem2"
      unfolding mem2_def using t1 snoc by (intro level_frame_poke) auto
    note frame = level_frame_trans[OF f1 f2]
    let ?lv = "lv\<lparr>lv_tail := Some a, lv_count := lv_count lv + 1,
      lv_total := lv_total lv + o_remaining ord\<rparr>"
    have "level_enqueue l (Some a) lv mem = Some (?lv, mem2)"
      using new t1 ab tail by (simp add: level_enqueue_def mem1_def mem2_def)
    moreover have "level_rep (objects mem2) l ?lv (as @ [a])"
    proof -
      have "dseg (objects mem) l None (bs @ [b]) None" using rep snoc by (simp add: level_rep_def)
      then have "dseg (objects mem1) l None (bs @ [b]) None" using ab by (simp add: h1)
      then have "dseg (objects mem2) l None (bs @ [b]) (Some a)"
        unfolding h2 using t1 ab by (intro dseg_set_next) auto
      moreover have "objects mem2 a = Some ?o" using ab by (simp add: h2 h1)
      ultimately have "dseg (objects mem2) l None (as @ [a]) None"
        using snoc tail by (simp add: dseg_append [of _ _ _ "bs @ [b]"] del: append_assoc)
      moreover have "lv_head lv = first_ptr (as @ [a]) None"
        using rep snoc by (simp add: level_rep_def first_ptr_append)
      moreover have "remaining_at (objects mem) a = o_remaining ord"
        using new by (simp add: remaining_at_def)
      ultimately show ?thesis
        using rep new
        by (simp add: level_rep_def level_frame_total[OF frame] level_frame_remaining[OF frame] add.commute)
    qed
    ultimately show ?thesis using frame by auto
  qed
qed

section \<open>Unlink\<close>

text \<open>The node \<open>a\<close> sits between the segments \<open>as\<close> and \<open>bs\<close>.\<close>

lemma level_bypass_next_ok:
  assumes left: "dseg (objects mem) l None as (Some a)"
    and right: "dseg (objects mem) l (last_ptr as None) (a # bs) None"
    and dist: "distinct (as @ a # bs)" and head: "lv_head lv = first_ptr (as @ [a]) None"
  shows "\<exists>lv' mem'. level_bypass_next (Some a) lv mem = Some (lv', mem') \<and>
    level_frame mem (set as) mem' \<and> dseg (objects mem') l None as (first_ptr bs None) \<and>
    dseg (objects mem') l (last_ptr as None) (a # bs) None \<and>
    lv' = lv\<lparr>lv_head := first_ptr (as @ bs) None\<rparr>"
proof -
  obtain ord where ord: "objects mem a = Some ord" "o_prev ord = last_ptr as None"
    "o_next ord = first_ptr bs None" using right by auto
  show ?thesis
  proof (cases as rule: rev_cases)
    case Nil
    then show ?thesis using ord right by (auto simp: level_bypass_next_def)
  next
    case (snoc cs c)
    obtain q where q: "objects mem c = Some q"
      using dseg_dom[OF left, of c] snoc by auto
    let ?mem = "mem(c \<mapsto> Object (q\<lparr>o_next := first_ptr bs None\<rparr>))"
    have "level_bypass_next (Some a) lv mem = Some (lv, ?mem)"
      using ord q snoc by (simp add: level_bypass_next_def)
    moreover have "level_frame mem (set as) ?mem"
      using q snoc by (intro level_frame_poke) auto
    moreover have "dseg (objects ?mem) l None as (first_ptr bs None)"
      unfolding objects_upd_Object snoc using left q dist snoc by (intro dseg_set_next) auto
    moreover have "dseg (objects ?mem) l (last_ptr as None) (a # bs) None"
      unfolding objects_upd_Object using right dist snoc by (subst dseg_upd) auto
    moreover have "lv = lv\<lparr>lv_head := first_ptr (as @ bs) None\<rparr>"
      using head snoc by (simp add: first_ptr_append)
    ultimately show ?thesis by blast
  qed
qed

lemma level_bypass_prev_ok:
  assumes left: "dseg (objects mem) l None as (first_ptr bs None)"
    and right: "dseg (objects mem) l (last_ptr as None) (a # bs) None"
    and dist: "distinct (as @ a # bs)" and tail: "lv_tail lv = last_ptr bs (Some a)"
  shows "\<exists>lv' mem'. level_bypass_prev (Some a) lv mem = Some (lv', mem') \<and>
    level_frame mem (set bs) mem' \<and> dseg (objects mem') l None as (first_ptr bs None) \<and>
    dseg (objects mem') l (last_ptr as None) bs None \<and> objects mem' a = objects mem a \<and>
    lv' = lv\<lparr>lv_tail := last_ptr (as @ bs) None\<rparr>"
proof -
  obtain ord where ord: "objects mem a = Some ord" "o_prev ord = last_ptr as None"
    "o_next ord = first_ptr bs None" using right by auto
  show ?thesis
  proof (cases bs)
    case Nil
    then show ?thesis using ord left by (auto simp: level_bypass_prev_def last_ptr_append)
  next
    case (Cons c cs)
    obtain q where q: "objects mem c = Some q" using right Cons by auto
    let ?mem = "mem(c \<mapsto> Object (q\<lparr>o_prev := last_ptr as None\<rparr>))"
    have "level_bypass_prev (Some a) lv mem = Some (lv, ?mem)"
      using ord q Cons by (simp add: level_bypass_prev_def)
    moreover have "level_frame mem (set bs) ?mem"
      using q Cons by (intro level_frame_poke) auto
    moreover have "dseg (objects ?mem) l None as (first_ptr bs None)"
      unfolding objects_upd_Object using left dist Cons by (subst dseg_upd) auto
    moreover have "dseg (objects ?mem) l (last_ptr as None) bs None"
      unfolding objects_upd_Object Cons using right q dist Cons by (intro dseg_set_prev) auto
    moreover have "objects ?mem a = objects mem a" using dist Cons by simp
    moreover have "lv = lv\<lparr>lv_tail := last_ptr (as @ bs) None\<rparr>"
      using tail Cons by (simp add: last_ptr_append)
    ultimately show ?thesis by blast
  qed
qed

lemma level_unlink_ok:
  assumes rep: "level_rep (objects mem) l lv (as @ a # bs)"
  shows "\<exists>lv' mem'. level_unlink (Some a) lv mem = Some (lv', mem') \<and>
    level_frame mem (set (as @ a # bs)) mem' \<and> level_rep (objects mem') l lv' (as @ bs) \<and>
    lv_price lv' = lv_price lv"
proof -
  let ?all = "set (as @ a # bs)"
  have seg: "dseg (objects mem) l None as (Some a)"
    "dseg (objects mem) l (last_ptr as None) (a # bs) None" "distinct (as @ a # bs)"
    using rep unfolding level_rep_def dseg_append first_ptr_simps by blast+
  have ends: "lv_head lv = first_ptr (as @ [a]) None" "lv_tail lv = last_ptr bs (Some a)"
    using rep by (simp_all add: level_rep_def first_ptr_append last_ptr_append)
  obtain lv1 mem1 where 1: "level_bypass_next (Some a) lv mem = Some (lv1, mem1)"
    "level_frame mem (set as) mem1" "dseg (objects mem1) l None as (first_ptr bs None)"
    "dseg (objects mem1) l (last_ptr as None) (a # bs) None"
    "lv1 = lv\<lparr>lv_head := first_ptr (as @ bs) None\<rparr>"
    using level_bypass_next_ok[OF seg ends(1)] by blast
  have "lv_tail lv1 = last_ptr bs (Some a)" using 1(5) ends by simp
  from level_bypass_prev_ok[OF 1(3,4) seg(3) this]
  obtain lv2 mem2 where 2: "level_bypass_prev (Some a) lv1 mem1 = Some (lv2, mem2)"
    "level_frame mem1 (set bs) mem2" "dseg (objects mem2) l None as (first_ptr bs None)"
    "dseg (objects mem2) l (last_ptr as None) bs None" "objects mem2 a = objects mem1 a"
    "lv2 = lv1\<lparr>lv_tail := last_ptr (as @ bs) None\<rparr>"
    by blast
  obtain ord where ord: "objects mem2 a = Some ord" using 1(4) 2(5) by auto
  define mem3 where
    "mem3 = mem2(a \<mapsto> Object (ord\<lparr>o_prev := None, o_next := None, o_level := None\<rparr>))"
  have "level_frame mem2 ?all mem3"
    unfolding mem3_def using ord by (intro level_frame_poke) auto
  moreover have "level_frame mem ?all mem1" by (rule level_frame_mono[OF 1(2)]) auto
  moreover have "level_frame mem1 ?all mem2" by (rule level_frame_mono[OF 2(2)]) auto
  ultimately have frame: "level_frame mem ?all mem3" by (meson level_frame_trans)
  let ?lv = "lv2\<lparr>lv_count := lv_count lv2 - 1, lv_total := lv_total lv2 - o_remaining ord\<rparr>"
  have "level_unlink (Some a) lv mem = Some (?lv, mem3)"
    using 1(1) 2(1) ord by (simp add: level_unlink_def mem3_def)
  moreover have "level_rep (objects mem3) l ?lv (as @ bs)"
  proof -
    have "dseg (objects mem3) l None (as @ bs) None"
      using 2(3,4) seg(3) by (simp add: mem3_def dseg_append)
    moreover have "remaining_at (objects mem) a = o_remaining ord"
    proof -
      have "remaining_at (objects mem) a = remaining_at (objects mem2) a"
        using level_frame_remaining[OF 1(2), of a] level_frame_remaining[OF 2(2), of a] by simp
      then show ?thesis using ord by (simp add: remaining_at_def)
    qed
    ultimately show ?thesis
      using rep seg(3) 1(5) 2(6)
      by (simp add: level_rep_def level_frame_total[OF frame] algebra_simps)
  qed
  ultimately show ?thesis using frame 1(5) 2(6) by auto
qed

section \<open>Fills, traversal, totals\<close>

text \<open>A partial fill of a queued order, with \<open>on_fill\<close> for the aggregate.\<close>

lemma level_fill_ok:
  assumes rep: "level_rep h l lv as" and a: "a \<in> set as" "h a = Some ord"
  shows "level_rep (h(a \<mapsto> ord\<lparr>o_remaining := o_remaining ord - traded\<rparr>)) l
    (level_on_fill traded lv) as"
proof -
  let ?h = "h(a \<mapsto> ord\<lparr>o_remaining := o_remaining ord - traded\<rparr>)"
  have "dseg h l p xs n \<Longrightarrow> dseg ?h l p xs n" for p xs n
    using a(2) by (induction xs arbitrary: p) auto
  moreover have "sum_list (map (remaining_at ?h) as) = sum_list (map (remaining_at h) as) - traded"
  proof -
    obtain xs ys where as: "as = xs @ a # ys" using a(1) by (meson split_list)
    then have "a \<notin> set xs" "a \<notin> set ys" using rep by (auto simp: level_rep_def)
    then have eq: "map (remaining_at ?h) xs = map (remaining_at h) xs"
      "map (remaining_at ?h) ys = map (remaining_at h) ys"
      by (auto simp: remaining_at_def)
    have "remaining_at ?h a = remaining_at h a - traded" using a(2) by (simp add: remaining_at_def)
    then show ?thesis unfolding as map_append list.map eq by simp
  qed
  ultimately show ?thesis using rep by (simp add: level_rep_def level_on_fill_def)
qed

text \<open>\<open>for_each\<close> ends and visits the queue from the oldest order to the youngest.\<close>

lemma level_walk_ok:
  "dseg (objects mem) l p as None \<Longrightarrow>
   level_walk mem (first_ptr as None) = Some (map (\<lambda>a. the (objects mem a)) as)"
proof (induction as arbitrary: p)
  case Nil
  then show ?case by (simp add: level_walk.simps)
next
  case (Cons a as)
  then obtain ord where "objects mem a = Some ord" "o_next ord = first_ptr as None"
    "dseg (objects mem) l (Some a) as None" by auto
  then show ?case using Cons.IH[of "Some a"] by (subst level_walk.simps) simp
qed

lemma level_for_each_ok:
  "level_rep (objects mem) l lv as \<Longrightarrow>
   level_for_each lv mem = Some (map (\<lambda>a. the (objects mem a)) as)"
  by (auto simp: level_rep_def level_for_each_def intro: level_walk_ok)

end
