(* ===== verification/OrderedMap.thy ===== *)
theory OrderedMap
  imports PriceLevel
begin

text \<open>
  \<open>std::map<Price, V, Compare>\<close> as far as the book uses it: the nodes in the order of the
  comparator, so that the head of the list is \<open>begin()\<close>.
\<close>

type_synonym 'v omap = "(price \<times> 'v) list"

section \<open>Operations\<close>

fun om_find :: "price \<Rightarrow> 'v omap \<Rightarrow> 'v option" where
  "om_find k [] = None"
| "om_find k ((p, v) # m) = (if p = k then Some v else om_find k m)"

fun om_erase :: "price \<Rightarrow> 'v omap \<Rightarrow> 'v omap" where
  "om_erase k [] = []"
| "om_erase k ((p, v) # m) = (if p = k then m else (p, v) # om_erase k m)"

text \<open>\<open>try_emplace\<close> leaves the node of an existing key alone.\<close>

fun om_try_emplace :: "(price \<Rightarrow> price \<Rightarrow> bool) \<Rightarrow> price \<Rightarrow> 'v \<Rightarrow> 'v omap \<Rightarrow> 'v omap" where
  "om_try_emplace lt k v [] = [(k, v)]"
| "om_try_emplace lt k v ((p, w) # m) =
     (if lt k p then (k, v) # (p, w) # m
      else if lt p k then (p, w) # om_try_emplace lt k v m
      else (p, w) # m)"

text \<open>A write through a reference to the mapped value of \<open>k\<close>.\<close>

fun om_write :: "price \<Rightarrow> 'v \<Rightarrow> 'v omap \<Rightarrow> 'v omap" where
  "om_write k v [] = []"
| "om_write k v ((p, w) # m) = (if p = k then (p, v) # m else (p, w) # om_write k v m)"

text \<open>The comparators of the two maps: \<open>std::greater\<close> for bids, \<open>std::less\<close> for asks.\<close>

fun before :: "book_side \<Rightarrow> price \<Rightarrow> price \<Rightarrow> bool" where
  "before Bids p q = (q < p)"
| "before Asks p q = (p < q)"

section \<open>What a comparator has to provide\<close>

locale price_order =
  fixes lt :: "price \<Rightarrow> price \<Rightarrow> bool"
  assumes irrefl: "\<not> lt p p"
    and trans: "lt p q \<Longrightarrow> lt q r \<Longrightarrow> lt p r"
    and total: "lt p q \<or> p = q \<or> lt q p"
begin

lemma asym: "lt p q \<Longrightarrow> \<not> lt q p"
  using irrefl trans by blast

text \<open>The node of \<open>k\<close> in a map, with the nodes before and behind it.\<close>

lemma find_split:
  assumes "sorted_wrt lt (map fst (xs @ (k, v) # ys))"
  shows "om_find k (xs @ (k, v) # ys) = Some v"
    and "om_erase k (xs @ (k, v) # ys) = xs @ ys"
    and "om_write k w (xs @ (k, v) # ys) = xs @ (k, w) # ys"
    and "om_try_emplace lt k u (xs @ (k, v) # ys) = xs @ (k, v) # ys"
  using assms irrefl by (induction xs) (auto simp: sorted_wrt_append dest: asym)

text \<open>Emplacing a new key splits the map in the keys before and behind it.\<close>

lemma emplace_new:
  assumes "sorted_wrt lt (map fst m)" "k \<notin> fst ` set m"
  obtains xs ys where "m = xs @ ys" "om_try_emplace lt k v m = xs @ (k, v) # ys"
    "sorted_wrt lt (map fst (xs @ (k, v) # ys))"
  using assms
proof (induction m arbitrary: thesis)
  case Nil
  then show ?case using Nil.prems(1)[of "[]" "[]"] by simp
next
  case (Cons n m)
  obtain p w where n: "n = (p, w)" by fastforce
  have ne: "p \<noteq> k" using Cons.prems(3) n by auto
  show ?case
  proof (cases "lt k p")
    case True
    then have "\<forall>q \<in> set (map fst m). lt k q" using Cons.prems(2) n trans by auto
    then show ?thesis
      using Cons.prems(1)[of "[]" "n # m"] Cons.prems(2) True n by auto
  next
    case False
    with ne total have pk: "lt p k" by blast
    obtain xs ys where xy: "m = xs @ ys" "om_try_emplace lt k v m = xs @ (k, v) # ys"
      "sorted_wrt lt (map fst (xs @ (k, v) # ys))"
      using Cons.IH Cons.prems(2,3) by auto
    then show ?thesis
      using Cons.prems(1)[of "n # xs" ys] Cons.prems(2) False pk n by auto
  qed
qed

lemma find_None: "om_find k m = None \<longleftrightarrow> k \<notin> fst ` set m"
  by (induction m) force+

lemma find_Some:
  assumes "om_find k m = Some v"
  obtains xs ys where "m = xs @ (k, v) # ys"
  using assms
proof (induction m arbitrary: thesis)
  case (Cons n m)
  obtain p w where n: "n = (p, w)" by fastforce
  show ?case
  proof (cases "p = k")
    case True
    then show ?thesis using Cons.prems n by (metis append_Nil om_find.simps(2) option.inject)
  next
    case False
    then obtain xs ys where "m = xs @ (k, v) # ys" using Cons.IH Cons.prems(2) n by auto
    then show ?thesis using Cons.prems(1)[of "n # xs" ys] by simp
  qed
qed simp

text \<open>The place of a new key is where the order puts it.\<close>

lemma emplace_at:
  assumes "sorted_wrt lt (map fst xs @ k # map fst ys)"
  shows "om_try_emplace lt k v (xs @ ys) = xs @ (k, v) # ys"
  using assms
proof (induction xs)
  case Nil
  then show ?case by (cases ys) auto
next
  case (Cons x xs)
  then show ?case using asym by (cases x) auto
qed

text \<open>The first node is before every other.\<close>

lemma begin_best:
  assumes "sorted_wrt lt (map fst ((p, v) # m))" "(q, w) \<in> set m"
  shows "lt p q"
  using assms by force

end

interpretation ladder: price_order "before sd" for sd
  by (unfold_locales; cases sd) auto

end
