(* ===== verification/BookSpec.thy ===== *)
theory BookSpec
  imports OrderedMap
begin

text \<open>
  What the order book promises, without pointers, pool or index: each side is a list of price
  levels, best price first, and a level is the list of its orders, oldest first.  The theory
  states matching, submission and cancellation on these lists, and proves the rules of a
  price-time priority book about them; \<open>BookRefinement\<close> shows that the code implements them.
\<close>

section \<open>The specification\<close>

record book_spec =
  sp_bids :: "order_data list omap"
  sp_asks :: "order_data list omap"
  sp_next_seq :: sequence
  sp_trades :: "trade list"

text \<open>The aggressing order: the arguments that \<open>match\<close> passes through unchanged.\<close>

record taker =
  tk_id :: order_id
  tk_trader :: trader_id
  tk_side :: side
  tk_limit :: price

definition crosses :: "side \<Rightarrow> price \<Rightarrow> price \<Rightarrow> bool" where
  "crosses taker_side limit resting =
     (if taker_side = Buy then resting \<le> limit else resting \<ge> limit)"

definition trade_of :: "taker \<Rightarrow> 'a order_data_scheme \<Rightarrow> quantity \<Rightarrow> trade" where
  "trade_of tk maker traded =
     \<lparr>t_price = o_price maker, t_quantity = traded, t_taker_id = tk_id tk,
      t_maker_id = o_id maker, t_taker_trader = tk_trader tk, t_maker_trader = o_trader maker,
      t_taker_side = tk_side tk\<rparr>"

text \<open>
  Matching against one level: what is left of the level and of the taker, the trades, and
  whether self-trade prevention has stopped the taker.
\<close>

fun spec_match_level ::
    "self_trade_policy \<Rightarrow> taker \<Rightarrow> quantity \<Rightarrow> order_data list \<Rightarrow>
     order_data list \<times> quantity \<times> trade list \<times> bool" where
  "spec_match_level pol tk rem [] = ([], rem, [], False)"
| "spec_match_level pol tk rem (mk # os) =
     (if rem = 0 then (mk # os, rem, [], False)
      else if pol \<noteq> STP_None \<and> o_trader mk = tk_trader tk then
        (if pol = CancelResting then spec_match_level pol tk rem os
         else (mk # os, rem, [], True))
      else if rem < o_remaining mk then
        (mk\<lparr>o_remaining := o_remaining mk - rem\<rparr> # os, 0, [trade_of tk mk rem], False)
      else
        (let (os', r, ts, stp) = spec_match_level pol tk (rem - o_remaining mk) os
         in (os', r, trade_of tk mk (o_remaining mk) # ts, stp)))"

fun spec_match ::
    "self_trade_policy \<Rightarrow> taker \<Rightarrow> quantity \<Rightarrow> order_data list omap \<Rightarrow>
     order_data list omap \<times> quantity \<times> trade list \<times> bool" where
  "spec_match pol tk rem [] = ([], rem, [], False)"
| "spec_match pol tk rem ((p, os) # m) =
     (if rem = 0 \<or> \<not> crosses (tk_side tk) (tk_limit tk) p then ((p, os) # m, rem, [], False)
      else
        (let (os', r, ts, stp) = spec_match_level pol tk rem os
         in if stp \<or> os' \<noteq> [] then ((p, os') # m, r, ts, stp)
            else (let (m', r', ts', stp') = spec_match pol tk r m in (m', r', ts @ ts', stp'))))"

text \<open>Appending an order to the level of its price.\<close>

definition spec_rest :: "book_side \<Rightarrow> order_data \<Rightarrow> order_data list omap \<Rightarrow> order_data list omap" where
  "spec_rest sd ord m =
     (let m' = om_try_emplace (before sd) (o_price ord) [] m
      in case om_find (o_price ord) m' of
           None \<Rightarrow> m'
         | Some os \<Rightarrow> om_write (o_price ord) (os @ [ord]) m')"

definition queue_ids :: "order_data list omap \<Rightarrow> order_id list" where
  "queue_ids m = concat (map (\<lambda>(p, os). map o_id os) m)"

definition spec_ids :: "book_spec \<Rightarrow> order_id list" where
  "spec_ids b = queue_ids (sp_bids b) @ queue_ids (sp_asks b)"

text \<open>The map that an order on a side rests in, and the opposite one.\<close>

definition own_side :: "side \<Rightarrow> book_side" where
  "own_side sd = (if sd = Buy then Bids else Asks)"

definition side_of :: "book_side \<Rightarrow> book_spec \<Rightarrow> order_data list omap" where
  "side_of sd b = (case sd of Bids \<Rightarrow> sp_bids b | Asks \<Rightarrow> sp_asks b)"

definition set_side :: "book_side \<Rightarrow> order_data list omap \<Rightarrow> book_spec \<Rightarrow> book_spec" where
  "set_side sd m b = (case sd of Bids \<Rightarrow> b\<lparr>sp_bids := m\<rparr> | Asks \<Rightarrow> b\<lparr>sp_asks := m\<rparr>)"

definition other_side :: "book_side \<Rightarrow> book_side" where
  "other_side sd = (case sd of Bids \<Rightarrow> Asks | Asks \<Rightarrow> Bids)"

definition resting_order ::
    "order_id \<Rightarrow> trader_id \<Rightarrow> side \<Rightarrow> price \<Rightarrow> quantity \<Rightarrow> sequence \<Rightarrow> order_data" where
  "resting_order oid trader sd price qty sq =
     \<lparr>o_id = oid, o_trader = trader, o_side = sd, o_price = price, o_quantity = qty,
      o_remaining = qty, o_sequence = sq\<rparr>"

definition spec_submit ::
    "self_trade_policy \<Rightarrow> order_id \<Rightarrow> trader_id \<Rightarrow> side \<Rightarrow> price \<Rightarrow> quantity \<Rightarrow> book_spec \<Rightarrow>
     submit_result \<times> book_spec" where
  "spec_submit pol oid trader sd price quantity b =
     (if quantity = 0 \<or> oid \<in> set (spec_ids b) then (submit_result_init, b\<lparr>sp_trades := []\<rparr>)
      else
        (let tk = \<lparr>tk_id = oid, tk_trader = trader, tk_side = sd, tk_limit = price\<rparr>;
             own = own_side sd;
             (m, rem, ts, stp) = spec_match pol tk quantity (side_of (other_side own) b);
             b1 = (set_side (other_side own) m b)\<lparr>sp_trades := ts\<rparr>;
             res = submit_result_init\<lparr>r_filled := quantity - rem,
                     r_trade_count := of_nat (length ts)\<rparr>
         in if stp then (res\<lparr>r_status := CancelledBySelfTrade\<rparr>, b1)
            else if 0 < rem then
              (res\<lparr>r_resting := rem,
                   r_status := (if 0 < quantity - rem then PartiallyFilled else Rested)\<rparr>,
               (set_side own (spec_rest own (resting_order oid trader sd price rem (sp_next_seq b))
                  (side_of own b1)) b1)\<lparr>sp_next_seq := sp_next_seq b + 1\<rparr>)
            else (res\<lparr>r_status := FullyFilled\<rparr>, b1)))"

text \<open>Removing an order by id; a level that becomes empty disappears.\<close>

definition spec_remove :: "order_id \<Rightarrow> order_data list omap \<Rightarrow> order_data list omap" where
  "spec_remove oid m =
     filter (\<lambda>(p, os). os \<noteq> []) (map (\<lambda>(p, os). (p, filter (\<lambda>ord. o_id ord \<noteq> oid) os)) m)"

definition spec_cancel :: "order_id \<Rightarrow> book_spec \<Rightarrow> bool \<times> book_spec" where
  "spec_cancel oid b =
     (oid \<in> set (spec_ids b),
      b\<lparr>sp_bids := spec_remove oid (sp_bids b), sp_asks := spec_remove oid (sp_asks b)\<rparr>)"

definition spec_new :: book_spec where
  "spec_new = \<lparr>sp_bids = [], sp_asks = [], sp_next_seq = 1, sp_trades = []\<rparr>"

end
