(* ===== verification/BookRules.thy ===== *)
theory BookRules
  imports BookSpec "HOL-Library.Sublist" "HOL-Library.Multiset"
begin

text \<open>
  The rules of a price-time priority book, proved of the specification: what matching does to a
  level and to a side, what it leaves invariant, and that a book is never crossed.
\<close>

section \<open>Induction over matching\<close>

text \<open>The branches of the inner loop, as an induction rule on its result.\<close>

lemma spec_match_level_rule [consumes 1, case_names Nil Done Drop Stop Partial Full]:
  assumes "spec_match_level pol tk rem os = (os', r, ts, stp)"
    and Nil: "\<And>rem. P rem [] [] rem [] False"
    and Done: "\<And>mk os. P 0 (mk # os) (mk # os) 0 [] False"
    and Drop: "\<And>rem mk os os' r ts stp. rem \<noteq> 0 \<Longrightarrow> pol = CancelResting \<Longrightarrow>
      o_trader mk = tk_trader tk \<Longrightarrow> spec_match_level pol tk rem os = (os', r, ts, stp) \<Longrightarrow>
      P rem os os' r ts stp \<Longrightarrow> P rem (mk # os) os' r ts stp"
    and Stop: "\<And>rem mk os. rem \<noteq> 0 \<Longrightarrow> pol \<noteq> STP_None \<Longrightarrow> pol \<noteq> CancelResting \<Longrightarrow>
      o_trader mk = tk_trader tk \<Longrightarrow> P rem (mk # os) (mk # os) rem [] True"
    and Partial: "\<And>rem mk os. rem \<noteq> 0 \<Longrightarrow> (pol \<noteq> STP_None \<Longrightarrow> o_trader mk \<noteq> tk_trader tk) \<Longrightarrow>
      rem < o_remaining mk \<Longrightarrow>
      P rem (mk # os) (mk\<lparr>o_remaining := o_remaining mk - rem\<rparr> # os) 0 [trade_of tk mk rem] False"
    and Full: "\<And>rem mk os os' r ts stp. rem \<noteq> 0 \<Longrightarrow>
      (pol \<noteq> STP_None \<Longrightarrow> o_trader mk \<noteq> tk_trader tk) \<Longrightarrow> o_remaining mk \<le> rem \<Longrightarrow>
      spec_match_level pol tk (rem - o_remaining mk) os = (os', r, ts, stp) \<Longrightarrow>
      P (rem - o_remaining mk) os os' r ts stp \<Longrightarrow>
      P rem (mk # os) os' r (trade_of tk mk (o_remaining mk) # ts) stp"
  shows "P rem os os' r ts stp"
  using assms(1)
proof (induction os arbitrary: rem os' r ts stp)
  case Nil
  then show ?case using assms(2) by simp
next
  case (Cons mk os)
  consider "rem = 0" | "rem \<noteq> 0" "pol = CancelResting" "o_trader mk = tk_trader tk"
    | "rem \<noteq> 0" "pol \<noteq> STP_None" "pol \<noteq> CancelResting" "o_trader mk = tk_trader tk"
    | "rem \<noteq> 0" "pol \<noteq> STP_None \<Longrightarrow> o_trader mk \<noteq> tk_trader tk" "rem < o_remaining mk"
    | "rem \<noteq> 0" "pol \<noteq> STP_None \<Longrightarrow> o_trader mk \<noteq> tk_trader tk" "o_remaining mk \<le> rem"
    by (meson not_less)
  then show ?case
  proof cases
    case 1
    then have "(os', r, ts, stp) = (mk # os, 0, [], False)" using Cons.prems by simp
    then show ?thesis using Done[of mk os] 1 by simp
  next
    case 2
    then have "spec_match_level pol tk rem os = (os', r, ts, stp)" using Cons.prems by simp
    then show ?thesis using 2 Cons.IH Drop by blast
  next
    case 3
    then have "(os', r, ts, stp) = (mk # os, rem, [], True)" using Cons.prems by simp
    then show ?thesis using Stop[OF 3, of os] by simp
  next
    case 4
    then have "(mk\<lparr>o_remaining := o_remaining mk - rem\<rparr> # os, 0, [trade_of tk mk rem], False) =
        (os', r, ts, stp)"
      using Cons.prems 4 by (simp cong: conj_cong)
    then show ?thesis using Partial[OF 4, of os] by auto
  next
    case 5
    obtain os1 r1 ts1 stp1 where l: "spec_match_level pol tk (rem - o_remaining mk) os = (os1, r1, ts1, stp1)"
      using prod_cases4 by blast
    have "(os1, r1, trade_of tk mk (o_remaining mk) # ts1, stp1) = (os', r, ts, stp)"
      using Cons.prems 5(1,2) leD[OF 5(3)] l by (simp cong: conj_cong)
    then show ?thesis using Full[OF 5 l Cons.IH[OF l]] by auto
  qed
qed

text \<open>The branches of the outer loop.\<close>

lemma spec_match_rule [consumes 1, case_names Nil Done Within Through]:
  assumes "spec_match pol tk rem m = (m', r, ts, stp)"
    and Nil: "\<And>rem. P rem [] [] rem [] False"
    and Done: "\<And>rem p os m. rem = 0 \<or> \<not> crosses (tk_side tk) (tk_limit tk) p \<Longrightarrow>
      P rem ((p, os) # m) ((p, os) # m) rem [] False"
    and Within: "\<And>rem p os m os' r ts stp. rem \<noteq> 0 \<Longrightarrow> crosses (tk_side tk) (tk_limit tk) p \<Longrightarrow>
      spec_match_level pol tk rem os = (os', r, ts, stp) \<Longrightarrow> stp \<or> os' \<noteq> [] \<Longrightarrow>
      P rem ((p, os) # m) ((p, os') # m) r ts stp"
    and Through: "\<And>rem p os m r1 ts1 m' r ts stp. rem \<noteq> 0 \<Longrightarrow>
      crosses (tk_side tk) (tk_limit tk) p \<Longrightarrow>
      spec_match_level pol tk rem os = ([], r1, ts1, False) \<Longrightarrow>
      spec_match pol tk r1 m = (m', r, ts, stp) \<Longrightarrow> P r1 m m' r ts stp \<Longrightarrow>
      P rem ((p, os) # m) m' r (ts1 @ ts) stp"
  shows "P rem m m' r ts stp"
  using assms(1)
proof (induction m arbitrary: rem m' r ts stp)
  case Nil
  then show ?case using assms(2) by simp
next
  case (Cons n m)
  obtain p os where n: "n = (p, os)" by fastforce
  obtain os1 r1 ts1 stp1 where l: "spec_match_level pol tk rem os = (os1, r1, ts1, stp1)"
    using prod_cases4 by blast
  consider "rem = 0 \<or> \<not> crosses (tk_side tk) (tk_limit tk) p"
    | "rem \<noteq> 0" "crosses (tk_side tk) (tk_limit tk) p" "stp1 \<or> os1 \<noteq> []"
    | "rem \<noteq> 0" "crosses (tk_side tk) (tk_limit tk) p" "\<not> stp1" "os1 = []"
    by blast
  then show ?case
  proof cases
    case 1
    then have "(m', r, ts, stp) = ((p, os) # m, rem, [], False)" using Cons.prems n by auto
    then show ?thesis using Done[OF 1] n by simp
  next
    case 2
    then have "(m', r, ts, stp) = ((p, os1) # m, r1, ts1, stp1)" using Cons.prems n l by auto
    then show ?thesis using Within[OF 2(1,2) l 2(3)] n by simp
  next
    case 3
    obtain m2 r2 ts2 stp2 where r: "spec_match pol tk r1 m = (m2, r2, ts2, stp2)"
      using prod_cases4 by blast
    have "(m', r, ts, stp) = (m2, r2, ts1 @ ts2, stp2)" using Cons.prems n l 3 r by simp
    moreover have "spec_match_level pol tk rem os = ([], r1, ts1, False)" using l 3 by simp
    ultimately show ?thesis using Through[OF 3(1,2) _ r Cons.IH[OF r]] n by simp
  qed
qed

section \<open>The prices of a side\<close>

definition prices :: "'v omap \<Rightarrow> price set" where
  "prices m = fst ` set m"

lemma prices_simps [simp]:
  "prices [] = {}" "prices ((p, v) # m) = insert p (prices m)"
  "prices (m @ m') = prices m \<union> prices m'"
  by (auto simp: prices_def)

lemma find_None_prices: "om_find k m = None \<longleftrightarrow> k \<notin> prices m"
  by (simp add: ladder.find_None prices_def)

lemma sorted_wrt_prices:
  "sorted_wrt lt (p # map fst m) \<longleftrightarrow> (\<forall>q \<in> prices m. lt p q) \<and> sorted_wrt lt (map fst m)"
  "sorted_wrt lt (map fst m @ ks) \<longleftrightarrow>
     sorted_wrt lt (map fst m) \<and> sorted_wrt lt ks \<and> (\<forall>p \<in> prices m. \<forall>q \<in> set ks. lt p q)"
  "set (map fst m) = prices m"
  by (auto simp: prices_def sorted_wrt_append)

section \<open>Matching one level\<close>

text \<open>What remains of a level is a tail of it, with at most its first order changed.\<close>

lemma spec_match_level_suffix:
  "spec_match_level pol tk rem os = (os', r, ts, stp) \<Longrightarrow>
   suffix (map o_id os') (map o_id os)"
  by (induction rule: spec_match_level_rule) (auto simp: suffix_Cons)

definition queue_wf :: "book_side \<Rightarrow> price \<Rightarrow> order_data list \<Rightarrow> bool" where
  "queue_wf sd p os \<longleftrightarrow>
     (\<forall>ord \<in> set os. o_price ord = p \<and> own_side (o_side ord) = sd \<and> o_remaining ord \<noteq> 0)"

lemma queue_wf_simps [simp]:
  "queue_wf sd p []"
  "queue_wf sd p (ord # os) \<longleftrightarrow>
     o_price ord = p \<and> own_side (o_side ord) = sd \<and> o_remaining ord \<noteq> 0 \<and> queue_wf sd p os"
  "queue_wf sd p (os @ os') \<longleftrightarrow> queue_wf sd p os \<and> queue_wf sd p os'"
  by (auto simp: queue_wf_def)

lemma spec_match_level_wf:
  "spec_match_level pol tk rem os = (os', r, ts, stp) \<Longrightarrow> queue_wf sd p os \<Longrightarrow> queue_wf sd p os'"
  by (induction rule: spec_match_level_rule) auto

text \<open>Matching ends a level, ends the taker, or is stopped by self-trade prevention.\<close>

lemma spec_match_level_exit:
  "spec_match_level pol tk rem os = (os', r, ts, stp) \<Longrightarrow>
   (stp \<longrightarrow> os' \<noteq> [] \<and> r \<noteq> 0) \<and> (\<not> stp \<and> os' \<noteq> [] \<longrightarrow> r = 0)"
  by (induction rule: spec_match_level_rule) auto

text \<open>No quantity is created or lost: what traded and what is left make up the taker.\<close>

definition traded_total :: "trade list \<Rightarrow> nat" where
  "traded_total ts = sum_list (map (\<lambda>t. unat (t_quantity t)) ts)"

lemma traded_total_simps [simp]:
  "traded_total [] = 0" "traded_total (t # ts) = unat (t_quantity t) + traded_total ts"
  "traded_total (ts @ us) = traded_total ts + traded_total us"
  by (simp_all add: traded_total_def)

lemma trade_of_fields [simp]:
  "t_quantity (trade_of tk mk q) = q" "t_price (trade_of tk mk q) = o_price mk"
  "t_taker_id (trade_of tk mk q) = tk_id tk" "t_maker_id (trade_of tk mk q) = o_id mk"
  "t_taker_trader (trade_of tk mk q) = tk_trader tk"
  "t_maker_trader (trade_of tk mk q) = o_trader mk" "t_taker_side (trade_of tk mk q) = tk_side tk"
  by (simp_all add: trade_of_def)

lemma spec_match_level_conserves:
  "spec_match_level pol tk rem os = (os', r, ts, stp) \<Longrightarrow> unat r + traded_total ts = unat rem"
  by (induction rule: spec_match_level_rule) (auto simp: unat_sub word_le_nat_alt)

text \<open>
  The trades of a level: at its price, with makers from the queue in queue order, none of them
  empty, and none with the taker's own orders unless the policy allows it.
\<close>

definition trade_ok :: "self_trade_policy \<Rightarrow> taker \<Rightarrow> price \<Rightarrow> trade \<Rightarrow> bool" where
  "trade_ok pol tk p t \<longleftrightarrow>
     t_price t = p \<and> t_quantity t \<noteq> 0 \<and> t_taker_id t = tk_id tk \<and>
     t_taker_trader t = tk_trader tk \<and> t_taker_side t = tk_side tk \<and>
     (pol \<noteq> STP_None \<longrightarrow> t_maker_trader t \<noteq> tk_trader tk)"

lemma spec_match_level_trades:
  "spec_match_level pol tk rem os = (os', r, ts, stp) \<Longrightarrow> queue_wf sd p os \<Longrightarrow>
   (\<forall>t \<in> set ts. trade_ok pol tk p t) \<and> subseq (map t_maker_id ts) (map o_id os)"
  by (induction rule: spec_match_level_rule) (auto simp: trade_ok_def)

lemma spec_match_level_zero [simp]: "spec_match_level pol tk 0 os = (os, 0, [], False)"
  by (cases os) simp_all

section \<open>Matching a side\<close>

definition ladder_wf :: "book_side \<Rightarrow> order_data list omap \<Rightarrow> bool" where
  "ladder_wf sd m \<longleftrightarrow>
     sorted_wrt (before sd) (map fst m) \<and> (\<forall>(p, os) \<in> set m. os \<noteq> [] \<and> queue_wf sd p os)"

lemma ladder_wf_Nil [simp]: "ladder_wf sd []"
  by (simp add: ladder_wf_def)

lemma ladder_wf_Cons:
  "ladder_wf sd ((p, os) # m) \<longleftrightarrow>
     os \<noteq> [] \<and> queue_wf sd p os \<and> (\<forall>q \<in> prices m. before sd p q) \<and> ladder_wf sd m"
  by (auto simp: ladder_wf_def prices_def)

lemma ladder_wf_append:
  "ladder_wf sd (m @ m') \<longleftrightarrow>
     ladder_wf sd m \<and> ladder_wf sd m' \<and> (\<forall>p \<in> prices m. \<forall>q \<in> prices m'. before sd p q)"
  by (auto simp: ladder_wf_def sorted_wrt_prices simp del: set_map)

lemma queue_ids_simps [simp]:
  "queue_ids [] = []" "queue_ids ((p, os) # m) = map o_id os @ queue_ids m"
  "queue_ids (m @ m') = queue_ids m @ queue_ids m'"
  by (simp_all add: queue_ids_def)

lemma spec_match_keys:
  "spec_match pol tk rem m = (m', r, ts, stp) \<Longrightarrow> prices m' \<subseteq> prices m"
  by (induction rule: spec_match_rule) auto

lemma spec_match_suffix:
  "spec_match pol tk rem m = (m', r, ts, stp) \<Longrightarrow> suffix (queue_ids m') (queue_ids m)"
  by (induction rule: spec_match_rule) (auto intro: suffix_appendI dest: spec_match_level_suffix)

lemma spec_match_wf:
  "spec_match pol tk rem m = (m', r, ts, stp) \<Longrightarrow> ladder_wf sd m \<Longrightarrow> ladder_wf sd m'"
proof (induction rule: spec_match_rule)
  case (Within rem p os m os' r ts stp)
  then show ?case
    using spec_match_level_wf[OF Within(3)] spec_match_level_exit[OF Within(3)]
    by (auto simp: ladder_wf_Cons)
qed (auto simp: ladder_wf_Cons)

lemma spec_match_conserves:
  "spec_match pol tk rem m = (m', r, ts, stp) \<Longrightarrow> unat r + traded_total ts = unat rem"
  by (induction rule: spec_match_rule) (auto dest: spec_match_level_conserves)

text \<open>A taker that is left over and was not stopped has no order left that it crosses.\<close>

lemma crosses_before:
  assumes "\<not> crosses sd limit p" "before (other_side (own_side sd)) p q"
  shows "\<not> crosses sd limit q"
  using assms by (cases "sd = Buy") (auto simp: crosses_def own_side_def other_side_def)

lemma spec_match_exhausts:
  "spec_match pol tk rem m = (m', r, ts, stp) \<Longrightarrow>
   ladder_wf (other_side (own_side (tk_side tk))) m \<Longrightarrow> \<not> stp \<Longrightarrow> r \<noteq> 0 \<Longrightarrow>
   \<forall>p \<in> prices m'. \<not> crosses (tk_side tk) (tk_limit tk) p"
proof (induction rule: spec_match_rule)
  case (Done rem p os m)
  have "\<not> crosses (tk_side tk) (tk_limit tk) q"
    if "rem \<noteq> 0" "q \<in> prices ((p, os) # m)" for q
    using Done that crosses_before[of "tk_side tk" "tk_limit tk" p q]
    by (cases "q = p") (auto simp: ladder_wf_Cons)
  then show ?case using Done by blast
next
  case (Within rem p os m os' r ts stp)
  then show ?case using spec_match_level_exit[OF Within(3)] by auto
qed (auto simp: ladder_wf_Cons)

lemma spec_match_stopped:
  "spec_match pol tk rem m = (m', r, ts, stp) \<Longrightarrow> stp \<Longrightarrow> r \<noteq> 0"
  by (induction rule: spec_match_rule) (auto dest: spec_match_level_exit)

text \<open>
  The trades of a side: each at the price of its maker's level, which the taker's limit crosses,
  with the makers in priority order.
\<close>

lemma spec_match_trades:
  "spec_match pol tk rem m = (m', r, ts, stp) \<Longrightarrow> ladder_wf sd m \<Longrightarrow>
   (\<forall>t \<in> set ts. crosses (tk_side tk) (tk_limit tk) (t_price t) \<and> trade_ok pol tk (t_price t) t) \<and>
   subseq (map t_maker_id ts) (queue_ids m)"
proof (induction rule: spec_match_rule)
  case (Within rem p os m os' r ts stp)
  have "\<forall>t \<in> set ts. trade_ok pol tk p t" "subseq (map t_maker_id ts) (map o_id os)"
    using spec_match_level_trades[OF Within(3), of sd p] Within(5) by (auto simp: ladder_wf_Cons)
  then show ?case
    using Within(2) by (auto simp: trade_ok_def intro: list_emb_append2[of _ _ _ "[]", simplified] subseq_rev_drop_many)
next
  case (Through rem p os m r1 ts1 m' r ts stp)
  have "\<forall>t \<in> set ts1. trade_ok pol tk p t" "subseq (map t_maker_id ts1) (map o_id os)"
    using spec_match_level_trades[OF Through(3), of sd p] Through(6) by (auto simp: ladder_wf_Cons)
  then show ?case
    using Through(2,5,6) by (auto simp: trade_ok_def ladder_wf_Cons intro: list_emb_append_mono)
qed simp_all

section \<open>Resting and removing orders\<close>

text \<open>Resting an order extends the level of its price at the back, or opens the level.\<close>

lemma spec_rest_cases:
  assumes "ladder_wf sd m"
  obtains (Extend) xs os ys where "m = xs @ (o_price ord, os) # ys" "os \<noteq> []"
      "spec_rest sd ord m = xs @ (o_price ord, os @ [ord]) # ys"
    | (Open) xs ys where "m = xs @ ys" "o_price ord \<notin> prices m"
      "spec_rest sd ord m = xs @ (o_price ord, [ord]) # ys"
      "sorted_wrt (before sd) (map fst (xs @ (o_price ord, [ord]) # ys))"
proof (cases "om_find (o_price ord) m")
  case None
  then have new: "o_price ord \<notin> prices m" by (simp add: find_None_prices)
  have sorted: "sorted_wrt (before sd) (map fst m)" using assms by (simp add: ladder_wf_def)
  obtain xs ys where m: "m = xs @ ys"
    and ins: "om_try_emplace (before sd) (o_price ord) [] m = xs @ (o_price ord, []) # ys"
    and sorted': "sorted_wrt (before sd) (map fst (xs @ (o_price ord, []) # ys))"
    using ladder.emplace_new[OF sorted] new unfolding prices_def by blast
  have "spec_rest sd ord m = xs @ (o_price ord, [ord]) # ys"
    using ladder.find_split[OF sorted'] by (simp add: spec_rest_def ins)
  moreover have "sorted_wrt (before sd) (map fst (xs @ (o_price ord, [ord]) # ys))"
    using sorted' by simp
  ultimately show thesis using Open m new by blast
next
  case (Some os)
  then obtain xs ys where m: "m = xs @ (o_price ord, os) # ys" by (rule ladder.find_Some)
  have sorted: "sorted_wrt (before sd) (map fst m)" and "os \<noteq> []"
    using assms m by (auto simp: ladder_wf_def)
  then show thesis
    using Extend[OF m] ladder.find_split[OF sorted[unfolded m]] by (simp add: spec_rest_def m)
qed

lemma spec_rest_wf:
  assumes "ladder_wf sd m" "own_side (o_side ord) = sd" "o_remaining ord \<noteq> 0"
  shows "ladder_wf sd (spec_rest sd ord m)"
  by (rule spec_rest_cases[OF assms(1), of ord])
    (use assms in \<open>auto simp: ladder_wf_append ladder_wf_Cons sorted_wrt_prices simp del: set_map\<close>)

lemma spec_rest_ids:
  assumes "ladder_wf sd m"
  shows "mset (queue_ids (spec_rest sd ord m)) = add_mset (o_id ord) (mset (queue_ids m))"
    and "prices (spec_rest sd ord m) = insert (o_price ord) (prices m)"
  by (rule spec_rest_cases[OF assms, of ord]; auto)+

lemma spec_remove_simps [simp]:
  "spec_remove oid [] = []"
  "spec_remove oid (m @ m') = spec_remove oid m @ spec_remove oid m'"
  "spec_remove oid ((p, os) # m) =
     (if \<forall>ord \<in> set os. o_id ord = oid then spec_remove oid m
      else (p, filter (\<lambda>ord. o_id ord \<noteq> oid) os) # spec_remove oid m)"
  by (auto simp: spec_remove_def filter_empty_conv)

lemma spec_remove_keys: "prices (spec_remove oid m) \<subseteq> prices m"
  by (induction m) (auto split: if_splits)

lemma queue_ids_Cons: "queue_ids (n # m) = map o_id (snd n) @ queue_ids m"
  by (cases n) simp

lemma spec_remove_ids: "queue_ids (spec_remove oid m) = filter (\<lambda>i. i \<noteq> oid) (queue_ids m)"
proof (induction m)
  case (Cons n m)
  have "filter (\<lambda>i. i \<noteq> oid) (map o_id os) = map o_id (filter (\<lambda>ord. o_id ord \<noteq> oid) os)"
    for os :: "order_data list"
    by (simp add: filter_map o_def)
  moreover have "map o_id (filter (\<lambda>ord. o_id ord \<noteq> oid) os) = []"
    if "\<forall>ord \<in> set os. o_id ord = oid" for os :: "order_data list"
    using that by (simp add: filter_empty_conv)
  ultimately show ?case using Cons by (cases n) simp
qed simp

lemma spec_remove_wf: "ladder_wf sd m \<Longrightarrow> ladder_wf sd (spec_remove oid m)"
proof (induction m)
  case (Cons n m)
  obtain p os where n: "n = (p, os)" by fastforce
  have "queue_wf sd p (filter f os)" if "queue_wf sd p os" for f
    using that by (simp add: queue_wf_def)
  moreover have "filter (\<lambda>ord. o_id ord \<noteq> oid) os \<noteq> []" if "\<not> (\<forall>ord \<in> set os. o_id ord = oid)"
    using that by (simp add: filter_empty_conv)
  moreover have "\<forall>q \<in> prices (spec_remove oid m). before sd p q"
    using Cons.prems n spec_remove_keys[of oid m] by (auto simp: ladder_wf_Cons)
  ultimately show ?case using Cons n by (auto simp: ladder_wf_Cons)
qed simp

lemma spec_remove_absent: "ladder_wf sd m \<Longrightarrow> oid \<notin> set (queue_ids m) \<Longrightarrow> spec_remove oid m = m"
proof (induction m)
  case (Cons n m)
  obtain p os where n: "n = (p, os)" by fastforce
  have "\<forall>ord \<in> set os. o_id ord \<noteq> oid" "os \<noteq> []" using Cons.prems n by (auto simp: ladder_wf_Cons)
  moreover have "spec_remove oid m = m" using Cons n by (auto simp: ladder_wf_Cons)
  ultimately show ?case using n by (cases os) auto
qed simp

text \<open>Removing the order at a known place.\<close>

lemma spec_remove_at:
  assumes wf: "ladder_wf sd (xs @ (p, os1 @ ord # os2) # ys)"
    and dist: "distinct (queue_ids (xs @ (p, os1 @ ord # os2) # ys))"
  shows "spec_remove (o_id ord) (xs @ (p, os1 @ ord # os2) # ys) =
    xs @ (if os1 @ os2 = [] then [] else [(p, os1 @ os2)]) @ ys"
proof -
  have gone: "spec_remove (o_id ord) xs = xs" "spec_remove (o_id ord) ys = ys"
    using wf dist by (auto simp: ladder_wf_append ladder_wf_Cons intro: spec_remove_absent)
  have "o_id ord \<notin> o_id ` set os1" "o_id ord \<notin> o_id ` set os2" using dist by simp_all
  then have ne: "o_id x \<noteq> o_id ord" if "x \<in> set os1 \<union> set os2" for x
    using that by (metis Un_iff image_eqI)
  then have "filter (\<lambda>x. o_id x \<noteq> o_id ord) os1 = os1" "filter (\<lambda>x. o_id x \<noteq> o_id ord) os2 = os2"
    by (auto simp: filter_id_conv)
  moreover have "(\<forall>x \<in> set (os1 @ ord # os2). o_id x = o_id ord) \<longleftrightarrow> os1 @ os2 = []"
  proof -
    have "(\<forall>x \<in> set (os1 @ ord # os2). o_id x = o_id ord) \<longleftrightarrow>
        (\<forall>x \<in> set os1 \<union> set os2. o_id x = o_id ord)" by auto
    also have "\<dots> \<longleftrightarrow> set os1 \<union> set os2 = {}" using ne by (metis (no_types, lifting) equals0D equals0I)
    finally show ?thesis by simp
  qed
  ultimately show ?thesis using gone by simp
qed

section \<open>Well-formed books\<close>

text \<open>
  Levels sorted by price and non-empty, orders in the level of their price and on their side,
  ids unique, and every bid below every ask.
\<close>

definition uncrossed :: "book_spec \<Rightarrow> bool" where
  "uncrossed A \<longleftrightarrow> (\<forall>p \<in> prices (sp_bids A). \<forall>q \<in> prices (sp_asks A). p < q)"

definition spec_wf :: "book_spec \<Rightarrow> bool" where
  "spec_wf A \<longleftrightarrow>
     ladder_wf Bids (sp_bids A) \<and> ladder_wf Asks (sp_asks A) \<and> distinct (spec_ids A) \<and>
     uncrossed A"

lemma side_of_simps [simp]:
  "side_of Bids A = sp_bids A" "side_of Asks A = sp_asks A"
  "side_of sd (A\<lparr>sp_trades := ts\<rparr>) = side_of sd A" "side_of sd (A\<lparr>sp_next_seq := n\<rparr>) = side_of sd A"
  "side_of sd (set_side sd m A) = m"
  by (cases sd; simp add: side_of_def set_side_def)+

lemma side_of_set_other:
  "side_of sd (set_side sd' m A) = (if sd = sd' then m else side_of sd A)"
  by (cases sd; cases sd') (simp_all add: side_of_def set_side_def)

lemma set_side_fields [simp]:
  "sp_next_seq (set_side sd m A) = sp_next_seq A" "sp_trades (set_side sd m A) = sp_trades A"
  by (cases sd; simp add: set_side_def)+

lemma other_side_simps [simp]:
  "other_side sd \<noteq> sd" "other_side (other_side sd) = sd" "sd \<noteq> other_side sd"
  by (cases sd; simp add: other_side_def)+

lemma spec_wf_side: "spec_wf A \<Longrightarrow> ladder_wf sd (side_of sd A)"
  by (cases sd) (simp_all add: spec_wf_def)

lemma spec_wfI:
  assumes "ladder_wf sd (side_of sd A)" "ladder_wf (other_side sd) (side_of (other_side sd) A)"
    and "distinct (spec_ids A)" "uncrossed A"
  shows "spec_wf A"
  using assms by (cases sd) (auto simp: spec_wf_def other_side_def)

lemma spec_ids_mset:
  "mset (spec_ids A) = mset (queue_ids (side_of sd A)) + mset (queue_ids (side_of (other_side sd) A))"
  by (cases sd) (simp_all add: spec_ids_def other_side_def)

lemma set_spec_ids:
  "set (spec_ids A) = set (queue_ids (side_of sd A)) \<union> set (queue_ids (side_of (other_side sd) A))"
  using spec_ids_mset[of A sd] by (metis set_mset_mset set_mset_union)

lemma distinct_spec_ids:
  "distinct (spec_ids A) \<longleftrightarrow>
     distinct (queue_ids (side_of sd A) @ queue_ids (side_of (other_side sd) A))"
  by (rule mset_eq_imp_distinct_iff) (simp add: spec_ids_mset[of A sd])

lemma uncrossed_side:
  "uncrossed A \<longleftrightarrow>
     (\<forall>p \<in> prices (side_of (own_side sd) A).
        \<forall>q \<in> prices (side_of (other_side (own_side sd)) A). \<not> crosses sd p q)"
  by (cases "sd = Buy") (auto simp: uncrossed_def own_side_def other_side_def crosses_def not_le)

lemma spec_wf_new: "spec_wf spec_new"
  by (simp add: spec_wf_def spec_new_def spec_ids_def uncrossed_def)

section \<open>The operations keep the book well-formed\<close>

text \<open>The taker of a submission and what matching makes of the book.\<close>

definition submit_taker :: "order_id \<Rightarrow> trader_id \<Rightarrow> side \<Rightarrow> price \<Rightarrow> taker" where
  "submit_taker oid trader sd price =
     \<lparr>tk_id = oid, tk_trader = trader, tk_side = sd, tk_limit = price\<rparr>"

lemma submit_taker_fields [simp]:
  "tk_id (submit_taker oid trader sd price) = oid"
  "tk_trader (submit_taker oid trader sd price) = trader"
  "tk_side (submit_taker oid trader sd price) = sd"
  "tk_limit (submit_taker oid trader sd price) = price"
  by (simp_all add: submit_taker_def)

text \<open>
  The four outcomes of a submission: refused, stopped by self-trade prevention, rested with what
  was left, fully filled.
\<close>

lemma spec_submit_cases:
  assumes "spec_submit pol oid trader sd price q A = (res, A')"
  obtains (Refused) "q = 0 \<or> oid \<in> set (spec_ids A)" "res = submit_result_init"
      "A' = A\<lparr>sp_trades := []\<rparr>"
  | (Stopped) m r ts where "q \<noteq> 0" "oid \<notin> set (spec_ids A)"
      "spec_match pol (submit_taker oid trader sd price) q
         (side_of (other_side (own_side sd)) A) = (m, r, ts, True)"
      "res = \<lparr>r_status = CancelledBySelfTrade, r_filled = q - r, r_resting = 0,
         r_trade_count = of_nat (length ts)\<rparr>"
      "A' = (set_side (other_side (own_side sd)) m A)\<lparr>sp_trades := ts\<rparr>"
  | (Rested) m r ts where "q \<noteq> 0" "oid \<notin> set (spec_ids A)" "r \<noteq> 0"
      "spec_match pol (submit_taker oid trader sd price) q
         (side_of (other_side (own_side sd)) A) = (m, r, ts, False)"
      "res = \<lparr>r_status = (if 0 < q - r then PartiallyFilled else Rested), r_filled = q - r,
         r_resting = r, r_trade_count = of_nat (length ts)\<rparr>"
      "A' = (set_side (own_side sd) (spec_rest (own_side sd)
           (resting_order oid trader sd price r (sp_next_seq A)) (side_of (own_side sd) A))
           ((set_side (other_side (own_side sd)) m A)\<lparr>sp_trades := ts\<rparr>))
           \<lparr>sp_next_seq := sp_next_seq A + 1\<rparr>"
  | (Filled) m ts where "q \<noteq> 0" "oid \<notin> set (spec_ids A)"
      "spec_match pol (submit_taker oid trader sd price) q
         (side_of (other_side (own_side sd)) A) = (m, 0, ts, False)"
      "res = \<lparr>r_status = FullyFilled, r_filled = q, r_resting = 0,
         r_trade_count = of_nat (length ts)\<rparr>"
      "A' = (set_side (other_side (own_side sd)) m A)\<lparr>sp_trades := ts\<rparr>"
proof (cases "q = 0 \<or> oid \<in> set (spec_ids A)")
  case True
  then show thesis using assms by (intro Refused) (auto simp: spec_submit_def)
next
  case False
  obtain m r ts stp where m: "spec_match pol (submit_taker oid trader sd price) q
      (side_of (other_side (own_side sd)) A) = (m, r, ts, stp)"
    using prod_cases4 by blast
  have other: "side_of (own_side sd) (set_side (other_side (own_side sd)) m A) =
      side_of (own_side sd) A"
    by (simp add: side_of_set_other)
  note sub = assms[unfolded spec_submit_def submit_taker_def[symmetric] Let_def m prod.case]
  consider "stp" | "\<not> stp" "r \<noteq> 0" | "\<not> stp" "r = 0" by blast
  then show thesis
  proof cases
    case 1
    then show thesis using Stopped[of m r ts] sub False m by (simp add: submit_result_init_def)
  next
    case 2
    then have "0 < r" by (simp add: word_gt_0)
    then show thesis
      using Rested[of r m ts] sub False m 2 other by (simp add: submit_result_init_def)
  next
    case 3
    then show thesis using Filled[of m ts] sub False m by (simp add: submit_result_init_def)
  qed
qed

lemma spec_match_book_wf:
  assumes wf: "spec_wf A" and m: "spec_match pol tk q (side_of sd A) = (m, r, ts, stp)"
  shows "spec_wf (set_side sd m A)" "set (spec_ids (set_side sd m A)) \<subseteq> set (spec_ids A)"
proof -
  note suf = spec_match_suffix[OF m]
  obtain xs where xs: "queue_ids (side_of sd A) = xs @ queue_ids m" using suf by (auto simp: suffix_def)
  have other: "side_of (other_side sd) (set_side sd m A) = side_of (other_side sd) A"
    by (simp add: side_of_set_other)
  have "distinct (queue_ids (side_of sd A) @ queue_ids (side_of (other_side sd) A))"
    using wf distinct_spec_ids[of A sd] by (simp add: spec_wf_def)
  then have "distinct (spec_ids (set_side sd m A))"
    by (simp add: distinct_spec_ids[of _ sd] other xs)
  moreover have "uncrossed (set_side sd m A)"
    using spec_match_keys[OF m] wf
    by (cases sd) (auto simp: spec_wf_def uncrossed_def set_side_def)
  ultimately show "spec_wf (set_side sd m A)"
    using spec_match_wf[OF m spec_wf_side[OF wf]] spec_wf_side[OF wf, of "other_side sd"] other
    by (intro spec_wfI[of sd]) simp_all
  show "set (spec_ids (set_side sd m A)) \<subseteq> set (spec_ids A)"
    by (auto simp: set_spec_ids[of _ sd] other xs)
qed

lemma spec_wf_cong [simp]:
  "spec_wf (A\<lparr>sp_trades := ts\<rparr>) = spec_wf A" "spec_wf (A\<lparr>sp_next_seq := n\<rparr>) = spec_wf A"
  "spec_ids (A\<lparr>sp_trades := ts\<rparr>) = spec_ids A" "spec_ids (A\<lparr>sp_next_seq := n\<rparr>) = spec_ids A"
  by (simp_all add: spec_wf_def spec_ids_def uncrossed_def)

lemma set_side_trades: "set_side sd m (A\<lparr>sp_trades := ts\<rparr>) = (set_side sd m A)\<lparr>sp_trades := ts\<rparr>"
  by (cases sd) (simp_all add: set_side_def)

lemma resting_order_fields [simp]:
  "o_id (resting_order oid trader sd price q sq) = oid"
  "o_trader (resting_order oid trader sd price q sq) = trader"
  "o_side (resting_order oid trader sd price q sq) = sd"
  "o_price (resting_order oid trader sd price q sq) = price"
  "o_quantity (resting_order oid trader sd price q sq) = q"
  "o_remaining (resting_order oid trader sd price q sq) = q"
  "o_sequence (resting_order oid trader sd price q sq) = sq"
  by (simp_all add: resting_order_def)

text \<open>Resting an order that crosses nothing on the opposite side.\<close>

lemma spec_rest_book_wf:
  assumes wf: "spec_wf A" and new: "o_id ord \<notin> set (spec_ids A)" "o_remaining ord \<noteq> 0"
    and away: "\<forall>p \<in> prices (side_of (other_side (own_side (o_side ord))) A).
      \<not> crosses (o_side ord) (o_price ord) p"
  shows "spec_wf (set_side (own_side (o_side ord))
      (spec_rest (own_side (o_side ord)) ord (side_of (own_side (o_side ord)) A)) A)"
proof -
  let ?sd = "own_side (o_side ord)"
  let ?m = "spec_rest ?sd ord (side_of ?sd A)"
  note own = spec_wf_side[OF wf, of ?sd]
  have other: "side_of (other_side ?sd) (set_side ?sd ?m A) = side_of (other_side ?sd) A"
    by (simp add: side_of_set_other)
  note ids = spec_rest_ids[OF own, of ord]
  have "mset (spec_ids (set_side ?sd ?m A)) = add_mset (o_id ord) (mset (spec_ids A))"
    by (simp add: spec_ids_mset[of _ ?sd] other ids)
  then have "distinct (spec_ids (set_side ?sd ?m A))"
    using wf new(1) mset_eq_imp_distinct_iff[of _ "o_id ord # spec_ids A"]
    by (simp add: spec_wf_def)
  moreover have "uncrossed (set_side ?sd ?m A)"
    using wf away unfolding spec_wf_def uncrossed_side[of _ "o_side ord"] other side_of_simps ids
    by simp
  ultimately show ?thesis
    using spec_rest_wf[OF own, of ord] new(2) spec_wf_side[OF wf, of "other_side ?sd"] other
    by (intro spec_wfI[of ?sd]) simp_all
qed

lemma spec_submit_wf:
  assumes "spec_submit pol oid trader sd price q A = (res, A')" "spec_wf A"
  shows "spec_wf A'"
  using assms(1)
proof (cases rule: spec_submit_cases)
  case (Rested m r ts)
  let ?own = "own_side sd" and ?A = "set_side (other_side (own_side sd)) m A"
  have wf: "spec_wf ?A" and ids: "set (spec_ids ?A) \<subseteq> set (spec_ids A)"
    using spec_match_book_wf[OF assms(2) Rested(4)] by blast+
  have own: "side_of ?own A = side_of ?own ?A" by (simp add: side_of_set_other)
  have "\<forall>p \<in> prices m. \<not> crosses sd price p"
    using spec_match_exhausts[OF Rested(4)] Rested(3) spec_wf_side[OF assms(2)] by simp
  then show ?thesis
    using spec_rest_book_wf[OF wf, of "resting_order oid trader sd price r (sp_next_seq A)"] ids
      Rested(2,3,6) by (auto simp: set_side_trades own)
next
  case (Stopped m r ts)
  then show ?thesis using spec_match_book_wf[OF assms(2) Stopped(3)] by simp
next
  case (Filled m ts)
  then show ?thesis using spec_match_book_wf[OF assms(2) Filled(3)] by simp
qed (use assms(2) in simp)

lemma spec_cancel_wf:
  assumes "spec_cancel oid A = (found, A')" "spec_wf A"
  shows "spec_wf A'"
proof -
  have A': "A' = A\<lparr>sp_bids := spec_remove oid (sp_bids A), sp_asks := spec_remove oid (sp_asks A)\<rparr>"
    using assms(1) by (simp add: spec_cancel_def)
  have "spec_ids A' = filter (\<lambda>i. i \<noteq> oid) (spec_ids A)"
    by (simp add: A' spec_ids_def spec_remove_ids)
  then have "distinct (spec_ids A')" using assms(2) by (simp add: spec_wf_def)
  moreover have "uncrossed A'"
    using assms(2) spec_remove_keys[of oid "sp_bids A"] spec_remove_keys[of oid "sp_asks A"]
    unfolding spec_wf_def uncrossed_def A' by auto
  ultimately show ?thesis using assms(2) by (simp add: spec_wf_def A' spec_remove_wf)
qed

section \<open>Price-time priority\<close>

text \<open>The orders of a side in priority order, and those a taker may trade with.\<close>

definition in_order :: "order_data list omap \<Rightarrow> order_data list" where
  "in_order m = concat (map snd m)"

definition eligible :: "self_trade_policy \<Rightarrow> trader_id \<Rightarrow> order_data list \<Rightarrow> order_data list" where
  "eligible pol trader os = filter (\<lambda>ord. pol = STP_None \<or> o_trader ord \<noteq> trader) os"

lemma in_order_simps [simp]:
  "in_order [] = []" "in_order ((p, os) # m) = os @ in_order m"
  by (simp_all add: in_order_def)

lemma eligible_simps [simp]:
  "eligible pol trader [] = []"
  "eligible pol trader (ord # os) =
     (if pol = STP_None \<or> o_trader ord \<noteq> trader then ord # eligible pol trader os
      else eligible pol trader os)"
  "eligible pol trader (os @ os') = eligible pol trader os @ eligible pol trader os'"
  by (simp_all add: eligible_def)

text \<open>
  The trades hit an initial part of the eligible orders, and every maker but the last is filled
  completely.
\<close>

definition hits_first :: "trade list \<Rightarrow> order_data list \<Rightarrow> bool" where
  "hits_first ts os \<longleftrightarrow>
     map t_maker_id ts = map o_id (take (length ts) os) \<and>
     map t_quantity (butlast ts) = map o_remaining (take (length ts - 1) os)"

lemma hits_first_Nil [simp]: "hits_first [] os"
  by (simp add: hits_first_def)

lemma hits_first_Cons:
  "t_maker_id t = o_id ord \<Longrightarrow> t_quantity t = o_remaining ord \<Longrightarrow> hits_first ts os \<Longrightarrow>
   hits_first (t # ts) (ord # os)"
  by (cases ts) (simp_all add: hits_first_def)

lemma hits_first_append:
  "map t_maker_id ts = map o_id os \<Longrightarrow> map t_quantity ts = map o_remaining os \<Longrightarrow>
   hits_first us os' \<Longrightarrow> hits_first (ts @ us) (os @ os')"
proof (induction ts arbitrary: os)
  case (Cons t ts)
  then show ?case by (cases os) (auto intro: hits_first_Cons)
qed simp

lemma hits_first_more: "hits_first ts os \<Longrightarrow> hits_first ts (os @ os')"
proof -
  assume *: "hits_first ts os"
  then have "length ts = length (take (length ts) os)"
    unfolding hits_first_def by (metis length_map)
  then show ?thesis using * by (simp add: hits_first_def)
qed

lemma spec_match_level_first:
  "spec_match_level pol tk rem os = (os', r, ts, stp) \<Longrightarrow>
   hits_first ts (eligible pol (tk_trader tk) os) \<and>
   (\<not> stp \<and> os' = [] \<longrightarrow>
      map t_maker_id ts = map o_id (eligible pol (tk_trader tk) os) \<and>
      map t_quantity ts = map o_remaining (eligible pol (tk_trader tk) os))"
proof (induction rule: spec_match_level_rule)
  case (Partial rem mk os)
  then show ?case by (auto simp: hits_first_def)
qed (auto intro: hits_first_Cons)

lemma spec_match_first:
  "spec_match pol tk rem m = (m', r, ts, stp) \<Longrightarrow>
   hits_first ts (eligible pol (tk_trader tk) (in_order m))"
proof (induction rule: spec_match_rule)
  case (Within rem p os m os' r ts stp)
  then show ?case using spec_match_level_first[OF Within(3)] by (simp add: hits_first_more)
next
  case (Through rem p os m r1 ts1 m' r ts stp)
  then show ?case using spec_match_level_first[OF Through(3)] by (simp add: hits_first_append)
qed simp_all

section \<open>Time stamps\<close>

text \<open>Within a level the sequence numbers grow, and all are below the next one.\<close>

definition stamped :: "sequence \<Rightarrow> order_data list omap \<Rightarrow> bool" where
  "stamped n m \<longleftrightarrow>
     (\<forall>(p, os) \<in> set m. sorted_wrt (<) (map o_sequence os) \<and> (\<forall>ord \<in> set os. o_sequence ord < n))"

lemma stamped_simps [simp]:
  "stamped n []" "stamped n (m @ m') \<longleftrightarrow> stamped n m \<and> stamped n m'"
  "stamped n ((p, os) # m) \<longleftrightarrow>
     sorted_wrt (<) (map o_sequence os) \<and> (\<forall>ord \<in> set os. o_sequence ord < n) \<and> stamped n m"
  by (auto simp: stamped_def)

lemma stamped_mono: "stamped n m \<Longrightarrow> n \<le> n' \<Longrightarrow> stamped n' m"
  unfolding stamped_def by (fastforce intro: order.strict_trans2)

lemma spec_match_level_stamps:
  "spec_match_level pol tk rem os = (os', r, ts, stp) \<Longrightarrow>
   suffix (map o_sequence os') (map o_sequence os)"
  by (induction rule: spec_match_level_rule) (auto simp: suffix_Cons)

lemma suffix_stamped:
  assumes "suffix (map o_sequence os') (map o_sequence os)" "stamped n [(p, os)]"
  shows "stamped n [(q, os')]"
proof -
  have "\<forall>x \<in> set (map o_sequence os). x < n" using assms(2) by simp
  then have "\<forall>x \<in> set (map o_sequence os'). x < n" using set_mono_suffix[OF assms(1)] by blast
  moreover have "sorted_wrt (<) (map o_sequence os')"
    using assms by (auto simp: suffix_def sorted_wrt_append)
  ultimately show ?thesis by simp
qed

lemma spec_match_stamped:
  "spec_match pol tk rem m = (m', r, ts, stp) \<Longrightarrow> stamped n m \<Longrightarrow> stamped n m'"
proof (induction rule: spec_match_rule)
  case (Within rem p os m os' r ts stp)
  then show ?case using suffix_stamped[OF spec_match_level_stamps[OF Within(3)], of n p p] by simp
qed simp_all

lemma spec_rest_stamped:
  assumes "ladder_wf sd m" "stamped n m" "o_sequence ord = n" "n < n'"
  shows "stamped n' (spec_rest sd ord m)"
proof -
  have m: "stamped n' m" using stamped_mono[OF assms(2)] assms(4) by simp
  show ?thesis
    by (rule spec_rest_cases[OF assms(1), of ord])
      (use m assms in \<open>auto simp: sorted_wrt_append intro: less_trans\<close>)
qed

lemma spec_remove_stamped: "stamped n m \<Longrightarrow> stamped n (spec_remove oid m)"
proof (induction m)
  case (Cons x m)
  have "sorted_wrt (<) (map o_sequence (filter f os))" if "sorted_wrt (<) (map o_sequence os)"
    for f and os :: "order_data list"
    using that by (induction os) auto
  then show ?case using Cons by (cases x) auto
qed simp

definition stamps_ok :: "book_spec \<Rightarrow> bool" where
  "stamps_ok A \<longleftrightarrow> (\<forall>sd. stamped (sp_next_seq A) (side_of sd A))"

lemma stamps_okI:
  "stamped (sp_next_seq A) (side_of sd A) \<Longrightarrow> stamped (sp_next_seq A) (side_of (other_side sd) A) \<Longrightarrow>
   stamps_ok A"
  unfolding stamps_ok_def
proof
  fix x assume *: "stamped (sp_next_seq A) (side_of sd A)"
    "stamped (sp_next_seq A) (side_of (other_side sd) A)"
  consider "x = sd" | "x = other_side sd" by (cases x; cases sd) (simp_all add: other_side_def)
  then show "stamped (sp_next_seq A) (side_of x A)" by cases (use * in simp_all)
qed

text \<open>A submission uses at most one number; the counter must not wrap.\<close>

lemma spec_submit_stamps:
  assumes "spec_submit pol oid trader sd price q A = (res, A')" "spec_wf A" "stamps_ok A"
    and "sp_next_seq A + 1 \<noteq> 0"
  shows "stamps_ok A'" "sp_next_seq A' = sp_next_seq A \<or> sp_next_seq A' = sp_next_seq A + 1"
proof -
  let ?own = "own_side sd" and ?opp = "other_side (own_side sd)"
  have old: "stamped (sp_next_seq A) (side_of s A)" for s using assms(3) by (simp add: stamps_ok_def)
  have lt: "sp_next_seq A < sp_next_seq A + 1"
    using assms(4) unatSuc[of "sp_next_seq A"] by (simp add: word_less_nat_alt add.commute)
  show "stamps_ok A'"
    using assms(1)
  proof (cases rule: spec_submit_cases)
    case Refused
    then show ?thesis using assms(3) by (simp add: stamps_ok_def)
  next
    case (Stopped m r ts)
    then show ?thesis
      using spec_match_stamped[OF Stopped(3) old] old
      by (intro stamps_okI[of _ ?opp]) (simp_all add: side_of_set_other)
  next
    case (Filled m ts)
    then show ?thesis
      using spec_match_stamped[OF Filled(3) old] old
      by (intro stamps_okI[of _ ?opp]) (simp_all add: side_of_set_other)
  next
    case (Rested m r ts)
    have "stamped (sp_next_seq A + 1) m"
      by (rule stamped_mono[OF spec_match_stamped[OF Rested(4) old] less_imp_le[OF lt]])
    moreover have "stamped (sp_next_seq A + 1) (spec_rest ?own
        (resting_order oid trader sd price r (sp_next_seq A)) (side_of ?own A))"
      by (rule spec_rest_stamped[OF spec_wf_side[OF assms(2)] old _ lt]) simp
    ultimately show ?thesis
      using Rested(6) by (intro stamps_okI[of _ ?own]) (simp_all add: side_of_set_other set_side_trades)
  qed
  show "sp_next_seq A' = sp_next_seq A \<or> sp_next_seq A' = sp_next_seq A + 1"
    using assms(1) by (cases rule: spec_submit_cases) simp_all
qed

end
