(* ===== verification/Cyclic.thy ===== *)
theory Cyclic
  imports Prelude
begin

text \<open>
  Positions of a circular array of \<open>cap\<close> slots: the successor, the clockwise distance, and the
  combinatorial core of backward-shift deletion, stated over an occupancy predicate and a home
  function so that no hash table appears in it.
\<close>

section \<open>Successor and distance\<close>

definition cnext :: "nat \<Rightarrow> nat \<Rightarrow> nat" where
  "cnext cap i = (if Suc i = cap then 0 else Suc i)"

definition cdist :: "nat \<Rightarrow> nat \<Rightarrow> nat \<Rightarrow> nat" where
  "cdist cap a b = (if a \<le> b then b - a else b + cap - a)"

lemma cnext_less [simp]: "i < cap \<Longrightarrow> cnext cap i < cap"
  by (auto simp: cnext_def)

lemma cdist_less [simp]: "a < cap \<Longrightarrow> b < cap \<Longrightarrow> cdist cap a b < cap"
  by (auto simp: cdist_def)

lemma cdist_self [simp]: "cdist cap a a = 0"
  by (simp add: cdist_def)

lemma cdist_eq_0 [simp]: "a < cap \<Longrightarrow> b < cap \<Longrightarrow> cdist cap a b = 0 \<longleftrightarrow> a = b"
  by (auto simp: cdist_def)

lemma cdist_inj: "a < cap \<Longrightarrow> b < cap \<Longrightarrow> c < cap \<Longrightarrow> cdist cap a b = cdist cap a c \<Longrightarrow> b = c"
  by (auto simp: cdist_def split: if_splits)

lemma cdist_next:
  "a < cap \<Longrightarrow> b < cap \<Longrightarrow> cnext cap b \<noteq> a \<Longrightarrow> cdist cap a (cnext cap b) = Suc (cdist cap a b)"
  by (auto simp: cdist_def cnext_def split: if_splits)

lemma cdist_next_left:
  "a < cap \<Longrightarrow> b < cap \<Longrightarrow> a \<noteq> b \<Longrightarrow> Suc (cdist cap (cnext cap a) b) = cdist cap a b"
  by (auto simp: cdist_def cnext_def split: if_splits)

lemma cdist_next_le:
  "a < cap \<Longrightarrow> b < cap \<Longrightarrow> q < cap \<Longrightarrow> cnext cap b \<noteq> a \<Longrightarrow>
   cdist cap a q \<le> cdist cap a (cnext cap b) \<longleftrightarrow> cdist cap a q \<le> cdist cap a b \<or> q = cnext cap b"
  by (metis cdist_inj cdist_next cnext_less le_Suc_eq)

section \<open>Probe chains\<close>

text \<open>
  Every occupied position is reached from its home over occupied positions, but for the one
  position \<open>hole\<close>, if there is one.
\<close>

definition probe_ok :: "nat \<Rightarrow> (nat \<Rightarrow> bool) \<Rightarrow> (nat \<Rightarrow> nat) \<Rightarrow> nat option \<Rightarrow> bool" where
  "probe_ok cap occ hm hole \<longleftrightarrow>
     (\<forall>p<cap. occ p \<longrightarrow>
        (\<forall>q<cap. cdist cap (hm p) q < cdist cap (hm p) p \<longrightarrow> occ q \<or> hole = Some q))"

lemma probe_okD:
  "probe_ok cap occ hm hole \<Longrightarrow> p < cap \<Longrightarrow> occ p \<Longrightarrow> q < cap \<Longrightarrow>
   cdist cap (hm p) q < cdist cap (hm p) p \<Longrightarrow> occ q \<or> hole = Some q"
  by (simp add: probe_ok_def)

lemma probe_ok_cong:
  "(\<And>p. p < cap \<Longrightarrow> occ p = occ' p) \<Longrightarrow> (\<And>p. p < cap \<Longrightarrow> occ p \<Longrightarrow> hm p = hm' p) \<Longrightarrow>
   probe_ok cap occ hm hole = probe_ok cap occ' hm' hole"
  by (simp add: probe_ok_def)

text \<open>Filling a position keeps the chains, if its own chain is there.\<close>

lemma probe_ok_fill:
  assumes "probe_ok cap occ hm None"
    and "\<And>q. q < cap \<Longrightarrow> cdist cap h q < cdist cap h i \<Longrightarrow> occ q"
    and "\<not> occ i"
  shows "probe_ok cap (occ(i := True)) (hm(i := h)) None"
  using assms by (auto simp: probe_ok_def)

section \<open>Backward-shift deletion\<close>

text \<open>
  The state of the deletion loop: the hole \<open>i\<close>, the last position \<open>j\<close> it has looked at, and an
  empty position \<open>e\<close> other than the hole, which bounds the loop.  The positions from behind the
  hole to \<open>j\<close> are occupied, and none of their chains runs through the hole.
\<close>

definition shift_inv ::
    "nat \<Rightarrow> (nat \<Rightarrow> bool) \<Rightarrow> (nat \<Rightarrow> nat) \<Rightarrow> nat \<Rightarrow> nat \<Rightarrow> nat \<Rightarrow> bool" where
  "shift_inv cap occ hm i j e \<longleftrightarrow>
     i < cap \<and> j < cap \<and> e < cap \<and> e \<noteq> i \<and> \<not> occ i \<and> \<not> occ e \<and>
     (\<forall>p<cap. occ p \<longrightarrow> hm p < cap) \<and> probe_ok cap occ hm (Some i) \<and>
     (\<forall>q<cap. q \<noteq> i \<longrightarrow> cdist cap i q \<le> cdist cap i j \<longrightarrow>
        occ q \<and> \<not> cdist cap (hm q) i < cdist cap (hm q) q)"

text \<open>The condition of the code, \<open>k\<close> cyclically in \<open>(i, j]\<close>: the chain avoids the hole.\<close>

lemma cannot_move_iff:
  assumes "i < cap" "j < cap" "k < cap" "i \<noteq> j"
  shows "(if i \<le> j then i < k \<and> k \<le> j else i < k \<or> k \<le> j) \<longleftrightarrow>
         \<not> cdist cap k i < cdist cap k j"
  using assms by (auto simp: cdist_def)

lemma shift_inv_start:
  assumes "probe_ok cap occ hm None" "\<forall>p<cap. occ p \<longrightarrow> hm p < cap"
    and "i < cap" "e < cap" "e \<noteq> i" "\<not> occ e"
  shows "shift_inv cap (occ(i := False)) hm i i e"
proof -
  have "probe_ok cap (occ(i := False)) hm (Some i)"
    unfolding probe_ok_def
  proof (intro allI impI)
    fix p q
    assume "p < cap" "(occ(i := False)) p" "q < cap" "cdist cap (hm p) q < cdist cap (hm p) p"
    then have "occ q" using probe_okD[OF assms(1), of p q] by (simp split: if_splits)
    then show "(occ(i := False)) q \<or> Some i = Some q" by auto
  qed
  then show ?thesis using assms(2-) by (simp add: shift_inv_def)
qed

lemma shift_inv_e_ahead:
  assumes "shift_inv cap occ hm i j e"
  shows "cdist cap i j < cdist cap i e"
  using assms unfolding shift_inv_def by (meson not_le)

lemma shift_inv_j_neq: "shift_inv cap occ hm i j e \<Longrightarrow> j \<noteq> e"
  using shift_inv_e_ahead by fastforce

text \<open>The bound of the loop shrinks with every step.\<close>

lemma shift_inv_measure:
  assumes "shift_inv cap occ hm i j e"
  shows "cdist cap (cnext cap j) e < cdist cap j e"
proof -
  have "Suc (cdist cap (cnext cap j) e) = cdist cap j e"
    using assms shift_inv_j_neq[OF assms]
    by (intro cdist_next_left) (auto simp: shift_inv_def)
  then show ?thesis by simp
qed

lemma shift_inv_stop:
  assumes inv: "shift_inv cap occ hm i j e" and free: "\<not> occ (cnext cap j)"
  shows "probe_ok cap occ hm None"
proof -
  let ?n = "cnext cap j"
  have lt: "i < cap" "j < cap" "e < cap" "e \<noteq> i" "\<not> occ i" "\<not> occ e"
    and hm: "\<And>p. p < cap \<Longrightarrow> occ p \<Longrightarrow> hm p < cap"
    and chain: "probe_ok cap occ hm (Some i)"
    and seen: "\<And>q. q < cap \<Longrightarrow> q \<noteq> i \<Longrightarrow> cdist cap i q \<le> cdist cap i j \<Longrightarrow>
        \<not> cdist cap (hm q) i < cdist cap (hm q) q"
    using inv by (auto simp: shift_inv_def)
  have n: "?n < cap" "?n \<noteq> i"
    using lt shift_inv_e_ahead[OF inv] by (auto simp: cnext_def cdist_def split: if_splits)
  have "\<not> cdist cap (hm p) i < cdist cap (hm p) p" if p: "p < cap" "occ p" for p
  proof
    assume thru: "cdist cap (hm p) i < cdist cap (hm p) p"
    have "p \<noteq> i" "p \<noteq> ?n" using p lt free by auto
    then have "\<not> cdist cap i p \<le> cdist cap i ?n"
      using seen[of p] p thru n lt by (auto simp: cdist_next_le)
    then have "cdist cap (hm p) ?n < cdist cap (hm p) p"
      using thru hm[OF p] p lt n by (auto simp: cdist_def split: if_splits)
    then show False using probe_okD[OF chain p(1,2) n(1)] free n by auto
  qed
  then show ?thesis using chain by (auto simp: probe_ok_def)
qed

lemma shift_inv_skip:
  assumes inv: "shift_inv cap occ hm i j e" and occ: "occ (cnext cap j)"
    and avoid: "\<not> cdist cap (hm (cnext cap j)) i < cdist cap (hm (cnext cap j)) (cnext cap j)"
  shows "shift_inv cap occ hm i (cnext cap j) e"
proof -
  have "i < cap" "j < cap" "cnext cap j \<noteq> i"
    using inv occ by (auto simp: shift_inv_def)
  then have "cdist cap i q \<le> cdist cap i (cnext cap j) \<longleftrightarrow>
      cdist cap i q \<le> cdist cap i j \<or> q = cnext cap j" if "q < cap" for q
    using that by (intro cdist_next_le) auto
  then show ?thesis using assms unfolding shift_inv_def by (metis cnext_less)
qed

lemma shift_inv_move:
  assumes inv: "shift_inv cap occ hm i j e" and occ: "occ (cnext cap j)"
    and thru: "cdist cap (hm (cnext cap j)) i < cdist cap (hm (cnext cap j)) (cnext cap j)"
  shows "shift_inv cap (occ(i := True, cnext cap j := False)) (hm(i := hm (cnext cap j)))
           (cnext cap j) (cnext cap j) e"
proof -
  let ?n = "cnext cap j"
  let ?occ = "occ(i := True, ?n := False)" and ?hm = "hm(i := hm ?n)"
  have lt: "i < cap" "j < cap" "e < cap" "e \<noteq> i" "\<not> occ i" "\<not> occ e" "?n < cap" "?n \<noteq> i" "e \<noteq> ?n"
    and hm: "\<And>p. p < cap \<Longrightarrow> occ p \<Longrightarrow> hm p < cap"
    and chain: "probe_ok cap occ hm (Some i)"
    using inv occ by (auto simp: shift_inv_def)
  have "probe_ok cap ?occ ?hm (Some ?n)"
    unfolding probe_ok_def
  proof (intro allI impI)
    fix p q assume *: "p < cap" "?occ p" "q < cap" "cdist cap (?hm p) q < cdist cap (?hm p) p"
    show "?occ q \<or> Some ?n = Some q"
    proof (cases "p = i")
      case True
      with * thru have "cdist cap (hm ?n) q < cdist cap (hm ?n) ?n" "q \<noteq> i"
        by auto
      then show ?thesis using probe_okD[OF chain lt(7) occ *(3)] by auto
    next
      case False
      with * have "occ p" "cdist cap (hm p) q < cdist cap (hm p) p" by (auto split: if_splits)
      then show ?thesis using probe_okD[OF chain *(1) _ *(3)] by auto
    qed
  qed
  then show ?thesis using lt hm occ by (auto simp: shift_inv_def)
qed

end
