(* ===== verification/FlatHashMap.thy ===== *)
theory FlatHashMap
  imports Interfaces Cyclic
begin

text \<open>
  The open-addressing hash map of \<open>include/obe/FlatHashMap.hpp\<close>, keyed by order ids: linear
  probing over three parallel arrays and backward-shift deletion.

  Every array access is checked (\<open>fetch\<close>, \<open>store\<close>) and every probe loop is a
  \<open>partial_function\<close>, so \<open>None\<close> is an access out of range or a loop that does not end.  The
  table sizes are natural numbers: each is the length of an array that is allocated, so it never
  reaches the range of \<open>std::size_t\<close>.  The arithmetic on values a caller supplies
  (\<open>reserve\<close>, the constructor) and on hash values is done on 64-bit words.
\<close>

section \<open>The table\<close>

record 'v flat_map =
  fm_keys :: "order_id list"
  fm_values :: "'v list"
  fm_state :: "8 word list"
  fm_capacity :: nat
  fm_mask :: nat
  fm_size :: nat

definition kEmpty :: "8 word" where "kEmpty = 0"
definition kOccupied :: "8 word" where "kOccupied = 1"

definition fm_round_up_pow2 :: "64 word \<Rightarrow> 64 word" where
  "fm_round_up_pow2 v = (if v < 2 then 2 else pow2_ceiling v)"

text \<open>The SplitMix64 finalizer.\<close>

definition fm_mix :: "order_id \<Rightarrow> 64 word" where
  "fm_mix key =
     (let x = key XOR drop_bit 30 key;
          x = x * 0xbf58476d1ce4e5b9;
          x = x XOR drop_bit 27 x;
          x = x * 0x94d049bb133111eb
      in x XOR drop_bit 31 x)"

definition fm_home :: "'v flat_map \<Rightarrow> order_id \<Rightarrow> nat" where
  "fm_home m key = unat (fm_mix key) AND fm_mask m"

text \<open>The probe step \<open>(i + 1) & mask_\<close>.\<close>

definition fm_next :: "'v flat_map \<Rightarrow> nat \<Rightarrow> nat" where
  "fm_next m i = (i + 1) AND fm_mask m"

section \<open>Lookup\<close>

text \<open>
  \<open>find\<close>, \<open>erase\<close> run the same probe loop; it yields the slot whose key matches, or nothing
  when it meets an empty slot.
\<close>

partial_function (option) fm_probe :: "'v flat_map \<Rightarrow> order_id \<Rightarrow> nat \<Rightarrow> nat option option" where
  "fm_probe m key i =
     do {
       s \<leftarrow> fetch (fm_state m) i;
       if s = kEmpty then Some None
       else
         do {
           hit \<leftarrow> (if s = kOccupied
                  then do { k \<leftarrow> fetch (fm_keys m) i; Some (k = key) }
                  else Some False);
           if hit then Some (Some i) else fm_probe m key (fm_next m i)
         }
     }"

definition fm_find :: "'v flat_map \<Rightarrow> order_id \<Rightarrow> 'v option option" where
  "fm_find m key =
     do {
       r \<leftarrow> fm_probe m key (fm_home m key);
       case r of
         None \<Rightarrow> Some None
       | Some i \<Rightarrow> do { v \<leftarrow> fetch (fm_values m) i; Some (Some v) }
     }"

definition fm_contains :: "'v flat_map \<Rightarrow> order_id \<Rightarrow> bool option" where
  "fm_contains m key = do { r \<leftarrow> fm_find m key; Some (r \<noteq> None) }"

section \<open>Insertion and rehashing\<close>

text \<open>The loop of \<open>insert\<close>: overwrite a match, otherwise take the first slot that is free.\<close>

partial_function (option) fm_insert_loop ::
    "'v flat_map \<Rightarrow> order_id \<Rightarrow> 'v \<Rightarrow> nat \<Rightarrow> 'v flat_map option" where
  "fm_insert_loop m key v i =
     do {
       s \<leftarrow> fetch (fm_state m) i;
       if s = kOccupied then
         do {
           k \<leftarrow> fetch (fm_keys m) i;
           if k = key then
             do { vs \<leftarrow> store (fm_values m) i v; Some (m\<lparr>fm_values := vs\<rparr>) }
           else fm_insert_loop m key v (fm_next m i)
         }
       else
         do {
           ks \<leftarrow> store (fm_keys m) i key;
           vs \<leftarrow> store (fm_values m) i v;
           ss \<leftarrow> store (fm_state m) i kOccupied;
           Some (m\<lparr>fm_keys := ks, fm_values := vs, fm_state := ss, fm_size := fm_size m + 1\<rparr>)
         }
     }"

text \<open>The empty table of \<open>new_cap\<close> slots that \<open>rehash\<close> starts from.\<close>

definition fm_blank :: "nat \<Rightarrow> ('v::default) flat_map" where
  "fm_blank new_cap =
     \<lparr>fm_keys = replicate new_cap 0, fm_values = replicate new_cap default,
      fm_state = replicate new_cap kEmpty, fm_capacity = new_cap, fm_mask = new_cap - 1,
      fm_size = 0\<rparr>"

text \<open>
  The re-insertion loop of \<open>rehash\<close>, over the slots \<open>ss\<close> of the old table \<open>old\<close>; \<open>ins\<close> is
  \<open>insert\<close>, which \<open>rehash\<close> calls and is called by.
\<close>

fun fm_reinsert ::
    "(('v::default) flat_map \<Rightarrow> order_id \<Rightarrow> 'v \<Rightarrow> 'v flat_map option) \<Rightarrow>
     'v flat_map \<Rightarrow> nat list \<Rightarrow> 'v flat_map \<Rightarrow> 'v flat_map option" where
  "fm_reinsert ins old [] m = Some m"
| "fm_reinsert ins old (s # ss) m =
     do {
       st \<leftarrow> fetch (fm_state old) s;
       m' \<leftarrow> (if st = kOccupied then
                do {
                  k \<leftarrow> fetch (fm_keys old) s;
                  v \<leftarrow> fetch (fm_values old) s;
                  ins m k v
                }
              else Some m);
       fm_reinsert ins old ss m'
     }"

definition fm_rehash_with ::
    "(('v::default) flat_map \<Rightarrow> order_id \<Rightarrow> 'v \<Rightarrow> 'v flat_map option) \<Rightarrow>
     'v flat_map \<Rightarrow> nat \<Rightarrow> 'v flat_map option" where
  "fm_rehash_with ins old new_cap =
     fm_reinsert ins old [0..<length (fm_state old)] (fm_blank new_cap)"

lemma fm_reinsert_mono [partial_function_mono]:
  assumes "\<And>m k v. mono_option (\<lambda>f. ins f m k v)"
  shows "mono_option (\<lambda>f. fm_reinsert (ins f) old ss m)"
proof (induction ss arbitrary: m)
  case Nil
  show ?case by (simp add: monotoneI option.leq_refl)
next
  case (Cons s ss)
  show ?case
    unfolding fm_reinsert.simps
    by (intro bind_mono option.const_mono if_mono assms Cons.IH)
qed

lemma fm_rehash_with_mono [partial_function_mono]:
  assumes "\<And>m k v. mono_option (\<lambda>f. ins f m k v)"
  shows "mono_option (\<lambda>f. fm_rehash_with (ins f) old new_cap)"
  unfolding fm_rehash_with_def by (rule fm_reinsert_mono [OF assms])

partial_function (option) fm_insert ::
    "('v::default) flat_map \<Rightarrow> order_id \<Rightarrow> 'v \<Rightarrow> 'v flat_map option" where
  "fm_insert m key v =
     do {
       m' \<leftarrow> (if (fm_size m + 1) * 8 \<ge> fm_capacity m * 7
             then fm_rehash_with fm_insert m (fm_capacity m * 2)
             else Some m);
       fm_insert_loop m' key v (fm_home m' key)
     }"

definition fm_rehash :: "('v::default) flat_map \<Rightarrow> nat \<Rightarrow> 'v flat_map option" where
  "fm_rehash old new_cap = fm_rehash_with fm_insert old new_cap"

text \<open>The constructor rehashes a table without storage.\<close>

definition fm_unallocated :: "'v flat_map" where
  "fm_unallocated =
     \<lparr>fm_keys = [], fm_values = [], fm_state = [], fm_capacity = 0, fm_mask = 0, fm_size = 0\<rparr>"

definition fm_new :: "64 word \<Rightarrow> ('v::default) flat_map option" where
  "fm_new initial_capacity =
     fm_rehash fm_unallocated
       (unat (fm_round_up_pow2 (if initial_capacity < 8 then 8 else initial_capacity)))"

definition fm_reserve :: "64 word \<Rightarrow> ('v::default) flat_map \<Rightarrow> 'v flat_map option" where
  "fm_reserve n m =
     (let need = unat (fm_round_up_pow2 ((n * 8) div 7 + 1))
      in if need > fm_capacity m then fm_rehash m need else Some m)"

section \<open>Deletion\<close>

text \<open>
  The loop of \<open>erase_at\<close> (Knuth 6.4, Algorithm R): \<open>i\<close> is the hole, \<open>j\<close> the slot looked at
  last.
\<close>

partial_function (option) fm_shift :: "'v flat_map \<Rightarrow> nat \<Rightarrow> nat \<Rightarrow> 'v flat_map option" where
  "fm_shift m i j0 =
     (let j = fm_next m j0
      in do {
        s \<leftarrow> fetch (fm_state m) j;
        if s = kEmpty then Some m
        else
          do {
            kj \<leftarrow> fetch (fm_keys m) j;
            let k = fm_home m kj;
            let cannot_move = (if i \<le> j then i < k \<and> k \<le> j else i < k \<or> k \<le> j);
            if cannot_move then fm_shift m i j
            else
              do {
                vj \<leftarrow> fetch (fm_values m) j;
                ks \<leftarrow> store (fm_keys m) i kj;
                vs \<leftarrow> store (fm_values m) i vj;
                ss \<leftarrow> store (fm_state m) i kOccupied;
                ss' \<leftarrow> store ss j kEmpty;
                fm_shift (m\<lparr>fm_keys := ks, fm_values := vs, fm_state := ss'\<rparr>) j j
              }
          }
      })"

definition fm_erase_at :: "'v flat_map \<Rightarrow> nat \<Rightarrow> 'v flat_map option" where
  "fm_erase_at m i =
     do {
       ss \<leftarrow> store (fm_state m) i kEmpty;
       fm_shift (m\<lparr>fm_state := ss, fm_size := fm_size m - 1\<rparr>) i i
     }"

definition fm_erase :: "'v flat_map \<Rightarrow> order_id \<Rightarrow> (bool \<times> 'v flat_map) option" where
  "fm_erase m key =
     do {
       r \<leftarrow> fm_probe m key (fm_home m key);
       case r of
         None \<Rightarrow> Some (False, m)
       | Some i \<Rightarrow> do { m' \<leftarrow> fm_erase_at m i; Some (True, m') }
     }"

definition fm_empty :: "'v flat_map \<Rightarrow> bool" where
  "fm_empty m \<longleftrightarrow> fm_size m = 0"

section \<open>Well-formed tables\<close>

definition fm_occ :: "'v flat_map \<Rightarrow> nat \<Rightarrow> bool" where
  "fm_occ m i \<longleftrightarrow> i < fm_capacity m \<and> fm_state m ! i = kOccupied"

definition fm_slot_home :: "'v flat_map \<Rightarrow> nat \<Rightarrow> nat" where
  "fm_slot_home m i = fm_home m (fm_keys m ! i)"

text \<open>The arrays have one length, a power of two, and a slot is empty or occupied.\<close>

definition fm_shape :: "'v flat_map \<Rightarrow> bool" where
  "fm_shape m \<longleftrightarrow>
     (\<exists>k\<ge>1. fm_capacity m = 2 ^ k) \<and> fm_mask m = fm_capacity m - 1 \<and>
     length (fm_keys m) = fm_capacity m \<and> length (fm_values m) = fm_capacity m \<and>
     length (fm_state m) = fm_capacity m \<and>
     (\<forall>i<fm_capacity m. fm_state m ! i = kEmpty \<or> fm_state m ! i = kOccupied)"

definition fm_inv :: "'v flat_map \<Rightarrow> bool" where
  "fm_inv m \<longleftrightarrow>
     fm_shape m \<and> inj_on (\<lambda>i. fm_keys m ! i) {i. fm_occ m i} \<and>
     fm_size m = card {i. fm_occ m i} \<and> fm_size m * 8 < fm_capacity m * 7 \<and>
     probe_ok (fm_capacity m) (fm_occ m) (fm_slot_home m) None"

text \<open>The map a table stands for.\<close>

definition fm_alpha :: "'v flat_map \<Rightarrow> order_id \<Rightarrow> 'v option" where
  "fm_alpha m =
     map_of (map (\<lambda>i. (fm_keys m ! i, fm_values m ! i)) (filter (fm_occ m) [0..<fm_capacity m]))"

lemma k_states [simp]: "kEmpty \<noteq> kOccupied" "kOccupied \<noteq> kEmpty"
  by (simp_all add: kEmpty_def kOccupied_def)

lemma fm_shapeD:
  assumes "fm_shape m"
  shows "length (fm_keys m) = fm_capacity m" "length (fm_values m) = fm_capacity m"
    "length (fm_state m) = fm_capacity m" "0 < fm_capacity m" "2 \<le> fm_capacity m"
  using assms self_le_power[of "2::nat"] by (auto simp: fm_shape_def)

lemma fm_shape_state:
  "fm_shape m \<Longrightarrow> i < fm_capacity m \<Longrightarrow> fm_state m ! i = (if fm_occ m i then kOccupied else kEmpty)"
  by (auto simp: fm_shape_def fm_occ_def)

lemma fm_home_less [simp]: "fm_shape m \<Longrightarrow> fm_home m key < fm_capacity m"
  by (auto simp: fm_shape_def fm_home_def and_pow2_mod)

lemma fm_slot_home_less [simp]: "fm_shape m \<Longrightarrow> fm_slot_home m i < fm_capacity m"
  by (simp add: fm_slot_home_def)

lemma fm_next_cnext [simp]:
  "fm_shape m \<Longrightarrow> i < fm_capacity m \<Longrightarrow> fm_next m i = cnext (fm_capacity m) i"
  by (auto simp: fm_shape_def fm_next_def cnext_def and_pow2_mod)

lemma fm_occ_less: "fm_occ m i \<Longrightarrow> i < fm_capacity m"
  by (simp add: fm_occ_def)

lemma fm_occ_finite [simp]: "finite {i. fm_occ m i}"
  by (rule finite_subset [of _ "{..<fm_capacity m}"]) (auto simp: fm_occ_def)

lemma fm_invD:
  assumes "fm_inv m"
  shows "fm_shape m" "fm_size m = card {i. fm_occ m i}" "fm_size m * 8 < fm_capacity m * 7"
    "probe_ok (fm_capacity m) (fm_occ m) (fm_slot_home m) None"
    "\<And>i j. fm_occ m i \<Longrightarrow> fm_occ m j \<Longrightarrow> fm_keys m ! i = fm_keys m ! j \<Longrightarrow> i = j"
  using assms by (auto simp: fm_inv_def dest: inj_onD)

text \<open>The load bound leaves an empty slot, on which every probe loop ends.\<close>

lemma fm_inv_free_slot:
  assumes "fm_inv m"
  obtains e where "e < fm_capacity m" "\<not> fm_occ m e"
proof -
  have "card {i. fm_occ m i} < fm_capacity m"
    using fm_invD(2,3)[OF assms] by simp
  then have "\<not> {..<fm_capacity m} \<subseteq> {i. fm_occ m i}"
    using card_mono[OF fm_occ_finite, of "{..<fm_capacity m}" m] by auto
  then show thesis using that by blast
qed

lemma fm_alpha_eq_Some:
  assumes "fm_inv m"
  shows "fm_alpha m k = Some v \<longleftrightarrow> (\<exists>i. fm_occ m i \<and> fm_keys m ! i = k \<and> fm_values m ! i = v)"
proof -
  have "distinct (map fst (map (\<lambda>i. (fm_keys m ! i, fm_values m ! i))
      (filter (fm_occ m) [0..<fm_capacity m])))"
    using fm_invD(5)[OF assms] by (auto simp: distinct_map inj_on_def)
  then show ?thesis
    unfolding fm_alpha_def by (simp only: map_of_eq_Some_iff) (force simp: fm_occ_def)
qed

lemma fm_alpha_eq_None:
  "fm_alpha m k = None \<longleftrightarrow> (\<forall>i. fm_occ m i \<longrightarrow> fm_keys m ! i \<noteq> k)"
  by (force simp: fm_alpha_def map_of_eq_None_iff fm_occ_def)

lemma fm_size_card:
  assumes "fm_inv m"
  shows "fm_size m = card (dom (fm_alpha m))"
proof -
  have "dom (fm_alpha m) = (\<lambda>i. fm_keys m ! i) ` {i. fm_occ m i}"
    using fm_alpha_eq_None[of m] by (auto simp: dom_def)
  then show ?thesis
    using assms by (simp add: card_image fm_inv_def)
qed

lemma fm_alpha_finite: "finite (dom (fm_alpha m))"
proof -
  have "dom (fm_alpha m) = (\<lambda>i. fm_keys m ! i) ` {i. fm_occ m i}"
    using fm_alpha_eq_None[of m] by (auto simp: dom_def)
  then show ?thesis by simp
qed

section \<open>Probing\<close>

text \<open>
  The slot where the probe sequence of a key stops: the first one that is empty or holds the
  key.
\<close>

definition fm_stop :: "'v flat_map \<Rightarrow> order_id \<Rightarrow> nat \<Rightarrow> bool" where
  "fm_stop m key p \<longleftrightarrow>
     p < fm_capacity m \<and> (fm_occ m p \<longrightarrow> fm_keys m ! p = key) \<and>
     (\<forall>q<fm_capacity m. cdist (fm_capacity m) (fm_home m key) q
        < cdist (fm_capacity m) (fm_home m key) p \<longrightarrow> fm_occ m q \<and> fm_keys m ! q \<noteq> key)"

lemma fm_stop_exists:
  assumes "fm_inv m"
  obtains p where "fm_stop m key p"
proof -
  let ?d = "cdist (fm_capacity m) (fm_home m key)"
  let ?P = "\<lambda>x. x < fm_capacity m \<and> (fm_occ m x \<longrightarrow> fm_keys m ! x = key)"
  obtain e where "?P e" using fm_inv_free_slot[OF assms] by blast
  then obtain p where "?P p" "\<And>y. ?P y \<Longrightarrow> ?d p \<le> ?d y"
    using ex_has_least_nat[of ?P e ?d] by blast
  then have "fm_stop m key p" unfolding fm_stop_def by (metis not_le)
  then show thesis by (rule that)
qed

text \<open>Both probe loops walk from the home slot to that slot.\<close>

lemma fm_walk:
  assumes shape: "fm_shape m" and stop: "fm_stop m key p"
    and i: "i < fm_capacity m"
    and le: "cdist (fm_capacity m) (fm_home m key) i \<le> cdist (fm_capacity m) (fm_home m key) p"
  shows "fm_probe m key i = fm_probe m key p \<and> fm_insert_loop m key v i = fm_insert_loop m key v p"
  using i le
proof (induction "cdist (fm_capacity m) i p" arbitrary: i)
  case 0
  then have "i = p" using stop by (auto simp: fm_stop_def)
  then show ?case by simp
next
  case (Suc d)
  let ?c = "fm_capacity m" and ?h = "fm_home m key"
  have p: "p < ?c" and h: "?h < ?c" and ne: "i \<noteq> p"
    using stop shape Suc.hyps(2) by (auto simp: fm_stop_def)
  have "cdist ?c ?h i \<noteq> cdist ?c ?h p" using cdist_inj[OF h Suc.prems(1) p] ne by auto
  then have lt: "cdist ?c ?h i < cdist ?c ?h p" using Suc.prems(2) by simp
  then have hit: "fm_occ m i" "fm_keys m ! i \<noteq> key"
    using stop Suc.prems(1) by (auto simp: fm_stop_def)
  have "cnext ?c i \<noteq> ?h"
    using lt h p Suc.prems(1) by (auto simp: cnext_def cdist_def split: if_splits)
  then have le': "cdist ?c ?h (cnext ?c i) \<le> cdist ?c ?h p"
    using lt h Suc.prems(1) by (simp add: cdist_next)
  have d: "d = cdist ?c (cnext ?c i) p"
    using cdist_next_left[OF Suc.prems(1) p ne] Suc.hyps(2) by simp
  have "fm_probe m key i = fm_probe m key (cnext ?c i)"
    using hit shape Suc.prems(1)
    by (subst fm_probe.simps) (simp add: fm_shapeD fm_shape_state)
  moreover have "fm_insert_loop m key v i = fm_insert_loop m key v (cnext ?c i)"
    using hit shape Suc.prems(1)
    by (subst fm_insert_loop.simps) (simp add: fm_shapeD fm_shape_state)
  ultimately show ?case using Suc.hyps(1)[OF d] Suc.prems(1) le' by simp
qed

lemma fm_probe_stop:
  assumes "fm_shape m" "fm_stop m key p"
  shows "fm_probe m key (fm_home m key) = Some (if fm_occ m p then Some p else None)"
proof -
  have "fm_probe m key (fm_home m key) = fm_probe m key p"
    using fm_walk[OF assms, of "fm_home m key"] assms(1) by simp
  also have "\<dots> = Some (if fm_occ m p then Some p else None)"
    using assms by (subst fm_probe.simps) (auto simp: fm_shapeD fm_shape_state fm_stop_def)
  finally show ?thesis .
qed

text \<open>An empty slot ends the chain of the key, so the key is not in the table.\<close>

lemma fm_stop_absent:
  assumes inv: "fm_inv m" and stop: "fm_stop m key p" and "\<not> fm_occ m p" "fm_occ m j"
  shows "fm_keys m ! j \<noteq> key"
proof
  assume key: "fm_keys m ! j = key"
  let ?c = "fm_capacity m" and ?h = "fm_home m key"
  have j: "j < ?c" and p: "p < ?c" and h: "?h < ?c" "fm_slot_home m j = ?h"
    using assms key by (auto simp: fm_stop_def fm_occ_less fm_slot_home_def fm_invD)
  have "\<not> cdist ?c ?h p < cdist ?c ?h j"
    using probe_okD[OF fm_invD(4)[OF inv] j assms(4) p] h assms(3) by auto
  moreover have "j \<noteq> p" using assms by auto
  then have "cdist ?c ?h j \<noteq> cdist ?c ?h p" using cdist_inj[OF h(1) j p] by auto
  ultimately have "fm_keys m ! j \<noteq> key" using stop j by (auto simp: fm_stop_def)
  then show False using key by simp
qed

lemma fm_stop_present:
  assumes "fm_inv m" "fm_stop m key p" "fm_occ m j" "fm_keys m ! j = key"
  shows "j = p"
  using assms fm_stop_absent[OF assms(1,2) _ assms(3)] fm_invD(5)[OF assms(1)]
  by (auto simp: fm_stop_def)

lemma fm_alpha_stop:
  assumes "fm_inv m" "fm_stop m key p"
  shows "fm_alpha m key = (if fm_occ m p then Some (fm_values m ! p) else None)"
proof (cases "fm_occ m p")
  case True
  then show ?thesis using assms by (auto simp: fm_alpha_eq_Some fm_stop_def)
next
  case False
  then show ?thesis using assms fm_stop_absent by (auto simp: fm_alpha_eq_None)
qed

lemma fm_find_ok: "fm_inv m \<Longrightarrow> fm_find m key = Some (fm_alpha m key)"
  by (rule fm_stop_exists[of m key])
    (auto simp: fm_find_def fm_probe_stop fm_alpha_stop fm_invD fm_shapeD fm_occ_less)

lemma fm_contains_ok: "fm_inv m \<Longrightarrow> fm_contains m key = Some (fm_alpha m key \<noteq> None)"
  by (simp add: fm_contains_def fm_find_ok)

section \<open>Insertion\<close>

text \<open>Both exits of the insertion loop write key, value and state of the stop slot.\<close>

definition fm_place :: "'v flat_map \<Rightarrow> order_id \<Rightarrow> 'v \<Rightarrow> nat \<Rightarrow> 'v flat_map" where
  "fm_place m key v p =
     m\<lparr>fm_keys := (fm_keys m)[p := key], fm_values := (fm_values m)[p := v],
       fm_state := (fm_state m)[p := kOccupied],
       fm_size := (if fm_occ m p then fm_size m else fm_size m + 1)\<rparr>"

lemma fm_insert_loop_stop:
  assumes "fm_shape m" "fm_stop m key p"
  shows "fm_insert_loop m key v (fm_home m key) = Some (fm_place m key v p)"
proof -
  have "fm_insert_loop m key v (fm_home m key) = fm_insert_loop m key v p"
    using fm_walk[OF assms, of "fm_home m key"] assms(1) by simp
  also have "\<dots> = Some (fm_place m key v p)"
  proof (cases "fm_occ m p")
    case True
    then have "(fm_keys m)[p := key] = fm_keys m" "(fm_state m)[p := kOccupied] = fm_state m"
      using assms(2) by (auto simp: fm_stop_def fm_occ_def list_update_same_conv list_update_id)
        (metis list_update_id)+
    with True show ?thesis
      using assms
      by (subst fm_insert_loop.simps)
        (auto simp: fm_shapeD fm_shape_state fm_stop_def fm_place_def)
  next
    case False
    with assms show ?thesis
      by (subst fm_insert_loop.simps)
        (auto simp: fm_shapeD fm_shape_state fm_stop_def fm_place_def)
  qed
  finally show ?thesis .
qed

lemma fm_place_simps [simp]:
  "fm_capacity (fm_place m key v p) = fm_capacity m"
  "fm_mask (fm_place m key v p) = fm_mask m"
  "fm_home (fm_place m key v p) k = fm_home m k"
  by (simp_all add: fm_place_def fm_home_def)

lemma fm_place_occ:
  assumes "fm_shape m" "p < fm_capacity m"
  shows "fm_occ (fm_place m key v p) = (fm_occ m)(p := True)"
  using assms by (auto simp: fm_occ_def fm_place_def fun_eq_iff nth_list_update fm_shapeD)

lemma fm_place_slot:
  assumes "fm_shape m" "p < fm_capacity m"
  shows "fm_keys (fm_place m key v p) ! i = (if i = p then key else fm_keys m ! i)"
    and "fm_values (fm_place m key v p) ! i = (if i = p then v else fm_values m ! i)"
  using assms by (auto simp: fm_place_def nth_list_update fm_shapeD)

lemma fm_place_shape: "fm_shape m \<Longrightarrow> fm_shape (fm_place m key v p)"
  by (simp add: fm_shape_def fm_place_def) (metis nth_list_update nth_list_update_neq)

lemma fm_place_inv:
  assumes inv: "fm_inv m" and stop: "fm_stop m key p"
    and room: "fm_size (fm_place m key v p) * 8 < fm_capacity m * 7"
  shows "fm_inv (fm_place m key v p)"
proof -
  let ?m = "fm_place m key v p"
  have shape: "fm_shape m" and p: "p < fm_capacity m"
    using inv stop by (auto simp: fm_invD fm_stop_def)
  note occ = fm_place_occ[OF shape p] and slot = fm_place_slot[OF shape p]
  have other: "fm_keys m ! j \<noteq> key" if "fm_occ m j" "j \<noteq> p" for j
    using fm_stop_present[OF inv stop that(1)] that(2) by auto
  have inj: "inj_on (\<lambda>i. fm_keys ?m ! i) {i. fm_occ ?m i}"
    using other fm_invD(5)[OF inv] by (auto simp: inj_on_def occ slot)
  have "{i. fm_occ ?m i} = insert p {i. fm_occ m i}" by (auto simp: occ)
  then have size: "fm_size ?m = card {i. fm_occ ?m i}"
    using fm_invD(2)[OF inv] by (simp add: fm_place_def card_insert_if)
  have home: "fm_slot_home ?m = (fm_slot_home m)(p := fm_home m key)"
    by (auto simp: fm_slot_home_def slot fun_eq_iff)
  have "probe_ok (fm_capacity m) ((fm_occ m)(p := True))
      ((fm_slot_home m)(p := fm_home m key)) None"
  proof (cases "fm_occ m p")
    case True
    then have "(fm_occ m)(p := True) = fm_occ m"
      "(fm_slot_home m)(p := fm_home m key) = fm_slot_home m"
      using stop by (auto simp: fm_stop_def fm_slot_home_def fun_eq_iff)
    then show ?thesis using fm_invD(4)[OF inv] by simp
  next
    case False
    then show ?thesis using fm_invD(4)[OF inv] stop
      by (intro probe_ok_fill) (auto simp: fm_stop_def)
  qed
  then show ?thesis
    using fm_place_shape[OF shape] inj size room by (simp add: fm_inv_def occ home)
qed

lemma fm_place_alpha:
  assumes inv: "fm_inv m" "fm_inv (fm_place m key v p)" and stop: "fm_stop m key p"
  shows "fm_alpha (fm_place m key v p) = (fm_alpha m)(key \<mapsto> v)"
proof (rule map_eq_by_Some)
  fix k w
  have shape: "fm_shape m" and p: "p < fm_capacity m"
    using inv stop by (auto simp: fm_invD fm_stop_def)
  note lookups = fm_alpha_eq_Some[OF inv(2)] fm_alpha_eq_Some[OF inv(1)]
    fm_place_occ[OF shape p] fm_place_slot[OF shape p]
  show "fm_alpha (fm_place m key v p) k = Some w \<longleftrightarrow> ((fm_alpha m)(key \<mapsto> v)) k = Some w"
  proof (cases "k = key")
    case True
    then show ?thesis
      using fm_stop_present[OF inv(1) stop] by (simp add: lookups) metis
  next
    case False
    then have "\<not> (fm_occ m p \<and> fm_keys m ! p = k)" using stop by (auto simp: fm_stop_def)
    with False show ?thesis by (simp add: lookups) metis
  qed
qed

text \<open>An insertion for which there is room does not rehash.\<close>

lemma fm_insert_room:
  assumes inv: "fm_inv m" and room: "(fm_size m + 1) * 8 < fm_capacity m * 7"
  obtains m' where "fm_insert m key v = Some m'" "fm_inv m'"
    "fm_alpha m' = (fm_alpha m)(key \<mapsto> v)" "fm_capacity m' = fm_capacity m"
    "fm_size m' \<le> fm_size m + 1"
proof -
  obtain p where stop: "fm_stop m key p" using fm_stop_exists[OF inv] .
  have "fm_insert m key v = Some (fm_place m key v p)"
    using room fm_insert_loop_stop[OF fm_invD(1)[OF inv] stop]
    by (subst fm_insert.simps) simp
  moreover have inv': "fm_inv (fm_place m key v p)"
    using inv stop room by (intro fm_place_inv) (simp_all add: fm_place_def)
  ultimately show thesis
    using that fm_place_alpha[OF inv inv' stop] by (simp add: fm_place_def)
qed

section \<open>Rehashing\<close>

lemma fm_blank_simps [simp]:
  "fm_capacity (fm_blank c) = c" "fm_size (fm_blank c) = 0"
  by (simp_all add: fm_blank_def)

lemma fm_blank_occ [simp]: "\<not> fm_occ (fm_blank c) i"
  by (simp add: fm_occ_def fm_blank_def)

lemma fm_blank_alpha [simp]: "fm_alpha (fm_blank c) = Map.empty"
  using fm_alpha_eq_None[of "fm_blank c"] by (auto simp: fun_eq_iff)

lemma fm_blank_inv: "1 \<le> k \<Longrightarrow> fm_inv (fm_blank (2 ^ k))"
  by (auto simp: fm_inv_def fm_shape_def probe_ok_def)
    (simp_all add: fm_blank_def)

text \<open>The occupied slots of a list of slots, and the map they stand for.\<close>

definition fm_occupied_in :: "'v flat_map \<Rightarrow> nat list \<Rightarrow> nat list" where
  "fm_occupied_in m ss = filter (\<lambda>s. fm_state m ! s = kOccupied) ss"

definition fm_put :: "'v flat_map \<Rightarrow> nat \<Rightarrow> (order_id \<Rightarrow> 'v option) \<Rightarrow> (order_id \<Rightarrow> 'v option)" where
  "fm_put m s f = f(fm_keys m ! s \<mapsto> fm_values m ! s)"

lemma fm_reinsert_ok:
  assumes "fm_inv m"
    and "(fm_size m + length (fm_occupied_in old ss)) * 8 < fm_capacity m * 7"
    and "\<And>s. s \<in> set ss \<Longrightarrow> s < length (fm_state old) \<and> s < length (fm_keys old) \<and> s < length (fm_values old)"
  shows "\<exists>m'. fm_reinsert fm_insert old ss m = Some m' \<and> fm_inv m' \<and>
    fm_capacity m' = fm_capacity m \<and>
    fm_alpha m' = fold (fm_put old) (fm_occupied_in old ss)
      (fm_alpha m)"
  using assms
proof (induction ss arbitrary: m)
  case Nil
  then show ?case by (simp add: fm_occupied_in_def)
next
  case (Cons s ss)
  have s: "s < length (fm_state old)" "s < length (fm_keys old)" "s < length (fm_values old)"
    using Cons.prems(3) by auto
  show ?case
  proof (cases "fm_state old ! s = kOccupied")
    case False
    show ?thesis
      using Cons.IH[of m] Cons.prems False s by (auto simp: fm_occupied_in_def)
  next
    case True
    then have room: "(fm_size m + 1 + length (fm_occupied_in old ss)) * 8 < fm_capacity m * 7"
      using Cons.prems(2) by (simp add: fm_occupied_in_def)
    then have "(fm_size m + 1) * 8 < fm_capacity m * 7" by simp
    then obtain m1 where m1: "fm_insert m (fm_keys old ! s) (fm_values old ! s) = Some m1"
      "fm_inv m1" "fm_alpha m1 = (fm_alpha m)(fm_keys old ! s \<mapsto> fm_values old ! s)"
      "fm_capacity m1 = fm_capacity m" "fm_size m1 \<le> fm_size m + 1"
      using fm_insert_room[OF Cons.prems(1)] by metis
    have "(fm_size m1 + length (fm_occupied_in old ss)) * 8 < fm_capacity m1 * 7"
      using room m1(4,5) by simp
    then have "\<exists>m'. fm_reinsert fm_insert old ss m1 = Some m' \<and> fm_inv m' \<and>
        fm_capacity m' = fm_capacity m1 \<and>
        fm_alpha m' = fold (fm_put old)
          (fm_occupied_in old ss) (fm_alpha m1)"
      using m1(2) Cons.prems(3) by (intro Cons.IH) auto
    moreover have "fm_alpha m1 = fm_put old s (fm_alpha m)"
      by (simp only: m1(3) fm_put_def)
    moreover have "fm_reinsert fm_insert old (s # ss) m = fm_reinsert fm_insert old ss m1"
      using m1(1) s True by simp
    ultimately show ?thesis
      using True m1(4) by (simp add: fm_occupied_in_def)
  qed
qed

text \<open>Writing entries with distinct keys one after the other is looking them up in the list.\<close>

lemma fm_put_fold:
  assumes "distinct (map (\<lambda>s. fm_keys m ! s) xs)"
  shows "fold (fm_put m) xs f = f ++ map_of (map (\<lambda>s. (fm_keys m ! s, fm_values m ! s)) xs)"
  using assms
proof (induction xs arbitrary: f)
  case (Cons x xs)
  let ?es = "\<lambda>xs. map (\<lambda>s. (fm_keys m ! s, fm_values m ! s)) xs"
  have "fold (fm_put m) (x # xs) f = fm_put m x f ++ map_of (?es xs)"
    using Cons.IH[of "fm_put m x f"] Cons.prems by simp
  also have "\<dots> = f ++ map_of (?es (x # xs))"
    unfolding fm_put_def
    using Cons.prems by (subst map_add_upd_left) (auto simp: dom_map_of_conv_image_fst)
  finally show ?case .
qed simp

lemma fm_alpha_fold:
  assumes "fm_inv m"
  shows "fold (fm_put m)
    (fm_occupied_in m [0..<fm_capacity m]) Map.empty = fm_alpha m"
    and "length (fm_occupied_in m [0..<fm_capacity m]) = fm_size m"
proof -
  let ?ss = "filter (fm_occ m) [0..<fm_capacity m]"
  have eq: "fm_occupied_in m [0..<fm_capacity m] = ?ss"
    by (auto simp: fm_occupied_in_def fm_occ_def intro: filter_cong)
  have "distinct (map (\<lambda>s. fm_keys m ! s) ?ss)"
    using fm_invD(5)[OF assms] by (auto simp: distinct_map inj_on_def)
  then show "fold (fm_put m)
      (fm_occupied_in m [0..<fm_capacity m]) Map.empty = fm_alpha m"
    by (simp add: fm_put_fold eq fm_alpha_def)
  have "set ?ss = {i. fm_occ m i}" by (auto simp: fm_occ_less)
  then show "length (fm_occupied_in m [0..<fm_capacity m]) = fm_size m"
    unfolding eq fm_invD(2)[OF assms] by (metis distinct_card distinct_filter distinct_upt)
qed

lemma fm_rehash_ok:
  fixes old :: "('v::default) flat_map"
  assumes inv: "fm_inv old" and k: "1 \<le> k" and room: "fm_size old * 8 < 2 ^ k * 7"
  obtains m' where "fm_rehash old (2 ^ k) = Some m'" "fm_inv m'" "fm_alpha m' = fm_alpha old"
    "fm_capacity m' = 2 ^ k"
proof -
  let ?blank = "fm_blank (2 ^ k) :: 'v flat_map"
  note shape = fm_shapeD[OF fm_invD(1)[OF inv]]
  have "\<exists>m'. fm_reinsert fm_insert old [0..<fm_capacity old] ?blank = Some m' \<and>
      fm_inv m' \<and> fm_capacity m' = fm_capacity ?blank \<and>
      fm_alpha m' = fold (fm_put old) (fm_occupied_in old [0..<fm_capacity old]) (fm_alpha ?blank)"
    using room shape k
    by (intro fm_reinsert_ok) (auto simp: fm_alpha_fold[OF inv] fm_blank_inv)
  then show thesis
    using that by (auto simp: fm_rehash_def fm_rehash_with_def shape fm_alpha_fold[OF inv])
qed

text \<open>The whole of \<open>insert\<close>: the table grows when needed and the map gains the entry.\<close>

lemma fm_insert_ok:
  assumes inv: "fm_inv m"
  obtains m' where "fm_insert m key v = Some m'" "fm_inv m'" "fm_alpha m' = (fm_alpha m)(key \<mapsto> v)"
    "fm_capacity m \<le> fm_capacity m'"
proof (cases "(fm_size m + 1) * 8 < fm_capacity m * 7")
  case True
  obtain m' where "fm_insert m key v = Some m'" "fm_inv m'"
    "fm_alpha m' = (fm_alpha m)(key \<mapsto> v)" "fm_capacity m' = fm_capacity m"
    by (rule fm_insert_room[OF inv True])
  then show thesis using that by simp
next
  case False
  obtain k where k: "1 \<le> k" "fm_capacity m = 2 ^ k"
    using fm_invD(1)[OF inv] by (auto simp: fm_shape_def)
  note load = fm_invD(3)[OF inv] and two = fm_shapeD(5)[OF fm_invD(1)[OF inv]]
  from load obtain m1 where m1: "fm_rehash m (2 ^ Suc k) = Some m1" "fm_inv m1"
    "fm_alpha m1 = fm_alpha m" "fm_capacity m1 = 2 ^ Suc k"
    using fm_rehash_ok[OF inv, of "Suc k"] k(2) by auto
  have "fm_size m1 = fm_size m" using fm_size_card[OF inv] fm_size_card[OF m1(2)] m1(3) by simp
  then have room: "(fm_size m1 + 1) * 8 < fm_capacity m1 * 7"
    using load two m1(4) k(2) by simp
  obtain m' where m': "fm_insert m1 key v = Some m'" "fm_inv m'"
    "fm_alpha m' = (fm_alpha m1)(key \<mapsto> v)" "fm_capacity m' = fm_capacity m1"
    using fm_insert_room[OF m1(2) room, of key v] by metis
  have "fm_insert m key v = fm_insert m1 key v"
    using False room m1(1) k(2)
    by (subst (1 2) fm_insert.simps) (simp add: fm_rehash_def mult.commute)
  then show thesis using that[of m'] m' m1 k(2) by simp
qed

lemma fm_round_up_pow2_bounds:
  assumes "unat v \<le> 2 ^ 63"
  obtains k where "1 \<le> k" "k \<le> 63" "unat (fm_round_up_pow2 v) = 2 ^ k" "unat v \<le> 2 ^ k"
    "2 ^ k < 2 * unat v \<or> k = 1"
  using pow2_rounding[OF assms] unfolding fm_round_up_pow2_def by blast

lemma fm_new_ok:
  assumes "unat initial_capacity \<le> 2 ^ 63"
  obtains m :: "('v::default) flat_map"
  where "fm_new initial_capacity = Some m" "fm_inv m" "fm_alpha m = Map.empty"
    "unat initial_capacity \<le> fm_capacity m" "8 \<le> fm_capacity m"
proof -
  let ?v = "if initial_capacity < 8 then 8 else initial_capacity"
  have "unat ?v \<le> 2 ^ 63" using assms by auto
  then obtain k where k: "1 \<le> k" "unat (fm_round_up_pow2 ?v) = 2 ^ k" "unat ?v \<le> 2 ^ k"
    using fm_round_up_pow2_bounds by metis
  have "fm_new initial_capacity = Some (fm_blank (2 ^ k) :: 'v flat_map)"
    using k(2)
    by (simp add: fm_new_def fm_rehash_def fm_rehash_with_def fm_unallocated_def)
  moreover have "unat initial_capacity \<le> 2 ^ k" "8 \<le> (2::nat) ^ k"
    using k(3) by (auto simp: word_less_nat_alt split: if_splits)
  ultimately show thesis using that[of "fm_blank (2 ^ k)"] fm_blank_inv[OF k(1)] by simp
qed

text \<open>
  Reserving never fails, whatever is asked for; unless \<open>n * 8\<close> overflows, the table has room for
  \<open>n\<close> entries afterwards.
\<close>

lemma fm_reserve_ok:
  assumes inv: "fm_inv m"
  obtains m' where "fm_reserve n m = Some m'" "fm_inv m'" "fm_alpha m' = fm_alpha m"
    "fm_capacity m \<le> fm_capacity m'"
    "unat n * 8 < 2 ^ 64 \<Longrightarrow> unat n * 8 < fm_capacity m' * 7"
proof -
  let ?v = "(n * 8) div 7 + 1 :: 64 word"
  have le: "unat (n * 8) div 7 + 1 \<le> 2 ^ 63"
    using unsigned_less[of "n * 8", where ?'a = nat] by simp
  have v: "unat ?v = unat (n * 8) div 7 + 1"
    using le by (subst unat_add_lem [THEN iffD1]) (simp_all add: unat_div)
  then have "unat ?v \<le> 2 ^ 63" using le by simp
  then obtain k where k: "1 \<le> k" "unat (fm_round_up_pow2 ?v) = 2 ^ k" "unat ?v \<le> 2 ^ k"
    using fm_round_up_pow2_bounds by metis
  have enough: "unat n * 8 < 2 ^ k * 7" if "unat n * 8 < 2 ^ 64"
  proof -
    have "unat (n * 8) = unat n * 8" using that by (subst unat_mult_lem [THEN iffD1]) auto
    then show ?thesis using k(3) v by simp
  qed
  show thesis
  proof (cases "2 ^ k > fm_capacity m")
    case True
    then have "fm_size m * 8 < 2 ^ k * 7" using fm_invD(3)[OF inv] by simp
    then obtain m' where "fm_rehash m (2 ^ k) = Some m'" "fm_inv m'" "fm_alpha m' = fm_alpha m"
      "fm_capacity m' = 2 ^ k"
      by (rule fm_rehash_ok[OF inv k(1)])
    then show thesis using that[of m'] True k(2) enough by (simp add: fm_reserve_def)
  next
    case False
    show thesis
    proof (rule that[of m])
      assume "unat n * 8 < 2 ^ 64"
      then show "unat n * 8 < fm_capacity m * 7" using enough False by linarith
    qed (use inv k(2) False in \<open>simp_all add: fm_reserve_def\<close>)
  qed
qed

section \<open>Deletion\<close>

definition fm_graph :: "'v flat_map \<Rightarrow> (order_id \<times> 'v) set" where
  "fm_graph m = (\<lambda>i. (fm_keys m ! i, fm_values m ! i)) ` {i. fm_occ m i}"

text \<open>What the deletion loop keeps apart from the chains.\<close>

definition fm_slots_ok :: "'v flat_map \<Rightarrow> bool" where
  "fm_slots_ok m \<longleftrightarrow> fm_shape m \<and> inj_on (\<lambda>i. fm_keys m ! i) {i. fm_occ m i}"

text \<open>The move of slot \<open>j\<close> back to the hole \<open>i\<close>.\<close>

definition fm_move :: "'v flat_map \<Rightarrow> nat \<Rightarrow> nat \<Rightarrow> 'v flat_map" where
  "fm_move m i j =
     m\<lparr>fm_keys := (fm_keys m)[i := fm_keys m ! j], fm_values := (fm_values m)[i := fm_values m ! j],
       fm_state := (fm_state m)[i := kOccupied, j := kEmpty]\<rparr>"

lemma fm_move_simps [simp]:
  "fm_capacity (fm_move m i j) = fm_capacity m" "fm_size (fm_move m i j) = fm_size m"
  "fm_home (fm_move m i j) k = fm_home m k"
  by (simp_all add: fm_move_def fm_home_def)

lemma fm_move_slots:
  assumes "fm_shape m" "i < fm_capacity m" "j < fm_capacity m" "i \<noteq> j"
  shows "fm_occ (fm_move m i j) = (fm_occ m)(i := True, j := False)"
    and "fm_keys (fm_move m i j) ! q = (if q = i then fm_keys m ! j else fm_keys m ! q)"
    and "fm_values (fm_move m i j) ! q = (if q = i then fm_values m ! j else fm_values m ! q)"
    and "fm_slot_home (fm_move m i j) = (fm_slot_home m)(i := fm_slot_home m j)"
  using assms
  by (auto simp: fm_occ_def fm_move_def fun_eq_iff nth_list_update fm_shapeD fm_slot_home_def fm_home_def)

lemma fm_move_shape: "fm_shape m \<Longrightarrow> fm_shape (fm_move m i j)"
  by (simp add: fm_shape_def fm_move_def)
    (metis (no_types, opaque_lifting) length_list_update nth_list_update nth_list_update_neq)

lemma fm_move_ok:
  assumes ok: "fm_slots_ok m" and lt: "i < fm_capacity m" "j < fm_capacity m"
    and occ: "\<not> fm_occ m i" "fm_occ m j"
  shows "fm_slots_ok (fm_move m i j)" "fm_graph (fm_move m i j) = fm_graph m"
proof -
  have shape: "fm_shape m" and ne: "i \<noteq> j" using ok occ by (auto simp: fm_slots_ok_def)
  note slots = fm_move_slots[OF shape lt ne]
  have inj: "a = b" if "fm_occ m a" "fm_occ m b" "fm_keys m ! a = fm_keys m ! b" for a b
    using ok that by (auto simp: fm_slots_ok_def dest: inj_onD)
  show "fm_slots_ok (fm_move m i j)"
    using fm_move_shape[OF shape] occ inj
    by (auto simp: fm_slots_ok_def inj_on_def slots split: if_splits)
  show "fm_graph (fm_move m i j) = fm_graph m"
  proof (intro equalityI subsetI)
    fix x assume "x \<in> fm_graph (fm_move m i j)"
    then obtain a where "x = (fm_keys (fm_move m i j) ! a, fm_values (fm_move m i j) ! a)"
      "fm_occ (fm_move m i j) a" by (auto simp: fm_graph_def)
    then show "x \<in> fm_graph m"
      using occ(2) by (cases "a = i") (auto simp: fm_graph_def slots split: if_splits)
  next
    fix x assume "x \<in> fm_graph m"
    then obtain a where a: "x = (fm_keys m ! a, fm_values m ! a)" "fm_occ m a"
      by (auto simp: fm_graph_def)
    define b where "b = (if a = j then i else a)"
    have "x = (fm_keys (fm_move m i j) ! b, fm_values (fm_move m i j) ! b)" "fm_occ (fm_move m i j) b"
      using a occ(1) ne by (auto simp: slots b_def)
    then show "x \<in> fm_graph (fm_move m i j)" by (auto simp: fm_graph_def)
  qed
qed

lemma fm_shift_ok:
  assumes "fm_slots_ok m" "shift_inv (fm_capacity m) (fm_occ m) (fm_slot_home m) i j e"
  shows "\<exists>m'. fm_shift m i j = Some m' \<and> fm_slots_ok m' \<and> fm_graph m' = fm_graph m \<and>
    fm_size m' = fm_size m \<and> fm_capacity m' = fm_capacity m \<and>
    probe_ok (fm_capacity m') (fm_occ m') (fm_slot_home m') None"
  using assms
proof (induction "cdist (fm_capacity m) j e" arbitrary: m i j rule: less_induct)
  case less
  let ?c = "fm_capacity m"
  let ?n = "cnext ?c j"
  have shape: "fm_shape m" and lt: "i < ?c" "j < ?c" and free: "\<not> fm_occ m i"
    using less.prems by (auto simp: fm_slots_ok_def shift_inv_def)
  then have n: "?n < ?c" "fm_next m j = ?n" by auto
  note step = less.hyps[OF shift_inv_measure[OF less.prems(2)]]
  show ?case
  proof (cases "fm_occ m ?n")
    case False
    have "fm_shift m i j = Some m"
      using False n shape by (subst fm_shift.simps) (simp add: fm_shapeD fm_shape_state)
    then show ?thesis using less.prems(1) shift_inv_stop[OF less.prems(2) False] by simp
  next
    case True
    then have ne: "i \<noteq> ?n" using free by auto
    let ?avoid = "\<not> cdist ?c (fm_slot_home m ?n) i < cdist ?c (fm_slot_home m ?n) ?n"
    have test: "(if i \<le> ?n then i < fm_home m (fm_keys m ! ?n) \<and> fm_home m (fm_keys m ! ?n) \<le> ?n
        else i < fm_home m (fm_keys m ! ?n) \<or> fm_home m (fm_keys m ! ?n) \<le> ?n) \<longleftrightarrow> ?avoid"
      using cannot_move_iff[OF lt(1) n(1) fm_home_less[OF shape] ne]
      by (simp add: fm_slot_home_def)
    show ?thesis
    proof (cases ?avoid)
      case avoid: True
      have "fm_shift m i j = fm_shift m i ?n"
        using True n shape avoid
        by (subst fm_shift.simps) (simp add: fm_shapeD fm_shape_state Let_def test)
      then show ?thesis
        using step[OF less.prems(1) shift_inv_skip[OF less.prems(2) True avoid]] by simp
    next
      case thru: False
      let ?m = "fm_move m i ?n"
      have "fm_shift m i j = fm_shift ?m ?n ?n"
        using True n lt shape thru
        by (subst fm_shift.simps) (simp add: fm_shapeD fm_shape_state Let_def test fm_move_def)
      moreover have inv: "shift_inv (fm_capacity ?m) (fm_occ ?m) (fm_slot_home ?m) ?n ?n e"
        using shift_inv_move[OF less.prems(2) True] thru
        by (simp add: fm_move_slots[OF shape lt(1) n(1) ne])
      moreover have lt': "cdist (fm_capacity ?m) ?n e < cdist ?c j e"
        using shift_inv_measure[OF less.prems(2)] by simp
      moreover note moved = fm_move_ok[OF less.prems(1) lt(1) n(1) free True]
      ultimately show ?thesis using less.hyps[OF lt' moved(1) inv] by simp
    qed
  qed
qed

text \<open>The table after the first two statements of \<open>erase_at\<close>.\<close>

definition fm_clear :: "'v flat_map \<Rightarrow> nat \<Rightarrow> 'v flat_map" where
  "fm_clear m i = m\<lparr>fm_state := (fm_state m)[i := kEmpty], fm_size := fm_size m - 1\<rparr>"

lemma fm_clear_simps [simp]:
  "fm_capacity (fm_clear m i) = fm_capacity m" "fm_keys (fm_clear m i) = fm_keys m"
  "fm_values (fm_clear m i) = fm_values m" "fm_size (fm_clear m i) = fm_size m - 1"
  "fm_slot_home (fm_clear m i) = fm_slot_home m"
  by (simp_all add: fm_clear_def fm_slot_home_def fm_home_def fun_eq_iff)

lemma fm_clear_shape: "fm_shape m \<Longrightarrow> fm_shape (fm_clear m i)"
  by (simp add: fm_shape_def fm_clear_def) (metis nth_list_update nth_list_update_neq)

lemma fm_clear_occ: "fm_shape m \<Longrightarrow> fm_occ (fm_clear m i) = (fm_occ m)(i := False)"
  by (auto simp: fm_occ_def fm_clear_def fun_eq_iff nth_list_update fm_shapeD)

text \<open>Erasing the slot that holds a key.\<close>

lemma fm_erase_at_ok:
  assumes inv: "fm_inv m" and occ: "fm_occ m i"
  obtains m' where "fm_erase_at m i = Some m'" "fm_inv m'"
    "fm_graph m' = fm_graph m - {(fm_keys m ! i, fm_values m ! i)}" "fm_capacity m' = fm_capacity m"
proof -
  let ?m = "fm_clear m i"
  let ?c = "fm_capacity m"
  note shape = fm_invD(1)[OF inv] and i = fm_occ_less[OF occ]
  obtain e where e: "e < ?c" "\<not> fm_occ m e" by (rule fm_inv_free_slot[OF inv])
  note occ' = fm_clear_occ[OF shape, of i]
  have slots: "fm_slots_ok ?m"
    using fm_clear_shape[OF shape] fm_invD(5)[OF inv]
    by (auto simp: fm_slots_ok_def occ' inj_on_def)
  have "shift_inv ?c ((fm_occ m)(i := False)) (fm_slot_home m) i i e"
    using fm_invD(4)[OF inv] shape i e occ by (intro shift_inv_start) auto
  then obtain m' where m': "fm_shift ?m i i = Some m'" "fm_slots_ok m'" "fm_graph m' = fm_graph ?m"
    "fm_size m' = fm_size m - 1" "fm_capacity m' = ?c"
    "probe_ok (fm_capacity m') (fm_occ m') (fm_slot_home m') None"
    using fm_shift_ok[OF slots, of i i e] by (auto simp: occ')
  have card: "card {i. fm_occ n i} = card (fst ` fm_graph n)" if "fm_slots_ok n" for n :: "'a flat_map"
    using that by (simp add: fm_slots_ok_def fm_graph_def image_image card_image)
  have "card {q. fm_occ m' q} = card {q. fm_occ ?m q}"
    using card[OF m'(2)] card[OF slots] m'(3) by simp
  also have "{q. fm_occ ?m q} = {q. fm_occ m q} - {i}" by (auto simp: occ')
  finally have size: "fm_size m' = card {q. fm_occ m' q}"
    using m'(4) occ fm_invD(2)[OF inv] by simp
  have "fm_inv m'"
    using m' size fm_invD(3)[OF inv] by (simp add: fm_inv_def fm_slots_ok_def)
  moreover have "fm_graph ?m = fm_graph m - {(fm_keys m ! i, fm_values m ! i)}"
    using fm_invD(5)[OF inv] occ by (auto simp: fm_graph_def occ')
  moreover have "fm_erase_at m i = Some m'"
    using m'(1) i shape by (simp add: fm_erase_at_def fm_shapeD fm_clear_def)
  ultimately show thesis using that m'(3,5) by simp
qed

lemma fm_alpha_graph: "fm_inv m \<Longrightarrow> fm_alpha m k = Some v \<longleftrightarrow> (k, v) \<in> fm_graph m"
  by (auto simp: fm_alpha_eq_Some fm_graph_def)

lemma fm_erase_ok:
  assumes inv: "fm_inv m"
  obtains m' where "fm_erase m key = Some (fm_alpha m key \<noteq> None, m')" "fm_inv m'"
    "fm_alpha m' = (fm_alpha m)(key := None)" "fm_capacity m' = fm_capacity m"
proof -
  obtain p where stop: "fm_stop m key p" using fm_stop_exists[OF inv] .
  note probe = fm_probe_stop[OF fm_invD(1)[OF inv] stop] fm_alpha_stop[OF inv stop]
  show thesis
  proof (cases "fm_occ m p")
    case False
    then show thesis
      using that[of m] inv probe by (auto simp: fm_erase_def fun_upd_idem)
  next
    case True
    obtain m' where m': "fm_erase_at m p = Some m'" "fm_inv m'"
      "fm_graph m' = fm_graph m - {(fm_keys m ! p, fm_values m ! p)}"
      "fm_capacity m' = fm_capacity m"
      by (rule fm_erase_at_ok[OF inv True])
    have "fm_keys m ! p = key" using stop True by (simp add: fm_stop_def)
    then have "fm_alpha m' = (fm_alpha m)(key := None)"
      using probe(2) True m'(3)
      by (intro map_eq_by_Some) (auto simp: fm_alpha_graph[OF inv, symmetric] fm_alpha_graph[OF m'(2)])
    then show thesis
      using that[of m'] m' probe True by (simp add: fm_erase_def)
  qed
qed

section \<open>The table provides the id index\<close>

interpretation fm: id_index fm_find fm_insert fm_erase fm_size fm_alpha fm_inv
proof unfold_locales
  fix m :: "'a flat_map" and k v
  assume inv: "fm_inv m"
  show "fm_find m k = Some (fm_alpha m k)" by (rule fm_find_ok[OF inv])
  show "\<exists>m'. fm_insert m k v = Some m' \<and> fm_inv m' \<and> fm_alpha m' = (fm_alpha m)(k \<mapsto> v)"
    by (rule fm_insert_ok[OF inv, of k v]) blast
  show "\<exists>m'. fm_erase m k = Some (fm_alpha m k \<noteq> None, m') \<and> fm_inv m' \<and>
      fm_alpha m' = (fm_alpha m)(k := None)"
    by (rule fm_erase_ok[OF inv, of k]) blast
  show "fm_size m = card (dom (fm_alpha m))" by (rule fm_size_card[OF inv])
qed

section \<open>Properties\<close>

text \<open>
  C18: The hash table is a map: any sequence of lookups, insertions and deletions on a new table of any
  capacity up to \<open>2^63\<close> runs without undefined behaviour, every probe loop included, is answered as
  by a map, and the table counts the entries of that map.
\<close>

theorem index_session:
  assumes "unat initial_capacity \<le> 2 ^ 63"
  shows "\<exists>m0 m. fm_new initial_capacity = Some m0 \<and>
    index_run fm_find fm_insert fm_erase ops m0 = Some (fst (map_run ops Map.empty), m) \<and>
    fm_size m = card (dom (snd (map_run ops Map.empty))) \<and>
    (fm_empty m \<longleftrightarrow> snd (map_run ops Map.empty) = Map.empty)"
proof -
  obtain m0 :: "'a flat_map" where m0: "fm_new initial_capacity = Some m0" "fm_inv m0"
    "fm_alpha m0 = Map.empty"
    by (rule fm_new_ok[OF assms])
  obtain m where m: "index_run fm_find fm_insert fm_erase ops m0 = Some (fst (map_run ops Map.empty), m)"
    "fm_inv m" "fm_alpha m = snd (map_run ops Map.empty)"
    using fm.run_alpha[OF m0(2), of ops] m0(3) by auto
  have size: "fm_size m = card (dom (fm_alpha m))" by (rule fm.entries_alpha[OF m(2)])
  moreover have "finite (dom (fm_alpha m))" by (rule fm_alpha_finite)
  ultimately have "fm_empty m \<longleftrightarrow> fm_alpha m = Map.empty"
    by (simp add: fm_empty_def)
  then show ?thesis using m0(1) m(1,3) size by auto
qed

theorem index_session_witness:
  "\<exists>m0 m. fm_new 3 = Some m0 \<and>
     index_run fm_find fm_insert fm_erase
       [Op_insert 7 (Some (1 :: nat)), Op_find 7, Op_find 8, Op_erase 7, Op_erase 7] m0 =
     Some ([Obs_insert, Obs_find (Some (Some 1)), Obs_find None, Obs_erase True, Obs_erase False], m)"
  using index_session[of 3 "[Op_insert 7 (Some (1 :: nat)), Op_find 7, Op_find 8, Op_erase 7, Op_erase 7]"]
  by auto

end
