(* ===== verification/OrderBook.thy ===== *)
theory OrderBook
  imports BookSpec FlatHashMap
begin

text \<open>
  The order book of \<open>include/obe/OrderBook.hpp\<close> and \<open>src/OrderBook.cpp\<close> as it is built: two
  ordered maps of price levels, intrusive queues through the orders in the memory pool, and the
  hash index from ids to orders.  A result \<open>None\<close> is undefined behaviour or a loop that does
  not end; \<open>BookRefinement\<close> shows that neither happens.
\<close>

section \<open>State\<close>

record book =
  bk_stp :: self_trade_policy
  bk_pool :: "order mpool"
  bk_bids :: "level omap"
  bk_asks :: "level omap"
  bk_index :: "ptr flat_map"
  bk_next_seq :: sequence
  bk_trades :: "trade list"

definition book_new :: "self_trade_policy \<Rightarrow> 64 word \<Rightarrow> book option" where
  "book_new stp pool_capacity =
     do {
       idx0 \<leftarrow> fm_new 16;
       idx \<leftarrow> fm_reserve pool_capacity idx0;
       Some \<lparr>bk_stp = stp, bk_pool = mp_new (unat pool_capacity), bk_bids = [], bk_asks = [],
             bk_index = idx, bk_next_seq = 1, bk_trades = []\<rparr>
     }"

section \<open>Matching\<close>

text \<open>What \<open>match\<close> changes besides the levels: the pool, the index, the trades, its two outputs.\<close>

record match_state =
  ms_pool :: "order mpool"
  ms_index :: "ptr flat_map"
  ms_trades :: "trade list"
  ms_remaining :: quantity
  ms_stp :: bool

text \<open>\<open>level.unlink(maker); remove_from_index(maker); pool_.release(maker);\<close>\<close>

definition drop_maker ::
    "ptr \<Rightarrow> level \<Rightarrow> match_state \<Rightarrow> (level \<times> match_state) option" where
  "drop_maker maker lv s =
     do {
       (lv', mem) \<leftarrow> level_unlink maker lv (mp_mem (ms_pool s));
       ord \<leftarrow> load mem maker;
       (_, idx) \<leftarrow> fm_erase (ms_index s) (o_id ord);
       pool \<leftarrow> mp_release maker ((ms_pool s)\<lparr>mp_mem := mem\<rparr>);
       Some (lv', s\<lparr>ms_pool := pool, ms_index := idx\<rparr>)
     }"

text \<open>The inner loop: the orders of one level, from the front.\<close>

partial_function (option) match_level ::
    "self_trade_policy \<Rightarrow> taker \<Rightarrow> level \<Rightarrow> match_state \<Rightarrow> (level \<times> match_state) option" where
  "match_level pol tk lv s =
     (if ms_remaining s > 0 \<and> \<not> level_empty lv then
        do {
          let maker = level_front lv;
          mk \<leftarrow> load (mp_mem (ms_pool s)) maker;
          if pol \<noteq> STP_None \<and> o_trader mk = tk_trader tk then
            (if pol = CancelResting then
               do {
                 (lv1, s1) \<leftarrow> drop_maker maker lv s;
                 match_level pol tk lv1 s1
               }
             else Some (lv, s\<lparr>ms_stp := True\<rparr>))
          else
            do {
              let maker_rem = o_remaining mk;
              let traded = (if ms_remaining s < maker_rem then ms_remaining s else maker_rem);
              mem \<leftarrow> poke (mp_mem (ms_pool s)) maker (snd (order_fill traded mk));
              let s1 = s\<lparr>ms_trades := ms_trades s @ [trade_of tk mk traded],
                         ms_remaining := ms_remaining s - traded,
                         ms_pool := (ms_pool s)\<lparr>mp_mem := mem\<rparr>\<rparr>;
              let lv1 = level_on_fill traded lv;
              mk1 \<leftarrow> load mem maker;
              (lv2, s2) \<leftarrow> (if is_filled mk1 then drop_maker maker lv1 s1 else Some (lv1, s1));
              match_level pol tk lv2 s2
            }
        }
      else Some (lv, s))"

text \<open>The outer loop: the levels of one map, from the best price.\<close>

partial_function (option) match_side ::
    "self_trade_policy \<Rightarrow> taker \<Rightarrow> level omap \<Rightarrow> match_state \<Rightarrow>
     (level omap \<times> match_state) option" where
  "match_side pol tk m s =
     (if ms_remaining s > 0 \<and> m \<noteq> [] then
        do {
          let (key, lv) = hd m;
          if \<not> crosses (tk_side tk) (tk_limit tk) (lv_price lv) then Some (m, s)
          else
            do {
              (lv1, s1) \<leftarrow> match_level pol tk lv s;
              let m1 = (key, lv1) # tl m;
              if ms_stp s1 then Some (m1, s1)
              else match_side pol tk (if level_empty lv1 then tl m1 else m1) s1
            }
        }
      else Some (m, s))"

section \<open>Submitting and cancelling\<close>

text \<open>The level maps by side.\<close>

definition bk_side :: "book_side \<Rightarrow> book \<Rightarrow> level omap" where
  "bk_side sd b = (case sd of Bids \<Rightarrow> bk_bids b | Asks \<Rightarrow> bk_asks b)"

definition bk_set_side :: "book_side \<Rightarrow> level omap \<Rightarrow> book \<Rightarrow> book" where
  "bk_set_side sd m b = (case sd of Bids \<Rightarrow> b\<lparr>bk_bids := m\<rparr> | Asks \<Rightarrow> b\<lparr>bk_asks := m\<rparr>)"

text \<open>
  \<open>try_emplace(price, price)\<close> on the order's own side, then \<open>enqueue\<close> at the node it yields.
\<close>

definition book_rest :: "book_side \<Rightarrow> price \<Rightarrow> ptr \<Rightarrow> book \<Rightarrow> book option" where
  "book_rest sd price p b =
     do {
       let m = om_try_emplace (before sd) price (level_new price) (bk_side sd b);
       lv \<leftarrow> om_find price m;
       (lv', mem) \<leftarrow> level_enqueue (sd, price) p lv (mp_mem (bk_pool b));
       Some (bk_set_side sd (om_write price lv' m) (b\<lparr>bk_pool := (bk_pool b)\<lparr>mp_mem := mem\<rparr>\<rparr>))
     }"

definition book_submit ::
    "order_id \<Rightarrow> trader_id \<Rightarrow> side \<Rightarrow> price \<Rightarrow> quantity \<Rightarrow> book \<Rightarrow>
     (submit_result \<times> book) option" where
  "book_submit oid trader sd price quantity b =
     do {
       reject \<leftarrow> (if quantity = 0 then Some True else fm_contains (bk_index b) oid);
       if reject then Some (submit_result_init, b\<lparr>bk_trades := []\<rparr>)
       else
         do {
           let tk = \<lparr>tk_id = oid, tk_trader = trader, tk_side = sd, tk_limit = price\<rparr>;
           let s = \<lparr>ms_pool = bk_pool b, ms_index = bk_index b, ms_trades = [],
                    ms_remaining = quantity, ms_stp = False\<rparr>;
           let opp = (if sd = Buy then Asks else Bids);
           (m, s1) \<leftarrow> match_side (bk_stp b) tk (bk_side opp b) s;
           let b1 = bk_set_side opp m (b\<lparr>bk_pool := ms_pool s1, bk_index := ms_index s1,
                      bk_trades := ms_trades s1\<rparr>);
           let remaining = ms_remaining s1;
           let res = submit_result_init\<lparr>r_filled := quantity - remaining,
                       r_trade_count := of_nat (length (bk_trades b1))\<rparr>;
           if ms_stp s1 then
             Some (res\<lparr>r_status := CancelledBySelfTrade, r_resting := 0\<rparr>, b1)
           else if remaining > 0 then
             do {
               (p, pool) \<leftarrow> mp_acquire (order_new oid trader sd price remaining) (bk_pool b1);
               ord \<leftarrow> load (mp_mem pool) p;
               mem \<leftarrow> poke (mp_mem pool) p (set_sequence (bk_next_seq b1) ord);
               let b2 = b1\<lparr>bk_pool := pool\<lparr>mp_mem := mem\<rparr>, bk_next_seq := bk_next_seq b1 + 1\<rparr>;
               b3 \<leftarrow> book_rest (if sd = Buy then Bids else Asks) price p b2;
               idx \<leftarrow> fm_insert (bk_index b3) oid p;
               Some (res\<lparr>r_resting := remaining,
                         r_status := (if r_filled res > 0 then PartiallyFilled else Rested)\<rparr>,
                     b3\<lparr>bk_index := idx\<rparr>)
             }
           else Some (res\<lparr>r_status := FullyFilled, r_resting := 0\<rparr>, b1)
         }
     }"

definition book_cancel :: "order_id \<Rightarrow> book \<Rightarrow> (bool \<times> book) option" where
  "book_cancel oid b =
     do {
       slot \<leftarrow> fm_find (bk_index b) oid;
       case slot of
         None \<Rightarrow> Some (False, b)
       | Some p \<Rightarrow>
           do {
             (_, idx) \<leftarrow> fm_erase (bk_index b) oid;
             ord \<leftarrow> load (mp_mem (bk_pool b)) p;
             (lsd, lprice) \<leftarrow> o_level ord;
             lv \<leftarrow> om_find lprice (bk_side lsd b);
             let level_price = lv_price lv;
             let sd = o_side ord;
             (lv1, mem) \<leftarrow> level_unlink p lv (mp_mem (bk_pool b));
             let b1 = bk_set_side lsd (om_write lprice lv1 (bk_side lsd b)) (b\<lparr>bk_index := idx\<rparr>);
             let level_now_empty = level_empty lv1;
             pool \<leftarrow> mp_release p ((bk_pool b)\<lparr>mp_mem := mem\<rparr>);
             let b2 = b1\<lparr>bk_pool := pool\<rparr>;
             Some (True,
               if level_now_empty then
                 (if sd = Buy then b2\<lparr>bk_bids := om_erase level_price (bk_bids b2)\<rparr>
                  else b2\<lparr>bk_asks := om_erase level_price (bk_asks b2)\<rparr>)
               else b2)
           }
     }"

section \<open>Queries\<close>

definition best_bid :: "book \<Rightarrow> price option" where
  "best_bid b = (case bk_bids b of [] \<Rightarrow> None | (p, _) # _ \<Rightarrow> Some p)"

definition best_ask :: "book \<Rightarrow> price option" where
  "best_ask b = (case bk_asks b of [] \<Rightarrow> None | (p, _) # _ \<Rightarrow> Some p)"

definition quantity_at :: "side \<Rightarrow> price \<Rightarrow> book \<Rightarrow> quantity" where
  "quantity_at sd price b =
     (if sd = Buy then
        (case om_find price (bk_bids b) of None \<Rightarrow> 0 | Some lv \<Rightarrow> lv_total lv)
      else
        (case om_find price (bk_asks b) of None \<Rightarrow> 0 | Some lv \<Rightarrow> lv_total lv))"

definition bid_levels :: "book \<Rightarrow> nat" where
  "bid_levels b = length (bk_bids b)"

definition ask_levels :: "book \<Rightarrow> nat" where
  "ask_levels b = length (bk_asks b)"

definition order_count :: "book \<Rightarrow> nat" where
  "order_count b = fm_size (bk_index b)"

text \<open>The two loops of \<open>snapshot\<close>.\<close>

fun snapshot_side :: "side \<Rightarrow> order memory \<Rightarrow> level omap \<Rightarrow> order_snapshot list option" where
  "snapshot_side sd mem [] = Some []"
| "snapshot_side sd mem ((price, lv) # m) =
     do {
       os \<leftarrow> level_for_each lv mem;
       rest \<leftarrow> snapshot_side sd mem m;
       Some (map (\<lambda>ord. \<lparr>sn_side = sd, sn_price = price, sn_id = o_id ord,
               sn_remaining = o_remaining ord, sn_sequence = o_sequence ord\<rparr>) os @ rest)
     }"

definition snapshot :: "book \<Rightarrow> order_snapshot list option" where
  "snapshot b =
     do {
       bids \<leftarrow> snapshot_side Buy (mp_mem (bk_pool b)) (bk_bids b);
       asks \<leftarrow> snapshot_side Sell (mp_mem (bk_pool b)) (bk_asks b);
       Some (bids @ asks)
     }"

end
