(* ===== verification/BookRefinement.thy ===== *)
theory BookRefinement
  imports BookRules OrderBook
begin

text \<open>
  The order book of the code implements its specification: from related states, every operation
  returns - no undefined behaviour, no endless loop - with the result that the specification
  gives, and leaves related states.
\<close>

section \<open>The store: pool and index\<close>

text \<open>The index maps the ids of the live orders, and nothing else, to their addresses.\<close>

definition indexed :: "(order_id \<Rightarrow> ptr option) \<Rightarrow> (addr \<Rightarrow> order option) \<Rightarrow> bool" where
  "indexed f h \<longleftrightarrow>
     (\<forall>k v. f k = Some v \<longleftrightarrow> (\<exists>a ord. v = Some a \<and> h a = Some ord \<and> o_id ord = k))"

definition store_ok :: "order mpool \<Rightarrow> ptr flat_map \<Rightarrow> bool" where
  "store_ok pool idx \<longleftrightarrow>
     mp_inv pool \<and> fm_inv idx \<and> indexed (fm_alpha idx) (mp_heap pool)"

lemma indexedD: "indexed f h \<Longrightarrow> h a = Some ord \<Longrightarrow> f (o_id ord) = Some (Some a)"
  by (auto simp: indexed_def)

lemma indexed_unique:
  "indexed f h \<Longrightarrow> h a = Some x \<Longrightarrow> h b = Some y \<Longrightarrow> o_id x = o_id y \<Longrightarrow> a = b"
  using indexedD by (metis option.inject)

lemma indexed_insert:
  assumes "indexed f h" "f (o_id ord) = None" "h a = None"
  shows "indexed (f(o_id ord \<mapsto> Some a)) (h(a \<mapsto> ord))"
  using assms unfolding indexed_def by (auto split: if_splits) (metis option.distinct(1))+

lemma indexed_delete:
  assumes "indexed f h" "h a = Some ord"
  shows "indexed (f(o_id ord := None)) (h(a := None))"
  unfolding indexed_def
proof (intro allI)
  fix k v
  have "h b = Some ord' \<and> o_id ord' = k \<and> b \<noteq> a \<longleftrightarrow> h b = Some ord' \<and> o_id ord' = k \<and> k \<noteq> o_id ord"
    for b ord'
    using indexed_unique[OF assms(1), of b ord' a ord] assms(2) by auto
  then show "(f(o_id ord := None)) k = Some v \<longleftrightarrow>
      (\<exists>b ord'. v = Some b \<and> (h(a := None)) b = Some ord' \<and> o_id ord' = k)"
    using assms(1)[unfolded indexed_def] by auto
qed

text \<open>Only the ids of the orders matter.\<close>

lemma indexed_same_ids:
  assumes "indexed f h" "\<And>a. map_option o_id (h' a) = map_option o_id (h a)"
  shows "indexed f h'"
proof -
  have "(\<exists>ord. h' a = Some ord \<and> o_id ord = k) \<longleftrightarrow> (\<exists>ord. h a = Some ord \<and> o_id ord = k)" for a k
    using assms(2)[of a] by (metis (no_types, lifting) map_option_eq_Some)
  then show ?thesis using assms(1) unfolding indexed_def by metis
qed

lemma same_orders_ids: "same_orders h h' \<Longrightarrow> map_option o_id (h' a) = map_option o_id (h a)"
  unfolding same_orders_def
  by (cases "h a"; cases "h' a"; drule spec [of _ a]) (auto dest: order_view_eqD)

lemma store_ok_layout:
  assumes "store_ok pool idx" "same_layout (mp_mem pool) mem"
    "\<And>a. map_option o_id (objects mem a) = map_option o_id (mp_heap pool a)"
  shows "store_ok (pool\<lparr>mp_mem := mem\<rparr>) idx"
proof -
  have "mp_inv (pool\<lparr>mp_mem := mem\<rparr>)"
    using assms(1) by (intro mp_inv_layout(1)[OF _ assms(2)]) (simp add: store_ok_def)
  moreover have "indexed (fm_alpha idx) (objects mem)"
    using assms(1) by (intro indexed_same_ids[OF _ assms(3)]) (simp add: store_ok_def)
  ultimately show ?thesis using assms(1) by (simp add: store_ok_def mp_heap_def)
qed

lemma store_ok_frame:
  assumes "store_ok pool idx" "level_frame (mp_mem pool) as mem"
  shows "store_ok (pool\<lparr>mp_mem := mem\<rparr>) idx"
  using assms store_ok_layout same_orders_ids by (simp add: level_frame_def mp_heap_def)

text \<open>A write to a live order that keeps its id.\<close>

lemma store_ok_poke:
  assumes "store_ok pool idx" "mp_heap pool a = Some ord" "o_id ord' = o_id ord"
  shows "store_ok (pool\<lparr>mp_mem := (mp_mem pool)(a \<mapsto> Object ord')\<rparr>) idx"
proof (rule store_ok_layout[OF assms(1)])
  show "same_layout (mp_mem pool) ((mp_mem pool)(a \<mapsto> Object ord'))"
    using assms(2) by (intro same_layout_poke) (simp add: mp_heap_def)
qed (use assms(2,3) in \<open>auto simp: mp_heap_def\<close>)

text \<open>Taking a live order out of index and pool.\<close>

lemma store_ok_remove:
  assumes ok: "store_ok pool idx" and a: "mp_heap pool a = Some ord"
  obtains idx' pool' where "fm_erase idx (o_id ord) = Some (True, idx')"
    "mp_release (Some a) pool = Some pool'" "store_ok pool' idx'"
    "mp_heap pool' = (mp_heap pool)(a := None)"
proof -
  note inv = ok[unfolded store_ok_def]
  have found: "fm_alpha idx (o_id ord) = Some (Some a)" using inv a indexedD by blast
  obtain idx' where idx': "fm_erase idx (o_id ord) = Some (fm_alpha idx (o_id ord) \<noteq> None, idx')"
    "fm_inv idx'" "fm_alpha idx' = (fm_alpha idx)(o_id ord := None)"
    using fm.delE[of idx "o_id ord"] inv by blast
  obtain pool' where pool': "mp_release (Some a) pool = Some pool'" "mp_inv pool'"
    "mp_heap pool' = (mp_heap pool)(a := None)"
    using mp.releaseE[OF _ a] inv by blast
  have "indexed (fm_alpha idx') (mp_heap pool')"
    unfolding idx'(3) pool'(3) using inv a by (intro indexed_delete) auto
  then show thesis using that idx' pool' found by (simp add: store_ok_def)
qed

section \<open>Matching one level\<close>

abbreviation ms_heap :: "match_state \<Rightarrow> addr \<Rightarrow> order option" where
  "ms_heap s \<equiv> mp_heap (ms_pool s)"

definition ms_ok :: "match_state \<Rightarrow> bool" where
  "ms_ok s \<longleftrightarrow> store_ok (ms_pool s) (ms_index s)"

definition view_at :: "(addr \<Rightarrow> order option) \<Rightarrow> addr \<Rightarrow> order_data" where
  "view_at h a = order_view (the (h a))"

lemma trade_of_view [simp]: "trade_of tk (order_view mk) q = trade_of tk mk q"
  by (simp add: trade_of_def)

lemma view_at_Some: "h a = Some ord \<Longrightarrow> view_at h a = order_view ord"
  by (simp add: view_at_def)

lemma same_orders_view: "same_orders h h' \<Longrightarrow> h a \<noteq> None \<Longrightarrow> view_at h' a = view_at h a"
  unfolding same_orders_def view_at_def by (drule spec [of _ a]) auto

text \<open>
  Orders have gone from the store, and of those that stay only orders among \<open>as\<close> have changed.
\<close>

definition consumes :: "match_state \<Rightarrow> addr set \<Rightarrow> addr set \<Rightarrow> match_state \<Rightarrow> bool" where
  "consumes s as gone s' \<longleftrightarrow>
     ms_ok s' \<and> dom (ms_heap s') = dom (ms_heap s) - gone \<and>
     (\<forall>b. b \<notin> as \<longrightarrow> ms_heap s' b = ms_heap s b)"

lemma drop_maker_ok:
  assumes ok: "ms_ok s" and rep: "level_rep (ms_heap s) l lv (a # as)"
  obtains lv' s' where "drop_maker (Some a) lv s = Some (lv', s')" "level_rep (ms_heap s') l lv' as"
    "lv_price lv' = lv_price lv" "consumes s (set (a # as)) {a} s'"
    "map (view_at (ms_heap s')) as = map (view_at (ms_heap s)) as"
    "ms_trades s' = ms_trades s" "ms_remaining s' = ms_remaining s" "ms_stp s' = ms_stp s"
proof -
  let ?mem = "mp_mem (ms_pool s)"
  have rep': "level_rep (objects ?mem) l lv ([] @ a # as)" using rep by (simp add: mp_heap_def)
  obtain lv' mem where u: "level_unlink (Some a) lv ?mem = Some (lv', mem)"
    "level_frame ?mem (set (a # as)) mem" "level_rep (objects mem) l lv' as"
    "lv_price lv' = lv_price lv"
    using level_unlink_ok[OF rep'] by auto
  define pool where "pool = (ms_pool s)\<lparr>mp_mem := mem\<rparr>"
  have heap: "mp_heap pool = objects mem" by (simp add: pool_def mp_heap_def)
  have pool: "store_ok pool (ms_index s)"
    unfolding pool_def using ok u(2) by (intro store_ok_frame) (simp_all add: ms_ok_def)
  have dist: "a \<notin> set as" using rep by (simp add: level_rep_def)
  have dom: "dom (objects mem) = dom (ms_heap s)"
    using u(2) same_orders_dom[of "objects ?mem" "objects mem"]
    by (auto simp: level_frame_def mp_heap_def dom_def)
  have "ms_heap s a \<noteq> None" using level_rep_dom[OF rep] by fastforce
  then obtain ord where ord: "mp_heap pool a = Some ord" using dom heap by auto
  obtain idx' pool' where r: "fm_erase (ms_index s) (o_id ord) = Some (True, idx')"
    "mp_release (Some a) pool = Some pool'" "store_ok pool' idx'"
    "mp_heap pool' = (mp_heap pool)(a := None)"
    by (rule store_ok_remove[OF pool ord])
  let ?s = "s\<lparr>ms_pool := pool', ms_index := idx'\<rparr>"
  have "drop_maker (Some a) lv s = Some (lv', ?s)"
    using u(1) ord r(1,2) by (simp add: drop_maker_def heap pool_def[symmetric])
  moreover have "level_rep (ms_heap ?s) l lv' as"
    using u(3) dist by (intro level_rep_frame[OF u(3)]) (auto simp: r(4) heap)
  moreover have "consumes s (set (a # as)) {a} ?s"
  proof -
    have "objects mem b = ms_heap s b" if "b \<notin> set (a # as)" for b
      using u(2) that by (auto simp: level_frame_def mp_heap_def)
    then show ?thesis using r(3) by (auto simp: consumes_def ms_ok_def r(4) heap dom[symmetric])
  qed
  moreover have "map (view_at (ms_heap ?s)) as = map (view_at (ms_heap s)) as"
  proof (rule map_cong)
    fix b assume b: "b \<in> set as"
    then have "ms_heap s b \<noteq> None" using level_rep_dom[OF rep, of b] by auto
    then have "view_at (objects mem) b = view_at (ms_heap s) b"
      using u(2) by (intro same_orders_view) (auto simp: level_frame_def mp_heap_def)
    then show "view_at (ms_heap ?s) b = view_at (ms_heap s) b"
      using b dist by (auto simp: r(4) heap view_at_def)
  qed simp
  ultimately show thesis using that u(4) by simp
qed

lemma consumes_trans:
  assumes "consumes s as gone s1" "consumes s1 as' gone' s2" "as \<union> as' \<subseteq> bs" "gone \<union> gone' = gone2"
  shows "consumes s bs gone2 s2"
proof -
  have "ms_heap s2 b = ms_heap s b" if "b \<notin> bs" for b
    using assms(1-3) that unfolding consumes_def by (metis UnCI subsetD)
  then show ?thesis using assms by (auto simp: consumes_def)
qed

lemma consumes_refl: "ms_ok s \<Longrightarrow> consumes s as {} s"
  by (simp add: consumes_def)

text \<open>The state in the inner loop after a trade with the order \<open>mk\<close> at the address \<open>a\<close>.\<close>

definition after_trade :: "taker \<Rightarrow> addr \<Rightarrow> order \<Rightarrow> quantity \<Rightarrow> match_state \<Rightarrow> match_state" where
  "after_trade tk a mk traded s =
     s\<lparr>ms_trades := ms_trades s @ [trade_of tk mk traded], ms_remaining := ms_remaining s - traded,
       ms_pool := (ms_pool s)\<lparr>mp_mem := (mp_mem (ms_pool s))(a \<mapsto>
         Object (mk\<lparr>o_remaining := o_remaining mk - traded\<rparr>))\<rparr>\<rparr>"

lemma after_trade_simps [simp]:
  "ms_trades (after_trade tk a mk q s) = ms_trades s @ [trade_of tk mk q]"
  "ms_remaining (after_trade tk a mk q s) = ms_remaining s - q"
  "ms_stp (after_trade tk a mk q s) = ms_stp s"
  "ms_heap (after_trade tk a mk q s) = (ms_heap s)(a \<mapsto> mk\<lparr>o_remaining := o_remaining mk - q\<rparr>)"
  by (simp_all add: after_trade_def mp_heap_def)

lemma after_trade_consumes:
  assumes "ms_ok s" "ms_heap s a = Some mk"
  shows "consumes s {a} {} (after_trade tk a mk q s)"
proof -
  have "ms_ok (after_trade tk a mk q s)"
    unfolding ms_ok_def after_trade_def using assms
    by (simp add: ms_ok_def store_ok_poke)
  then show ?thesis using assms(2) by (auto simp: consumes_def)
qed

text \<open>What the inner loop does to the level with the addresses \<open>as\<close>.\<close>

definition level_outcome ::
    "level_ref \<Rightarrow> level \<Rightarrow> match_state \<Rightarrow> addr list \<Rightarrow>
     order_data list \<times> quantity \<times> trade list \<times> bool \<Rightarrow>
     level \<Rightarrow> match_state \<Rightarrow> addr list \<Rightarrow> bool" where
  "level_outcome l lv s as res lv' s' as' \<longleftrightarrow>
     level_rep (ms_heap s') l lv' as' \<and> lv_price lv' = lv_price lv \<and> suffix as' as \<and>
     consumes s (set as) (set as - set as') s' \<and>
     (\<exists>ts. ms_trades s' = ms_trades s @ ts \<and>
        res = (map (view_at (ms_heap s')) as', ms_remaining s', ts, ms_stp s'))"

lemma match_level_null:
  "ms_remaining s = 0 \<or> level_empty lv \<Longrightarrow> match_level pol tk lv s = Some (lv, s)"
  by (subst match_level.simps) auto

text \<open>One iteration of the inner loop, by case.\<close>

lemma match_level_step:
  assumes rep: "level_rep (ms_heap s) l lv (a # as)" and mk: "ms_heap s a = Some mk"
    and rem: "ms_remaining s \<noteq> 0"
  shows
    "pol \<noteq> STP_None \<Longrightarrow> o_trader mk = tk_trader tk \<Longrightarrow> pol = CancelResting \<Longrightarrow>
      match_level pol tk lv s =
        do { (lv1, s1) \<leftarrow> drop_maker (Some a) lv s; match_level pol tk lv1 s1 }"
    "pol \<noteq> STP_None \<Longrightarrow> o_trader mk = tk_trader tk \<Longrightarrow> pol \<noteq> CancelResting \<Longrightarrow>
      match_level pol tk lv s = Some (lv, s\<lparr>ms_stp := True\<rparr>)"
    "\<not> (pol \<noteq> STP_None \<and> o_trader mk = tk_trader tk) \<Longrightarrow>
      ms_remaining s < o_remaining mk \<Longrightarrow>
      match_level pol tk lv s =
        Some (level_on_fill (ms_remaining s) lv, after_trade tk a mk (ms_remaining s) s)"
    "\<not> (pol \<noteq> STP_None \<and> o_trader mk = tk_trader tk) \<Longrightarrow>
      o_remaining mk \<le> ms_remaining s \<Longrightarrow>
      match_level pol tk lv s =
        do {
          (lv2, s2) \<leftarrow> drop_maker (Some a) (level_on_fill (o_remaining mk) lv)
            (after_trade tk a mk (o_remaining mk) s);
          match_level pol tk lv2 s2
        }"
proof -
  have front: "level_front lv = Some a" "\<not> level_empty lv"
    using level_rep_front[OF rep] level_rep_empty[OF rep] by auto
  have mk': "objects (mp_mem (ms_pool s)) a = Some mk" using mk by (simp add: mp_heap_def)
  have pos: "ms_remaining s > 0" using rem by (simp add: word_gt_0)
  {
    assume "pol \<noteq> STP_None" "o_trader mk = tk_trader tk" "pol = CancelResting"
    then show "match_level pol tk lv s =
        do { (lv1, s1) \<leftarrow> drop_maker (Some a) lv s; match_level pol tk lv1 s1 }"
      using front pos mk' by (subst match_level.simps) simp
  next
    assume "pol \<noteq> STP_None" "o_trader mk = tk_trader tk" "pol \<noteq> CancelResting"
    then show "match_level pol tk lv s = Some (lv, s\<lparr>ms_stp := True\<rparr>)"
      using front pos mk' by (subst match_level.simps) simp
  next
    assume other: "\<not> (pol \<noteq> STP_None \<and> o_trader mk = tk_trader tk)"
      and lt: "ms_remaining s < o_remaining mk"
    have "match_level pol tk lv s =
        match_level pol tk (level_on_fill (ms_remaining s) lv) (after_trade tk a mk (ms_remaining s) s)"
      using front pos mk' lt
      by (subst match_level.simps)
        (auto simp: Let_def other is_filled_def after_trade_def order_fill_min min_def
          simp del: de_Morgan_conj)
    then show "match_level pol tk lv s =
        Some (level_on_fill (ms_remaining s) lv, after_trade tk a mk (ms_remaining s) s)"
      by (simp add: match_level_null)
  next
    assume other: "\<not> (pol \<noteq> STP_None \<and> o_trader mk = tk_trader tk)"
      and le: "o_remaining mk \<le> ms_remaining s"
    show "match_level pol tk lv s =
        do {
          (lv2, s2) \<leftarrow> drop_maker (Some a) (level_on_fill (o_remaining mk) lv)
            (after_trade tk a mk (o_remaining mk) s);
          match_level pol tk lv2 s2
        }"
      using front pos mk' leD[OF le]
      by (subst match_level.simps)
        (simp add: Let_def other is_filled_def after_trade_def order_fill_min min_def
          del: de_Morgan_conj)
  }
qed

lemma level_rep_after_trade:
  assumes "level_rep (ms_heap s) l lv (a # as)" "ms_heap s a = Some mk"
  shows "level_rep (ms_heap (after_trade tk a mk q s)) l (level_on_fill q lv) (a # as)"
  using level_fill_ok[OF assms(1) _ assms(2)] by simp

lemma view_after_trade:
  assumes "a \<notin> set as"
  shows "map (view_at (ms_heap (after_trade tk a mk q s))) as = map (view_at (ms_heap s)) as"
  using assms by (auto simp: view_at_def)

text \<open>Dropping the front order and going on, as one step of the outcome.\<close>

lemma level_outcome_drop:
  assumes drop: "consumes s (set (a # as)) {a} s1" "a \<notin> set as" "lv_price lv1 = lv_price lv"
    and trades: "ms_trades s1 = ms_trades s @ ts1"
    and rest: "level_outcome l lv1 s1 as (os', r, ts, stp) lv' s' as'"
  shows "level_outcome l lv s (a # as) (os', r, ts1 @ ts, stp) lv' s' as'"
proof -
  have suf: "suffix as' as" using rest by (simp add: level_outcome_def)
  then have "a \<notin> set as'" using drop(2) set_mono_suffix by blast
  then have "{a} \<union> (set as - set as') = set (a # as) - set as'" using drop(2) by auto
  then have "consumes s (set (a # as)) (set (a # as) - set as') s'"
    using rest by (intro consumes_trans[OF drop(1)]) (auto simp: level_outcome_def)
  then show ?thesis using rest drop(3) trades suf by (auto simp: level_outcome_def suffix_Cons)
qed

lemma match_level_ok:
  assumes "ms_ok s" "\<not> ms_stp s" "level_rep (ms_heap s) l lv as"
  shows "\<exists>lv' s' as'. match_level pol tk lv s = Some (lv', s') \<and>
    level_outcome l lv s as
      (spec_match_level pol tk (ms_remaining s) (map (view_at (ms_heap s)) as)) lv' s' as'"
  using assms
proof (induction as arbitrary: lv s)
  case Nil
  then have "match_level pol tk lv s = Some (lv, s)"
    using level_rep_empty by (intro match_level_null) blast
  then show ?case using Nil by (auto simp: level_outcome_def consumes_refl)
next
  case (Cons a as)
  let ?h = "ms_heap s" and ?rem = "ms_remaining s"
  obtain mk where mk: "?h a = Some mk" using level_rep_dom[OF Cons.prems(3)] by auto
  have view: "view_at ?h a = order_view mk" using mk by (rule view_at_Some)
  have dist: "a \<notin> set as" using Cons.prems(3) by (simp add: level_rep_def)
  have stay: "level_outcome l lv s (a # as) (map (view_at ?h) (a # as), ms_remaining s, [], stp) lv
      (s\<lparr>ms_stp := stp\<rparr>) (a # as)" for stp
    using Cons.prems by (simp add: level_outcome_def consumes_def ms_ok_def)
  have "s\<lparr>ms_stp := False\<rparr> = s" using Cons.prems(2) by (cases s) simp
  note step = match_level_step[OF Cons.prems(3) mk]
  consider (zero) "?rem = 0"
    | (drop) "?rem \<noteq> 0" "pol \<noteq> STP_None" "o_trader mk = tk_trader tk" "pol = CancelResting"
    | (stop) "?rem \<noteq> 0" "pol \<noteq> STP_None" "o_trader mk = tk_trader tk" "pol \<noteq> CancelResting"
    | (partial) "?rem \<noteq> 0" "\<not> (pol \<noteq> STP_None \<and> o_trader mk = tk_trader tk)" "?rem < o_remaining mk"
    | (full) "?rem \<noteq> 0" "\<not> (pol \<noteq> STP_None \<and> o_trader mk = tk_trader tk)" "o_remaining mk \<le> ?rem"
    by (meson not_less)
  then show ?case
  proof cases
    case zero
    then have "match_level pol tk lv s = Some (lv, s)" by (intro match_level_null) simp
    then show ?thesis
      using stay[of False] \<open>s\<lparr>ms_stp := False\<rparr> = s\<close> zero by auto
  next
    case drop
    obtain lv1 s1 where d: "drop_maker (Some a) lv s = Some (lv1, s1)"
      "level_rep (ms_heap s1) l lv1 as" "lv_price lv1 = lv_price lv"
      "consumes s (set (a # as)) {a} s1" "map (view_at (ms_heap s1)) as = map (view_at ?h) as"
      "ms_trades s1 = ms_trades s" "ms_remaining s1 = ?rem" "ms_stp s1 = ms_stp s"
      by (rule drop_maker_ok[OF Cons.prems(1,3)])
    have "ms_ok s1" "\<not> ms_stp s1" using d(4,8) Cons.prems(2) by (simp_all add: consumes_def)
    from Cons.IH[OF this d(2)] obtain lv' s' as' where r: "match_level pol tk lv1 s1 = Some (lv', s')"
      "level_outcome l lv1 s1 as (spec_match_level pol tk ?rem (map (view_at ?h) as)) lv' s' as'"
      unfolding d(5,7) by blast
    obtain os' rm ts stp where sp: "spec_match_level pol tk ?rem (map (view_at ?h) as) = (os', rm, ts, stp)"
      using prod_cases4 by blast
    have "match_level pol tk lv s = Some (lv', s')" using step(1) drop d(1) r(1) by simp
    moreover have "level_outcome l lv s (a # as) (os', rm, [] @ ts, stp) lv' s' as'"
      using r(2) d(6) by (intro level_outcome_drop[OF d(4) dist d(3)]) (simp_all add: sp)
    moreover have "spec_match_level pol tk ?rem (map (view_at ?h) (a # as)) = (os', rm, [] @ ts, stp)"
      using drop sp view by simp
    ultimately show ?thesis by metis
  next
    case stop
    then show ?thesis using step(2) stay[of True] view by auto
  next
    case partial
    let ?s = "after_trade tk a mk ?rem s"
    have rep: "level_rep (ms_heap ?s) l (level_on_fill ?rem lv) (a # as)"
      by (rule level_rep_after_trade[OF Cons.prems(3) mk])
    have "consumes s (set (a # as)) {} ?s"
      by (rule consumes_trans[OF after_trade_consumes[OF Cons.prems(1) mk] consumes_refl])
        (use after_trade_consumes[OF Cons.prems(1) mk] in \<open>auto simp: consumes_def\<close>)
    then have "level_outcome l lv s (a # as)
        (map (view_at (ms_heap ?s)) (a # as), 0, [trade_of tk mk ?rem], False)
        (level_on_fill ?rem lv) ?s (a # as)"
      using rep Cons.prems(2) by (simp add: level_outcome_def level_on_fill_def)
    moreover have "view_at (ms_heap ?s) a = (order_view mk)\<lparr>o_remaining := o_remaining mk - ?rem\<rparr>"
      by (simp add: view_at_def order_data.truncate_def)
    ultimately have "level_outcome l lv s (a # as)
        (spec_match_level pol tk ?rem (map (view_at ?h) (a # as))) (level_on_fill ?rem lv) ?s (a # as)"
      using partial view view_after_trade[OF dist, of tk mk ?rem s]
      by (simp del: de_Morgan_conj after_trade_simps(4))
    then show ?thesis using step(3)[OF partial] by blast
  next
    case full
    let ?q = "o_remaining mk" and ?s = "after_trade tk a mk (o_remaining mk) s"
    note c = after_trade_consumes[OF Cons.prems(1) mk, of tk ?q]
    have rep: "level_rep (ms_heap ?s) l (level_on_fill ?q lv) (a # as)"
      by (rule level_rep_after_trade[OF Cons.prems(3) mk])
    have ok: "ms_ok ?s" using c by (simp add: consumes_def)
    obtain lv1 s1 where d: "drop_maker (Some a) (level_on_fill ?q lv) ?s = Some (lv1, s1)"
      "level_rep (ms_heap s1) l lv1 as" "lv_price lv1 = lv_price (level_on_fill ?q lv)"
      "consumes ?s (set (a # as)) {a} s1" "map (view_at (ms_heap s1)) as = map (view_at (ms_heap ?s)) as"
      "ms_trades s1 = ms_trades ?s" "ms_remaining s1 = ms_remaining ?s" "ms_stp s1 = ms_stp ?s"
      by (rule drop_maker_ok[OF ok rep])
    have views: "map (view_at (ms_heap s1)) as = map (view_at ?h) as"
      using d(5) unfolding view_after_trade[OF dist] .
    have "ms_ok s1" "\<not> ms_stp s1" using d(4,8) Cons.prems(2) by (simp_all add: consumes_def)
    from Cons.IH[OF this d(2)] obtain lv' s' as' where r: "match_level pol tk lv1 s1 = Some (lv', s')"
      "level_outcome l lv1 s1 as (spec_match_level pol tk (?rem - ?q) (map (view_at ?h) as)) lv' s' as'"
      unfolding views d(7) after_trade_simps by blast
    obtain os' rm ts stp where
      sp: "spec_match_level pol tk (?rem - ?q) (map (view_at ?h) as) = (os', rm, ts, stp)"
      using prod_cases4 by blast
    have "match_level pol tk lv s = Some (lv', s')" using step(4)[OF full] d(1) r(1) by simp
    moreover have "consumes s (set (a # as)) {a} s1"
      by (rule consumes_trans[OF c d(4)]) auto
    then have "level_outcome l lv s (a # as) (os', rm, [trade_of tk mk ?q] @ ts, stp) lv' s' as'"
      using r(2) d(3,6) by (intro level_outcome_drop[OF _ dist]) (simp_all add: sp level_on_fill_def)
    moreover have "spec_match_level pol tk ?rem (map (view_at ?h) (a # as)) =
        (os', rm, [trade_of tk mk ?q] @ ts, stp)"
      using full(1,2) leD[OF full(3)] sp view by (simp del: de_Morgan_conj)
    ultimately show ?thesis by metis
  qed
qed

section \<open>Matching a side\<close>

text \<open>
  A map of levels and the addresses queued in them: the keys are the prices of the levels, and
  no level is empty.
\<close>

definition ladder_rep ::
    "(addr \<Rightarrow> order option) \<Rightarrow> book_side \<Rightarrow> level omap \<Rightarrow> addr list omap \<Rightarrow> bool" where
  "ladder_rep h sd m G \<longleftrightarrow>
     list_all2 (\<lambda>(p, lv) (q, as). p = q \<and> lv_price lv = p \<and> as \<noteq> [] \<and> level_rep h (sd, p) lv as) m G"

definition ladder_view :: "(addr \<Rightarrow> order option) \<Rightarrow> addr list omap \<Rightarrow> order_data list omap" where
  "ladder_view h G = map (\<lambda>(p, as). (p, map (view_at h) as)) G"

definition ladder_addrs :: "addr list omap \<Rightarrow> addr list" where
  "ladder_addrs G = concat (map snd G)"

lemma ladder_rep_simps [simp]:
  "ladder_rep h sd [] G \<longleftrightarrow> G = []" "ladder_rep h sd m [] \<longleftrightarrow> m = []"
  "ladder_rep h sd ((p, lv) # m) ((q, as) # G) \<longleftrightarrow>
     p = q \<and> lv_price lv = p \<and> as \<noteq> [] \<and> level_rep h (sd, p) lv as \<and> ladder_rep h sd m G"
  by (auto simp: ladder_rep_def)

lemma ladder_rep_append:
  "length m1 = length G1 \<Longrightarrow>
   ladder_rep h sd (m1 @ m2) (G1 @ G2) \<longleftrightarrow> ladder_rep h sd m1 G1 \<and> ladder_rep h sd m2 G2"
  by (simp add: ladder_rep_def list_all2_append)

lemma ladder_view_simps [simp]:
  "ladder_view h [] = []"
  "ladder_view h ((p, as) # G) = (p, map (view_at h) as) # ladder_view h G"
  "ladder_view h (G1 @ G2) = ladder_view h G1 @ ladder_view h G2"
  by (simp_all add: ladder_view_def)

lemma ladder_addrs_simps [simp]:
  "ladder_addrs [] = []" "ladder_addrs ((p, as) # G) = as @ ladder_addrs G"
  "ladder_addrs (G1 @ G2) = ladder_addrs G1 @ ladder_addrs G2"
  by (simp_all add: ladder_addrs_def)

lemma ladder_rep_frame:
  assumes "ladder_rep h sd m G" "\<And>a. a \<in> set (ladder_addrs G) \<Longrightarrow> h' a = h a"
  shows "ladder_rep h' sd m G"
  using assms
proof (induction m G rule: list_induct2')
  case (4 x xs y ys)
  then show ?case by (cases x; cases y) (auto intro: level_rep_frame)
qed (auto)

lemma ladder_view_frame:
  "(\<And>a. a \<in> set (ladder_addrs G) \<Longrightarrow> view_at h' a = view_at h a) \<Longrightarrow>
   ladder_view h' G = ladder_view h G"
  by (induction G) auto

lemma ladder_rep_dom:
  assumes "ladder_rep h sd m G" "a \<in> set (ladder_addrs G)"
  shows "\<exists>ord p. h a = Some ord \<and> o_level ord = Some (sd, p)"
  using assms
proof (induction m G rule: list_induct2')
  case (4 x xs y ys)
  then show ?case by (cases x; cases y) (auto dest: level_rep_dom)
qed (auto)

text \<open>What the outer loop does to the side with the addresses \<open>G\<close>.\<close>

definition side_outcome ::
    "book_side \<Rightarrow> match_state \<Rightarrow> addr list omap \<Rightarrow>
     order_data list omap \<times> quantity \<times> trade list \<times> bool \<Rightarrow>
     level omap \<Rightarrow> match_state \<Rightarrow> addr list omap \<Rightarrow> bool" where
  "side_outcome sd s G res m' s' G' \<longleftrightarrow>
     ladder_rep (ms_heap s') sd m' G' \<and> suffix (ladder_addrs G') (ladder_addrs G) \<and>
     consumes s (set (ladder_addrs G)) (set (ladder_addrs G) - set (ladder_addrs G')) s' \<and>
     (\<exists>ts. ms_trades s' = ms_trades s @ ts \<and>
        res = (ladder_view (ms_heap s') G', ms_remaining s', ts, ms_stp s'))"

lemma match_side_stop:
  "ms_remaining s = 0 \<or> m = [] \<Longrightarrow> match_side pol tk m s = Some (m, s)"
  by (subst match_side.simps) auto

lemma match_side_away:
  "\<not> crosses (tk_side tk) (tk_limit tk) (lv_price lv) \<Longrightarrow>
   match_side pol tk ((p, lv) # m) s = Some ((p, lv) # m, s)"
  by (subst match_side.simps) simp

lemma match_side_step:
  assumes "ms_remaining s \<noteq> 0" "crosses (tk_side tk) (tk_limit tk) (lv_price lv)"
    "match_level pol tk lv s = Some (lv1, s1)"
  shows "match_side pol tk ((p, lv) # m) s =
    (if ms_stp s1 then Some ((p, lv1) # m, s1)
     else match_side pol tk (if level_empty lv1 then m else (p, lv1) # m) s1)"
  using assms by (subst match_side.simps) (simp add: Let_def word_gt_0)

text \<open>Levels behind the best one are out of reach of the inner loop.\<close>

lemma consumes_ladder:
  assumes "consumes s (set as) gone s1" "ladder_rep (ms_heap s) sd m G"
    "set as \<inter> set (ladder_addrs G) = {}"
  shows "ladder_rep (ms_heap s1) sd m G" "ladder_view (ms_heap s1) G = ladder_view (ms_heap s) G"
proof -
  have eq: "ms_heap s1 a = ms_heap s a" if "a \<in> set (ladder_addrs G)" for a
    using assms(1,3) that unfolding consumes_def by blast
  show "ladder_rep (ms_heap s1) sd m G" using assms(2) eq by (rule ladder_rep_frame)
  show "ladder_view (ms_heap s1) G = ladder_view (ms_heap s) G"
    using eq by (intro ladder_view_frame) (simp add: view_at_def)
qed

lemma match_side_ok:
  assumes "ms_ok s" "\<not> ms_stp s" "ladder_rep (ms_heap s) sd m G" "distinct (ladder_addrs G)"
  shows "\<exists>m' s' G'. match_side pol tk m s = Some (m', s') \<and>
    side_outcome sd s G (spec_match pol tk (ms_remaining s) (ladder_view (ms_heap s) G)) m' s' G'"
  using assms
proof (induction G arbitrary: m s)
  case Nil
  then show ?case by (auto simp: match_side_stop side_outcome_def consumes_refl)
next
  case (Cons n G)
  obtain p as where n: "n = (p, as)" by fastforce
  obtain lv m1 where m: "m = (p, lv) # m1" "lv_price lv = p" "as \<noteq> []"
    "level_rep (ms_heap s) (sd, p) lv as" "ladder_rep (ms_heap s) sd m1 G"
    using Cons.prems(3) n by (cases m) auto
  let ?h = "ms_heap s" and ?rem = "ms_remaining s"
  have dist: "set as \<inter> set (ladder_addrs G) = {}" "distinct (ladder_addrs G)"
    using Cons.prems(4) n by auto
  show ?case
  proof (cases "?rem = 0 \<or> \<not> crosses (tk_side tk) (tk_limit tk) p")
    case True
    then have "match_side pol tk m s = Some (m, s)"
      using m match_side_stop match_side_away by blast
    moreover have "side_outcome sd s (n # G) (ladder_view ?h (n # G), ?rem, [], False) m s (n # G)"
      using Cons.prems by (simp add: side_outcome_def consumes_refl)
    ultimately show ?thesis using True n by auto
  next
    case False
    obtain os1 r1 ts1 stp1 where
      sp: "spec_match_level pol tk ?rem (map (view_at ?h) as) = (os1, r1, ts1, stp1)"
      using prod_cases4 by blast
    obtain lv1 s1 as1 where ml: "match_level pol tk lv s = Some (lv1, s1)"
      "level_outcome (sd, p) lv s as (os1, r1, ts1, stp1) lv1 s1 as1"
      using match_level_ok[OF Cons.prems(1,2) m(4), of pol tk] unfolding sp by blast
    have l: "level_rep (ms_heap s1) (sd, p) lv1 as1" "lv_price lv1 = p" "suffix as1 as"
      "consumes s (set as) (set as - set as1) s1" "ms_trades s1 = ms_trades s @ ts1"
      "os1 = map (view_at (ms_heap s1)) as1" "r1 = ms_remaining s1" "stp1 = ms_stp s1"
      using ml(2) m(2) by (auto simp: level_outcome_def)
    note tail = consumes_ladder[OF l(4) m(5) dist(1)]
    note exit = spec_match_level_exit[OF sp]
    have sub: "set as1 \<subseteq> set as" using l(3) by (rule set_mono_suffix)
    have step: "match_side pol tk m s = (if ms_stp s1 then Some ((p, lv1) # m1, s1)
        else match_side pol tk (if level_empty lv1 then m1 else (p, lv1) # m1) s1)"
      unfolding m(1) using False m(2) ml(1) by (intro match_side_step) auto
    show ?thesis
    proof (cases "stp1 \<or> os1 \<noteq> []")
      case True
      then have ne: "as1 \<noteq> []" using l(6) exit by auto
      have "match_side pol tk m s = Some ((p, lv1) # m1, s1)"
        using step True exit l(6-8) ne level_rep_empty[OF l(1)] by (auto simp: match_side_stop)
      moreover have "consumes s (set (ladder_addrs (n # G)))
          (set (ladder_addrs (n # G)) - set (ladder_addrs ((p, as1) # G))) s1"
        by (rule consumes_trans[OF l(4) consumes_refl[of _ "{}"]])
          (use l(4) n dist sub in \<open>auto simp: consumes_def\<close>)
      then have "side_outcome sd s (n # G) ((p, os1) # ladder_view ?h G, r1, ts1, stp1)
          ((p, lv1) # m1) s1 ((p, as1) # G)"
        using tail l ne n by (auto simp: side_outcome_def suffix_def)
      moreover have "spec_match pol tk ?rem (ladder_view ?h (n # G)) =
          ((p, os1) # ladder_view ?h G, r1, ts1, stp1)"
        using False True sp n by auto
      ultimately show ?thesis by metis
    next
      case through: False
      have ok1: "ms_ok s1" "\<not> ms_stp s1" and gone: "as1 = []"
        using l(4,6,8) through by (simp_all add: consumes_def)
      obtain m2 r2 ts2 stp2 where
        sp2: "spec_match pol tk r1 (ladder_view ?h G) = (m2, r2, ts2, stp2)"
        using prod_cases4 by blast
      obtain m' s' G' where r: "match_side pol tk m1 s1 = Some (m', s')"
        "side_outcome sd s1 G (m2, r2, ts2, stp2) m' s' G'"
        using Cons.IH[OF ok1 tail(1) dist(2)] unfolding tail(2) l(7)[symmetric] sp2 by blast
      have "match_side pol tk m s = Some (m', s')"
        using step r(1) through l(8) level_rep_empty[OF l(1)] gone by simp
      moreover have "side_outcome sd s (n # G) (m2, r2, ts1 @ ts2, stp2) m' s' G'"
      proof -
        have suf: "suffix (ladder_addrs G') (ladder_addrs G)" using r(2) by (simp add: side_outcome_def)
        have "consumes s1 (set (ladder_addrs G)) (set (ladder_addrs G) - set (ladder_addrs G')) s'"
          using r(2) by (simp add: side_outcome_def)
        then have "consumes s (set (ladder_addrs (n # G)))
            (set (ladder_addrs (n # G)) - set (ladder_addrs G')) s'"
          by (rule consumes_trans[OF l(4)]) (use n dist gone set_mono_suffix[OF suf] in auto)
        then show ?thesis
          using r(2) l(5) n suf by (auto simp: side_outcome_def suffix_def)
      qed
      moreover have "spec_match pol tk ?rem (ladder_view ?h (n # G)) = (m2, r2, ts1 @ ts2, stp2)"
        using False through sp sp2 n by simp
      ultimately show ?thesis by metis
    qed
  qed
qed

section \<open>Resting an order\<close>

lemma ladder_rep_keys: "ladder_rep h sd m G \<Longrightarrow> map fst m = map fst G"
  by (induction m G rule: list_induct2') auto

lemma ladder_view_keys [simp]: "map fst (ladder_view h G) = map fst G"
  by (induction G) auto

lemma ladder_rep_length: "ladder_rep h sd m G \<Longrightarrow> length m = length G"
  by (simp add: ladder_rep_def list_all2_lengthD)

lemma ladder_rep_splitR:
  assumes "ladder_rep h sd m (gx @ (p, as) # gy)"
  obtains xs lv ys where "m = xs @ (p, lv) # ys" "length xs = length gx" "ladder_rep h sd xs gx"
    "ladder_rep h sd ys gy" "level_rep h (sd, p) lv as" "lv_price lv = p" "as \<noteq> []"
proof -
  define xs where "xs = take (length gx) m"
  define zs where "zs = drop (length gx) m"
  have m: "m = xs @ zs" "length xs = length gx"
    using ladder_rep_length[OF assms] by (simp_all add: xs_def zs_def)
  have r: "ladder_rep h sd xs gx" "ladder_rep h sd zs ((p, as) # gy)"
    using assms m(2) unfolding m(1) by (simp_all add: ladder_rep_append)
  then show thesis using that[of xs] m by (cases zs) auto
qed

lemma ladder_rep_splitL:
  assumes "ladder_rep h sd (xs @ zs) G"
  obtains gx gz where "G = gx @ gz" "length xs = length gx" "ladder_rep h sd xs gx" "ladder_rep h sd zs gz"
  using assms by (auto simp: ladder_rep_def list_all2_append1 dest: list_all2_lengthD)

text \<open>
  The level that \<open>try_emplace\<close> yields for a price, in the map, in the addresses and in the
  specification.
\<close>

lemma ladder_emplace:
  assumes rep: "ladder_rep h sd m G" and sorted: "sorted_wrt (before sd) (map fst G)"
  obtains xs lv ys gx as gy where
    "om_try_emplace (before sd) p (level_new p) m = xs @ (p, lv) # ys"
    "ladder_rep h sd xs gx" "ladder_rep h sd ys gy" "length xs = length gx"
    "level_rep h (sd, p) lv as" "lv_price lv = p" "ladder_addrs G = ladder_addrs gx @ as @ ladder_addrs gy"
    "sorted_wrt (before sd) (map fst (xs @ (p, lv) # ys))"
    "om_try_emplace (before sd) p [] (ladder_view h G) =
       ladder_view h gx @ (p, map (view_at h) as) # ladder_view h gy"
proof (cases "om_find p m")
  case None
  have sorted': "sorted_wrt (before sd) (map fst m)" using ladder_rep_keys[OF rep] sorted by simp
  have "p \<notin> fst ` set m" using None by (simp add: ladder.find_None)
  then obtain xs ys where e: "m = xs @ ys"
    "om_try_emplace (before sd) p (level_new p) m = xs @ (p, level_new p) # ys"
    "sorted_wrt (before sd) (map fst (xs @ (p, level_new p) # ys))"
    using ladder.emplace_new[OF sorted'] by blast
  obtain gx gy where g: "G = gx @ gy" "length xs = length gx" "ladder_rep h sd xs gx"
    "ladder_rep h sd ys gy"
    using ladder_rep_splitL[OF rep[unfolded e(1)]] by blast
  have "sorted_wrt (before sd) (map fst (ladder_view h gx) @ p # map fst (ladder_view h gy))"
    using e(3) ladder_rep_keys[OF g(3)] ladder_rep_keys[OF g(4)] by simp
  then show thesis
    using that[OF e(2) g(3,4,2), of "[]"] e(3) ladder.emplace_at[of sd "ladder_view h gx" p]
    by (simp add: g(1) level_new_def[of p]) (simp add: level_new_def[symmetric])
next
  case (Some lv)
  obtain xs ys where m: "m = xs @ (p, lv) # ys" by (rule ladder.find_Some[OF Some])
  obtain gx gz where g: "G = gx @ gz" "length xs = length gx" "ladder_rep h sd xs gx"
    "ladder_rep h sd ((p, lv) # ys) gz"
    using ladder_rep_splitL[OF rep[unfolded m]] by blast
  obtain as gy where gz: "gz = (p, as) # gy" "ladder_rep h sd ys gy" "level_rep h (sd, p) lv as"
    "lv_price lv = p"
    using g(4) by (cases gz) auto
  have s: "sorted_wrt (before sd) (map fst (xs @ (p, lv) # ys))"
    using sorted ladder_rep_keys[OF rep] m by simp
  have s': "sorted_wrt (before sd) (map fst (ladder_view h gx @ (p, map (view_at h) as) # ladder_view h gy))"
    using sorted by (simp add: g(1) gz(1))
  show thesis
    using that[of xs lv ys gx gy as] g gz s ladder.find_split(4)[OF s] ladder.find_split(4)[OF s'] m
    by simp
qed

lemma ladder_rest_ok:
  assumes rep: "ladder_rep h sd m G" and sorted: "sorted_wrt (before sd) (map fst G)"
    and dist: "distinct (ladder_addrs G)" and mem: "objects mem = h(a \<mapsto> ord)"
    and new: "h a = None"
  shows "\<exists>lv lv' mem' G'.
    om_find (o_price ord) (om_try_emplace (before sd) (o_price ord) (level_new (o_price ord)) m) = Some lv \<and>
    level_enqueue (sd, o_price ord) (Some a) lv mem = Some (lv', mem') \<and>
    ladder_rep (objects mem') sd (om_write (o_price ord) lv'
      (om_try_emplace (before sd) (o_price ord) (level_new (o_price ord)) m)) G' \<and>
    distinct (ladder_addrs G') \<and> set (ladder_addrs G') = insert a (set (ladder_addrs G)) \<and>
    ladder_view (objects mem') G' = spec_rest sd (order_view ord) (ladder_view h G) \<and>
    level_frame mem (insert a (set (ladder_addrs G))) mem'"
proof -
  let ?p = "o_price ord"
  obtain xs lv ys gx as gy where e:
    "om_try_emplace (before sd) ?p (level_new ?p) m = xs @ (?p, lv) # ys"
    "ladder_rep h sd xs gx" "ladder_rep h sd ys gy" "length xs = length gx"
    "level_rep h (sd, ?p) lv as" "lv_price lv = ?p"
    "ladder_addrs G = ladder_addrs gx @ as @ ladder_addrs gy"
    "sorted_wrt (before sd) (map fst (xs @ (?p, lv) # ys))"
    "om_try_emplace (before sd) ?p [] (ladder_view h G) =
       ladder_view h gx @ (?p, map (view_at h) as) # ladder_view h gy"
    by (rule ladder_emplace[OF rep sorted])
  have fresh: "a \<notin> set (ladder_addrs G)" using ladder_rep_dom[OF rep, of a] new by auto
  have old: "objects mem b = h b" if "b \<in> set (ladder_addrs G)" for b
    using that fresh mem by auto
  have lrep: "level_rep (objects mem) (sd, ?p) lv as"
    by (rule level_rep_frame[OF e(5)]) (use old e(7) in auto)
  have a: "objects mem a = Some ord" "a \<notin> set as" using mem fresh e(7) by auto
  obtain lv' mem' where q: "level_enqueue (sd, ?p) (Some a) lv mem = Some (lv', mem')"
    "level_frame mem (insert a (set as)) mem'" "level_rep (objects mem') (sd, ?p) lv' (as @ [a])"
    "lv_price lv' = lv_price lv"
    using level_enqueue_ok[OF lrep a] by blast
  let ?h = "objects mem'" and ?G = "gx @ (?p, as @ [a]) # gy"
  have rest: "?h b = h b" if "b \<in> set (ladder_addrs gx) \<union> set (ladder_addrs gy)" for b
  proof -
    have "b \<notin> insert a (set as)" using that dist fresh e(7) by auto
    then show ?thesis using q(2) old[of b] that e(7) by (simp add: level_frame_def)
  qed
  have view: "view_at ?h b = view_at (objects mem) b" if "objects mem b \<noteq> None" for b
    using q(2) that by (intro same_orders_view) (simp_all add: level_frame_def)
  have vas: "map (view_at ?h) as = map (view_at h) as"
  proof (rule map_cong)
    fix b assume "b \<in> set as"
    then have "objects mem b = h b" "objects mem b \<noteq> None"
      using old[of b] e(7) level_rep_dom[OF lrep, of b] by auto
    then show "view_at ?h b = view_at h b" using view[of b] by (simp add: view_at_def)
  qed simp
  have va: "view_at ?h a = order_view ord" using view[of a] a(1) by (simp add: view_at_def)
  have gxy: "ladder_rep ?h sd xs gx" "ladder_rep ?h sd ys gy"
    "ladder_view ?h gx = ladder_view h gx" "ladder_view ?h gy = ladder_view h gy"
    using rest by (auto intro: ladder_rep_frame[OF e(2)] ladder_rep_frame[OF e(3)]
        ladder_view_frame simp: view_at_def)
  note find = ladder.find_split[OF e(8)]
  have "ladder_rep ?h sd (om_write ?p lv' (xs @ (?p, lv) # ys)) ?G"
    unfolding find(3) using gxy(1,2) q(3,4) e(4,6) by (simp add: ladder_rep_append)
  moreover have "ladder_view ?h ?G = spec_rest sd (order_view ord) (ladder_view h G)"
  proof -
    have "sorted_wrt (before sd) (map fst (ladder_view h gx @ (?p, map (view_at h) as) # ladder_view h gy))"
      using e(8) ladder_rep_keys[OF e(2)] ladder_rep_keys[OF e(3)] by simp
    from ladder.find_split[OF this] show ?thesis
      by (simp add: spec_rest_def e(9) gxy vas va)
  qed
  moreover have "distinct (ladder_addrs ?G)" "set (ladder_addrs ?G) = insert a (set (ladder_addrs G))"
    using dist fresh e(7) by auto
  moreover have "level_frame mem (insert a (set (ladder_addrs G))) mem'"
    by (rule level_frame_mono[OF q(2)]) (use e(7) in auto)
  ultimately show ?thesis unfolding e(1) using find(1) q(1) by blast
qed

section \<open>Related books\<close>

definition sides_rep ::
    "(addr \<Rightarrow> order option) \<Rightarrow> book \<Rightarrow> book_spec \<Rightarrow> (book_side \<Rightarrow> addr list omap) \<Rightarrow> bool" where
  "sides_rep h b A G \<longleftrightarrow>
     (\<forall>sd. ladder_rep h sd (bk_side sd b) (G sd) \<and> distinct (ladder_addrs (G sd)) \<and>
        side_of sd A = ladder_view h (G sd)) \<and>
     dom h = set (ladder_addrs (G Bids)) \<union> set (ladder_addrs (G Asks))"

abbreviation bk_heap :: "book \<Rightarrow> addr \<Rightarrow> order option" where
  "bk_heap b \<equiv> mp_heap (bk_pool b)"

text \<open>The refinement relation: the book of the code and the lists of the specification.\<close>

definition book_rep :: "book \<Rightarrow> book_spec \<Rightarrow> bool" where
  "book_rep b A \<longleftrightarrow>
     spec_wf A \<and> store_ok (bk_pool b) (bk_index b) \<and> sp_next_seq A = bk_next_seq b \<and>
     sp_trades A = bk_trades b \<and> (\<exists>G. sides_rep (bk_heap b) b A G)"

lemma bk_side_simps [simp]:
  "bk_side sd (b\<lparr>bk_pool := x\<rparr>) = bk_side sd b" "bk_side sd (b\<lparr>bk_index := y\<rparr>) = bk_side sd b"
  "bk_side sd (b\<lparr>bk_trades := z\<rparr>) = bk_side sd b" "bk_side sd (b\<lparr>bk_next_seq := n\<rparr>) = bk_side sd b"
  "bk_side sd (bk_set_side sd m b) = m"
  by (cases sd; simp add: bk_side_def bk_set_side_def)+

lemma bk_side_set_other: "bk_side sd (bk_set_side sd' m b) = (if sd = sd' then m else bk_side sd b)"
  by (cases sd; cases sd') (simp_all add: bk_side_def bk_set_side_def)

lemma bk_set_side_fields [simp]:
  "bk_pool (bk_set_side sd m b) = bk_pool b" "bk_index (bk_set_side sd m b) = bk_index b"
  "bk_trades (bk_set_side sd m b) = bk_trades b" "bk_next_seq (bk_set_side sd m b) = bk_next_seq b"
  "bk_stp (bk_set_side sd m b) = bk_stp b"
  by (cases sd; simp add: bk_set_side_def)+

lemma sides_rep_dom:
  "sides_rep h b A G \<Longrightarrow> dom h = set (ladder_addrs (G sd)) \<union> set (ladder_addrs (G (other_side sd)))"
  by (cases sd) (auto simp: sides_rep_def other_side_def)

lemma sides_rep_disjoint:
  assumes "sides_rep h b A G" "sd \<noteq> sd'"
  shows "set (ladder_addrs (G sd)) \<inter> set (ladder_addrs (G sd')) = {}"
proof -
  have "ladder_rep h sd (bk_side sd b) (G sd)" "ladder_rep h sd' (bk_side sd' b) (G sd')"
    using assms(1) by (auto simp: sides_rep_def)
  note dom = ladder_rep_dom[OF this(1)] ladder_rep_dom[OF this(2)]
  show ?thesis
  proof (rule ccontr)
    assume "\<not> ?thesis"
    then obtain x where "x \<in> set (ladder_addrs (G sd))" "x \<in> set (ladder_addrs (G sd'))" by blast
    then show False using dom[of x] assms(2) by auto
  qed
qed

text \<open>Changing one side of a book, the orders of the other staying as they are.\<close>

lemma sides_rep_change:
  assumes rep: "sides_rep h b A G"
    and side: "ladder_rep h' sd m G'" "distinct (ladder_addrs G')"
    and dom: "dom h' = set (ladder_addrs G') \<union> set (ladder_addrs (G (other_side sd)))"
    and same: "\<And>a. a \<in> set (ladder_addrs (G (other_side sd))) \<Longrightarrow> h' a = h a"
    and b': "bk_side sd b' = m" "bk_side (other_side sd) b' = bk_side (other_side sd) b"
    and A': "side_of sd A' = ladder_view h' G'" "side_of (other_side sd) A' = side_of (other_side sd) A"
  shows "sides_rep h' b' A' (G(sd := G'))"
proof -
  let ?o = "other_side sd"
  have "ladder_rep h' ?o (bk_side ?o b) (G ?o)"
    by (rule ladder_rep_frame[of h]) (use rep same in \<open>simp_all add: sides_rep_def\<close>)
  moreover have "ladder_view h' (G ?o) = ladder_view h (G ?o)"
    using same by (intro ladder_view_frame) (simp add: view_at_def)
  ultimately have other: "ladder_rep h' ?o (bk_side ?o b') ((G(sd := G')) ?o) \<and>
      distinct (ladder_addrs ((G(sd := G')) ?o)) \<and> side_of ?o A' = ladder_view h' ((G(sd := G')) ?o)"
    using rep b'(2) A'(2) by (simp add: sides_rep_def)
  have own: "ladder_rep h' sd (bk_side sd b') ((G(sd := G')) sd) \<and>
      distinct (ladder_addrs ((G(sd := G')) sd)) \<and> side_of sd A' = ladder_view h' ((G(sd := G')) sd)"
    using side b'(1) A'(1) by simp
  have "\<forall>x. ladder_rep h' x (bk_side x b') ((G(sd := G')) x) \<and>
      distinct (ladder_addrs ((G(sd := G')) x)) \<and> side_of x A' = ladder_view h' ((G(sd := G')) x)"
  proof
    fix x
    consider "x = sd" | "x = ?o" by (cases x; cases sd) (simp_all add: other_side_def)
    then show "ladder_rep h' x (bk_side x b') ((G(sd := G')) x) \<and>
        distinct (ladder_addrs ((G(sd := G')) x)) \<and> side_of x A' = ladder_view h' ((G(sd := G')) x)"
      by cases (use own other in \<open>simp_all only:\<close>)
  qed
  moreover have "dom h' = set (ladder_addrs ((G(sd := G')) Bids)) \<union> set (ladder_addrs ((G(sd := G')) Asks))"
    using dom by (cases sd) (auto simp: other_side_def)
  ultimately show ?thesis unfolding sides_rep_def by blast
qed

lemma queue_ids_view: "queue_ids (ladder_view h G) = map (\<lambda>a. o_id (view_at h a)) (ladder_addrs G)"
  by (induction G) auto

lemma spec_ids_rep:
  assumes "sides_rep h b A G"
  shows "set (spec_ids A) = {k. \<exists>a ord. h a = Some ord \<and> o_id ord = k}"
proof -
  have "set (spec_ids A) = (\<lambda>a. o_id (view_at h a)) ` dom h"
    using assms by (auto simp: spec_ids_def sides_rep_def queue_ids_view simp flip: side_of_simps(1,2))
  also have "\<dots> = {k. \<exists>a ord. h a = Some ord \<and> o_id ord = k}"
  proof (intro equalityI subsetI)
    fix k assume "k \<in> {k. \<exists>a ord. h a = Some ord \<and> o_id ord = k}"
    then obtain a ord where "h a = Some ord" "o_id ord = k" by blast
    then have "k = o_id (view_at h a)" "a \<in> dom h" by (auto simp: view_at_def)
    then show "k \<in> (\<lambda>a. o_id (view_at h a)) ` dom h" by blast
  qed (auto simp: view_at_def, blast)
  finally show ?thesis .
qed

lemma book_rep_index:
  assumes "book_rep b A"
  shows "fm_alpha (bk_index b) k \<noteq> None \<longleftrightarrow> k \<in> set (spec_ids A)"
proof -
  obtain G where "sides_rep (bk_heap b) b A G" using assms by (auto simp: book_rep_def)
  moreover have "indexed (fm_alpha (bk_index b)) (bk_heap b)"
    using assms by (simp add: book_rep_def store_ok_def)
  ultimately show ?thesis
    unfolding indexed_def by (auto simp: spec_ids_rep)
qed

text \<open>Matching a book.\<close>

lemma book_match_ok:
  assumes rep: "book_rep b A"
  obtains m s where
    "match_side pol tk (bk_side sd b) \<lparr>ms_pool = bk_pool b, ms_index = bk_index b, ms_trades = [],
       ms_remaining = q, ms_stp = False\<rparr> = Some (m, s)"
    "\<exists>m'. spec_match pol tk q (side_of sd A) = (m', ms_remaining s, ms_trades s, ms_stp s) \<and>
       book_rep (bk_set_side sd m (b\<lparr>bk_pool := ms_pool s, bk_index := ms_index s,
           bk_trades := ms_trades s\<rparr>)) ((set_side sd m' A)\<lparr>sp_trades := ms_trades s\<rparr>)"
proof -
  obtain G where G: "sides_rep (bk_heap b) b A G" using rep by (auto simp: book_rep_def)
  let ?s = "\<lparr>ms_pool = bk_pool b, ms_index = bk_index b, ms_trades = [],
       ms_remaining = q, ms_stp = False\<rparr>"
  have "ms_ok ?s" using rep by (simp add: ms_ok_def book_rep_def)
  moreover have "ladder_rep (ms_heap ?s) sd (bk_side sd b) (G sd)" "distinct (ladder_addrs (G sd))"
    and view: "ladder_view (ms_heap ?s) (G sd) = side_of sd A"
    using G by (auto simp: sides_rep_def)
  ultimately obtain m s G' where r: "match_side pol tk (bk_side sd b) ?s = Some (m, s)"
    "side_outcome sd ?s (G sd) (spec_match pol tk q (side_of sd A)) m s G'"
    using match_side_ok[of ?s sd "bk_side sd b" "G sd" pol tk] unfolding view by auto
  obtain m' r' ts' stp' where sp: "spec_match pol tk q (side_of sd A) = (m', r', ts', stp')"
    using prod_cases4 by blast
  have o: "ladder_rep (ms_heap s) sd m G'" "suffix (ladder_addrs G') (ladder_addrs (G sd))"
    "consumes ?s (set (ladder_addrs (G sd))) (set (ladder_addrs (G sd)) - set (ladder_addrs G')) s"
    "m' = ladder_view (ms_heap s) G'" "r' = ms_remaining s" "ts' = ms_trades s" "stp' = ms_stp s"
    using r(2) unfolding sp side_outcome_def by auto
  let ?o = "other_side sd"
  have disj: "set (ladder_addrs (G sd)) \<inter> set (ladder_addrs (G ?o)) = {}"
    using sides_rep_disjoint[OF G] by simp
  have "dom (ms_heap s) = set (ladder_addrs G') \<union> set (ladder_addrs (G ?o))"
    using o(3) sides_rep_dom[OF G, of sd] set_mono_suffix[OF o(2)] disj by (auto simp: consumes_def)
  moreover have "distinct (ladder_addrs G')"
    using G o(2) unfolding sides_rep_def suffix_def by (metis distinct_append)
  moreover have "ms_heap s a = bk_heap b a" if "a \<in> set (ladder_addrs (G ?o))" for a
    using o(3) that disj by (auto simp: consumes_def)
  ultimately have "sides_rep (ms_heap s)
      (bk_set_side sd m (b\<lparr>bk_pool := ms_pool s, bk_index := ms_index s, bk_trades := ms_trades s\<rparr>))
      ((set_side sd m' A)\<lparr>sp_trades := ms_trades s\<rparr>) (G(sd := G'))"
    using o(1,4) by (intro sides_rep_change[OF G]) (auto simp: bk_side_set_other side_of_set_other)
  moreover have "spec_wf (set_side sd m' A)"
    using rep by (intro spec_match_book_wf(1)[OF _ sp]) (simp add: book_rep_def)
  moreover have "store_ok (ms_pool s) (ms_index s)" using o(3) by (simp add: consumes_def ms_ok_def)
  ultimately have "book_rep (bk_set_side sd m (b\<lparr>bk_pool := ms_pool s, bk_index := ms_index s,
           bk_trades := ms_trades s\<rparr>)) ((set_side sd m' A)\<lparr>sp_trades := ms_trades s\<rparr>)"
    using rep by (auto simp: book_rep_def)
  then show thesis using that[OF r(1)] sp o(5-7) by blast
qed

section \<open>Submitting\<close>

text \<open>
  The block of \<open>submit\<close> that rests the remainder: acquire an order, number it, enqueue it at its
  price and index it.
\<close>

definition book_insert ::
    "order_id \<Rightarrow> trader_id \<Rightarrow> side \<Rightarrow> price \<Rightarrow> quantity \<Rightarrow> book \<Rightarrow> book option" where
  "book_insert oid trader sd price q b =
     do {
       (p, pool) \<leftarrow> mp_acquire (order_new oid trader sd price q) (bk_pool b);
       ord \<leftarrow> load (mp_mem pool) p;
       mem \<leftarrow> poke (mp_mem pool) p (set_sequence (bk_next_seq b) ord);
       b3 \<leftarrow> book_rest (own_side sd) price p
         (b\<lparr>bk_pool := pool\<lparr>mp_mem := mem\<rparr>, bk_next_seq := bk_next_seq b + 1\<rparr>);
       idx \<leftarrow> fm_insert (bk_index b3) oid p;
       Some (b3\<lparr>bk_index := idx\<rparr>)
     }"

lemma order_view_new:
  "order_view (set_sequence sq (order_new oid trader sd price q)) = resting_order oid trader sd price q sq"
  by (simp add: order_data.truncate_def set_sequence_def order_new_def resting_order_def)

lemma book_insert_ok:
  assumes rep: "book_rep b A" and new: "oid \<notin> set (spec_ids A)" "q \<noteq> 0"
    and away: "\<forall>p \<in> prices (side_of (other_side (own_side sd)) A). \<not> crosses sd price p"
  obtains b' where "book_insert oid trader sd price q b = Some b'"
    "book_rep b' ((set_side (own_side sd) (spec_rest (own_side sd)
       (resting_order oid trader sd price q (sp_next_seq A)) (side_of (own_side sd) A)) A)
       \<lparr>sp_next_seq := sp_next_seq A + 1\<rparr>)"
    "bk_trades b' = bk_trades b" "bk_stp b' = bk_stp b"
proof -
  let ?sd = "own_side sd"
  obtain G where G: "sides_rep (bk_heap b) b A G" using rep by (auto simp: book_rep_def)
  have store: "mp_inv (bk_pool b)" "fm_inv (bk_index b)" "indexed (fm_alpha (bk_index b)) (bk_heap b)"
    using rep by (simp_all add: book_rep_def store_ok_def)
  define ord where "ord = set_sequence (bk_next_seq b) (order_new oid trader sd price q)"
  have ord: "o_id ord = oid" "o_price ord = price"
    by (simp_all add: ord_def set_sequence_def order_new_def)
  obtain a pool where acq: "mp_acquire (order_new oid trader sd price q) (bk_pool b) = Some (Some a, pool)"
    "mp_inv pool" "bk_heap b a = None"
    "mp_heap pool = (bk_heap b)(a \<mapsto> order_new oid trader sd price q)"
    by (rule mp.acquireE[OF store(1)])
  define mem where "mem = (mp_mem pool)(a \<mapsto> Object ord)"
  have heap: "objects (mp_mem pool) a = Some (order_new oid trader sd price q)"
    using acq(4) by (simp add: mp_heap_def)
  have mem: "objects mem = (bk_heap b)(a \<mapsto> ord)"
    using acq(4) by (simp add: mem_def mp_heap_def)
  have side: "ladder_rep (bk_heap b) ?sd (bk_side ?sd b) (G ?sd)" "distinct (ladder_addrs (G ?sd))"
    "side_of ?sd A = ladder_view (bk_heap b) (G ?sd)"
    using G by (auto simp: sides_rep_def)
  have "ladder_wf ?sd (side_of ?sd A)" using rep by (simp add: book_rep_def spec_wf_side)
  then have sorted: "sorted_wrt (before ?sd) (map fst (G ?sd))" by (simp add: ladder_wf_def side(3))
  obtain lv lv' mem' G' where r:
    "om_find price (om_try_emplace (before ?sd) price (level_new price) (bk_side ?sd b)) = Some lv"
    "level_enqueue (?sd, price) (Some a) lv mem = Some (lv', mem')"
    "ladder_rep (objects mem') ?sd (om_write price lv'
      (om_try_emplace (before ?sd) price (level_new price) (bk_side ?sd b))) G'"
    "distinct (ladder_addrs G')" "set (ladder_addrs G') = insert a (set (ladder_addrs (G ?sd)))"
    "ladder_view (objects mem') G' = spec_rest ?sd (order_view ord) (ladder_view (bk_heap b) (G ?sd))"
    "level_frame mem (insert a (set (ladder_addrs (G ?sd)))) mem'"
    using ladder_rest_ok[OF side(1) sorted side(2) mem acq(3)] unfolding ord(2) by blast
  have none: "fm_alpha (bk_index b) oid = None" using book_rep_index[OF rep, of oid] new(1) by auto
  obtain idx where idx: "fm_insert (bk_index b) oid (Some a) = Some idx" "fm_inv idx"
    "fm_alpha idx = (fm_alpha (bk_index b))(oid \<mapsto> Some a)"
    by (rule fm.putE[OF store(2)])
  let ?b = "bk_set_side ?sd (om_write price lv' (om_try_emplace (before ?sd) price (level_new price)
    (bk_side ?sd b))) (b\<lparr>bk_next_seq := bk_next_seq b + 1, bk_pool := pool\<lparr>mp_mem := mem'\<rparr>\<rparr>)
    \<lparr>bk_index := idx\<rparr>"
  let ?A = "(set_side ?sd (spec_rest ?sd (resting_order oid trader sd price q (sp_next_seq A))
    (side_of ?sd A)) A)\<lparr>sp_next_seq := sp_next_seq A + 1\<rparr>"
  have run: "book_insert oid trader sd price q b = Some ?b"
    using acq(1) heap r(1,2) idx(1)
    by (simp add: book_insert_def book_rest_def ord_def[symmetric] mem_def[symmetric])
  have "store_ok (pool\<lparr>mp_mem := mem'\<rparr>) idx"
  proof -
    have "mp_inv (pool\<lparr>mp_mem := mem\<rparr>)"
      unfolding mem_def using heap by (intro mp_inv_layout(1)[OF acq(2)]) simp
    moreover have "indexed (fm_alpha idx) (objects mem)"
      unfolding idx(3) mem ord(1)[symmetric] using store(3) none acq(3) ord(1)
      by (intro indexed_insert) auto
    ultimately have "store_ok (pool\<lparr>mp_mem := mem\<rparr>) idx"
      using idx(2) by (simp add: store_ok_def mp_heap_def)
    then show ?thesis using store_ok_frame[of "pool\<lparr>mp_mem := mem\<rparr>" idx _ mem'] r(7) by simp
  qed
  moreover have "spec_wf ?A"
    using spec_rest_book_wf[of A "resting_order oid trader sd price q (sp_next_seq A)"] rep new away
    by (simp add: book_rep_def)
  moreover have "sides_rep (objects mem') ?b ?A (G(?sd := G'))"
  proof (rule sides_rep_change[OF G r(3,4)])
    have disj: "set (ladder_addrs (G ?sd)) \<inter> set (ladder_addrs (G (other_side ?sd))) = {}"
      using sides_rep_disjoint[OF G] by simp
    have "dom (objects mem') = insert a (dom (bk_heap b))"
      using r(7) mem same_orders_dom[of "objects mem" "objects mem'"]
      by (auto simp: level_frame_def dom_def)
    then show "dom (objects mem') = set (ladder_addrs G') \<union> set (ladder_addrs (G (other_side ?sd)))"
      using sides_rep_dom[OF G, of ?sd] r(5) by simp
    fix c assume c: "c \<in> set (ladder_addrs (G (other_side ?sd)))"
    then have "c \<in> dom (bk_heap b)" using sides_rep_dom[OF G, of ?sd] by simp
    then have "c \<noteq> a" using acq(3) by auto
    then show "objects mem' c = bk_heap b c"
      using r(7) mem c disj by (auto simp: level_frame_def)
  next
    show "side_of ?sd ?A = ladder_view (objects mem') G'"
      using r(6) rep by (simp add: side(3) ord_def order_view_new book_rep_def)
  qed (simp_all add: bk_side_set_other side_of_set_other)
  ultimately have "book_rep ?b ?A"
    using rep by (auto simp: book_rep_def mp_heap_def)
  then show thesis using that[OF run] by simp
qed

text \<open>\<open>submit\<close> over the two blocks.\<close>

lemma book_submit_blocks:
  "book_submit oid trader sd price quantity b =
     do {
       reject \<leftarrow> (if quantity = 0 then Some True else fm_contains (bk_index b) oid);
       if reject then Some (submit_result_init, b\<lparr>bk_trades := []\<rparr>)
       else
         do {
           let opp = other_side (own_side sd);
           (m, s1) \<leftarrow> match_side (bk_stp b) (submit_taker oid trader sd price) (bk_side opp b)
             \<lparr>ms_pool = bk_pool b, ms_index = bk_index b, ms_trades = [],
              ms_remaining = quantity, ms_stp = False\<rparr>;
           let b1 = bk_set_side opp m (b\<lparr>bk_pool := ms_pool s1, bk_index := ms_index s1,
                      bk_trades := ms_trades s1\<rparr>);
           let r = ms_remaining s1;
           let res = submit_result_init\<lparr>r_filled := quantity - r,
                       r_trade_count := of_nat (length (ms_trades s1))\<rparr>;
           if ms_stp s1 then Some (res\<lparr>r_status := CancelledBySelfTrade\<rparr>, b1)
           else if r > 0 then
             do {
               b3 \<leftarrow> book_insert oid trader sd price r b1;
               Some (res\<lparr>r_resting := r,
                 r_status := (if 0 < quantity - r then PartiallyFilled else Rested)\<rparr>, b3)
             }
           else Some (res\<lparr>r_status := FullyFilled\<rparr>, b1)
         }
     }"
proof -
  have opp: "(if sd = Buy then Asks else Bids) = other_side (own_side sd)"
    and own: "(if sd = Buy then Bids else Asks) = own_side sd"
    by (cases "sd = Buy"; simp add: own_side_def other_side_def)+
  have z: "submit_result_init\<lparr>r_filled := x, r_trade_count := n, r_status := st, r_resting := 0\<rparr> =
      submit_result_init\<lparr>r_filled := x, r_trade_count := n, r_status := st\<rparr>" for x n st
    by (simp add: submit_result_init_def)
  show ?thesis
    unfolding book_submit_def book_insert_def submit_taker_def[symmetric] opp own
    by (simp add: Let_def split_def z Option.bind_assoc cong: if_cong)
qed

lemma book_rep_refused: "book_rep b A \<Longrightarrow> book_rep (b\<lparr>bk_trades := []\<rparr>) (A\<lparr>sp_trades := []\<rparr>)"
  by (auto simp: book_rep_def sides_rep_def)

text \<open>A submission of the code is the submission of the specification.\<close>

lemma book_submit_ok:
  assumes rep: "book_rep b A"
  obtains res b' A' where "book_submit oid trader sd price q b = Some (res, b')"
    "spec_submit (bk_stp b) oid trader sd price q A = (res, A')" "book_rep b' A'" "bk_stp b' = bk_stp b"
proof (cases "q = 0 \<or> oid \<in> set (spec_ids A)")
  case True
  have "fm_contains (bk_index b) oid = Some (fm_alpha (bk_index b) oid \<noteq> None)"
    using rep by (intro fm_contains_ok) (simp add: book_rep_def store_ok_def)
  then have "book_submit oid trader sd price q b = Some (submit_result_init, b\<lparr>bk_trades := []\<rparr>)"
    using True book_rep_index[OF rep, of oid] by (auto simp: book_submit_def)
  then show thesis using that book_rep_refused[OF rep] True by (simp add: spec_submit_def)
next
  case False
  let ?opp = "other_side (own_side sd)" and ?tk = "submit_taker oid trader sd price"
  have contains: "fm_contains (bk_index b) oid = Some False"
    using rep False book_rep_index[OF rep, of oid] fm_contains_ok[of "bk_index b" oid]
    by (simp add: book_rep_def store_ok_def)
  obtain m s where m: "match_side (bk_stp b) ?tk (bk_side ?opp b)
      \<lparr>ms_pool = bk_pool b, ms_index = bk_index b, ms_trades = [], ms_remaining = q, ms_stp = False\<rparr> =
      Some (m, s)"
    and ex: "\<exists>m'. spec_match (bk_stp b) ?tk q (side_of ?opp A) =
        (m', ms_remaining s, ms_trades s, ms_stp s) \<and>
      book_rep (bk_set_side ?opp m (b\<lparr>bk_pool := ms_pool s, bk_index := ms_index s,
          bk_trades := ms_trades s\<rparr>)) ((set_side ?opp m' A)\<lparr>sp_trades := ms_trades s\<rparr>)"
    by (rule book_match_ok[OF rep])
  define b1 where "b1 = bk_set_side ?opp m (b\<lparr>bk_pool := ms_pool s, bk_index := ms_index s,
    bk_trades := ms_trades s\<rparr>)"
  obtain m' where sp: "spec_match (bk_stp b) ?tk q (side_of ?opp A) =
      (m', ms_remaining s, ms_trades s, ms_stp s)"
    and rep1: "book_rep b1 ((set_side ?opp m' A)\<lparr>sp_trades := ms_trades s\<rparr>)"
    using ex by (auto simp: b1_def)
  let ?A1 = "(set_side ?opp m' A)\<lparr>sp_trades := ms_trades s\<rparr>" and ?r = "ms_remaining s"
  let ?res = "submit_result_init\<lparr>r_filled := q - ?r, r_trade_count := of_nat (length (ms_trades s))\<rparr>"
  note run = book_submit_blocks[of oid trader sd price q b, unfolded Let_def m]
  note spec = spec_submit_def[of "bk_stp b" oid trader sd price q A,
      unfolded Let_def submit_taker_def[symmetric] sp prod.case]
  have stp: "bk_stp b1 = bk_stp b" by (simp add: b1_def)
  consider "ms_stp s" | "\<not> ms_stp s" "?r = 0" | "\<not> ms_stp s" "?r \<noteq> 0" by blast
  then show thesis
  proof cases
    case 1
    then show thesis
      using that[of "?res\<lparr>r_status := CancelledBySelfTrade\<rparr>" b1 ?A1] False contains run spec rep1 stp
      by (simp add: b1_def)
  next
    case 2
    then show thesis
      using that[of "?res\<lparr>r_status := FullyFilled\<rparr>" b1 ?A1] False contains run spec rep1 stp
      by (simp add: b1_def)
  next
    case 3
    have "\<forall>p \<in> prices m'. \<not> crosses sd price p"
      using spec_match_exhausts[OF sp] 3 rep by (simp add: book_rep_def spec_wf_side)
    moreover have "oid \<notin> set (spec_ids ?A1)"
      using spec_match_book_wf(2)[OF _ sp] False rep by (auto simp: book_rep_def)
    ultimately obtain b' where b': "book_insert oid trader sd price ?r b1 = Some b'"
      "book_rep b' ((set_side (own_side sd) (spec_rest (own_side sd)
         (resting_order oid trader sd price ?r (sp_next_seq ?A1)) (side_of (own_side sd) ?A1)) ?A1)
         \<lparr>sp_next_seq := sp_next_seq ?A1 + 1\<rparr>)"
      "bk_trades b' = bk_trades b1" "bk_stp b' = bk_stp b1"
      using book_insert_ok[OF rep1, of oid ?r sd price trader] 3(2) by auto
    show thesis
      using that[OF _ _ b'(2)] False contains run spec b'(1,4) stp 3
      by (simp add: b1_def[symmetric] word_gt_0 side_of_set_other)
  qed
qed

section \<open>Cancelling\<close>

text \<open>A live order, in its level.\<close>

lemma ladder_locate:
  assumes "ladder_rep h sd m G" "sorted_wrt (before sd) (map fst G)" "a \<in> set (ladder_addrs G)"
  obtains xs p lv ys gx as1 as2 gy where "m = xs @ (p, lv) # ys" "G = gx @ (p, as1 @ a # as2) # gy"
    "length xs = length gx" "ladder_rep h sd xs gx" "ladder_rep h sd ys gy"
    "level_rep h (sd, p) lv (as1 @ a # as2)" "lv_price lv = p"
    "sorted_wrt (before sd) (map fst (xs @ (p, lv) # ys))"
proof -
  obtain n where n: "n \<in> set G" "a \<in> set (snd n)" using assms(3) by (auto simp: ladder_addrs_def)
  obtain p as where pas: "n = (p, as)" by fastforce
  obtain as1 as2 where as: "as = as1 @ a # as2" using n(2) pas split_list by fastforce
  obtain gx gy where G: "G = gx @ (p, as1 @ a # as2) # gy" using split_list n(1) pas as by metis
  have keys: "map fst m = map fst G" by (rule ladder_rep_keys[OF assms(1)])
  show thesis
    by (rule ladder_rep_splitR[OF assms(1)[unfolded G]]) (use that G keys assms(2) in auto)
qed

text \<open>Taking an order out of its level, and the level out of the map when it becomes empty.\<close>

lemma ladder_unlink_ok:
  assumes rep: "ladder_rep (objects mem) sd m G" and wf: "ladder_wf sd (ladder_view (objects mem) G)"
    and ids: "distinct (queue_ids (ladder_view (objects mem) G))"
    and dist: "distinct (ladder_addrs G)" and a: "a \<in> set (ladder_addrs G)"
    and ord: "objects mem a = Some ord"
  shows "\<exists>p lv lv' mem' G'. o_level ord = Some (sd, p) \<and> om_find p m = Some lv \<and> lv_price lv = p \<and>
    own_side (o_side ord) = sd \<and>
    level_unlink (Some a) lv mem = Some (lv', mem') \<and>
    level_frame mem (set (ladder_addrs G)) mem' \<and>
    ladder_rep ((objects mem')(a := None)) sd
      (if level_empty lv' then om_erase p (om_write p lv' m) else om_write p lv' m) G' \<and>
    distinct (ladder_addrs G') \<and> set (ladder_addrs G') = set (ladder_addrs G) - {a} \<and>
    ladder_view ((objects mem')(a := None)) G' =
      spec_remove (o_id ord) (ladder_view (objects mem) G)"
proof -
  let ?h = "objects mem"
  have sorted: "sorted_wrt (before sd) (map fst G)" using wf by (simp add: ladder_wf_def)
  obtain xs p lv ys gx as1 as2 gy where l: "m = xs @ (p, lv) # ys" "G = gx @ (p, as1 @ a # as2) # gy"
    "length xs = length gx" "ladder_rep ?h sd xs gx" "ladder_rep ?h sd ys gy"
    "level_rep ?h (sd, p) lv (as1 @ a # as2)" "lv_price lv = p"
    "sorted_wrt (before sd) (map fst (xs @ (p, lv) # ys))"
    by (rule ladder_locate[OF rep sorted a])
  obtain lv' mem' where u: "level_unlink (Some a) lv mem = Some (lv', mem')"
    "level_frame mem (set (as1 @ a # as2)) mem'" "level_rep (objects mem') (sd, p) lv' (as1 @ as2)"
    "lv_price lv' = lv_price lv"
    using level_unlink_ok[OF l(6)] by blast
  let ?h' = "(objects mem')(a := None)"
  let ?mid = "if as1 @ as2 = [] then [] else [(p, as1 @ as2)]"
  let ?G = "gx @ ?mid @ gy"
  have rest: "?h' b = ?h b" if "b \<in> set (ladder_addrs gx) \<union> set (ladder_addrs gy)" for b
  proof -
    have "b \<notin> set (as1 @ a # as2)" using that dist l(2) by auto
    then show ?thesis using u(2) by (auto simp: level_frame_def)
  qed
  have gxy: "ladder_rep ?h' sd xs gx" "ladder_rep ?h' sd ys gy"
    "ladder_view ?h' gx = ladder_view ?h gx" "ladder_view ?h' gy = ladder_view ?h gy"
    using rest by (auto intro: ladder_rep_frame[OF l(4)] ladder_rep_frame[OF l(5)]
        ladder_view_frame simp: view_at_def)
  have na: "a \<notin> set (as1 @ as2)" using dist l(2) by auto
  have lrep: "level_rep ?h' (sd, p) lv' (as1 @ as2)"
    by (rule level_rep_frame[OF u(3)]) (use na in auto)
  have views: "map (view_at ?h') bs = map (view_at ?h) bs" if "set bs \<subseteq> set (as1 @ as2)" for bs
  proof (rule map_cong)
    fix b assume "b \<in> set bs"
    then have b: "b \<in> set (as1 @ a # as2)" "b \<noteq> a" using that na by auto
    then have "view_at (objects mem') b = view_at ?h b"
      using level_rep_dom[OF l(6) b(1)] u(2) by (intro same_orders_view) (auto simp: level_frame_def)
    then show "view_at ?h' b = view_at ?h b" using b(2) by (simp add: view_at_def)
  qed simp
  note find = ladder.find_split[OF l(8)]
  have s': "sorted_wrt (before sd) (map fst (xs @ (p, lv') # ys))" using l(8) by simp
  have "ladder_rep ?h' sd
      (if level_empty lv' then om_erase p (om_write p lv' m) else om_write p lv' m) ?G"
    unfolding l(1) find(3) ladder.find_split(2)[OF s'] using gxy(1,2) lrep u(4) l(3,7) level_rep_empty[OF lrep]
    by (auto simp: ladder_rep_append)
  moreover have "ladder_view ?h' ?G = spec_remove (o_id ord) (ladder_view ?h G)"
  proof -
    have "view_at ?h a = order_view ord" using ord by (rule view_at_Some)
    then have "ladder_view ?h G =
        ladder_view ?h gx @ (p, map (view_at ?h) as1 @ order_view ord # map (view_at ?h) as2) # ladder_view ?h gy"
      by (simp add: l(2))
    from spec_remove_at[OF wf[unfolded this] ids[unfolded this]] this
    show ?thesis using views[of as1] views[of as2] gxy(3,4) by auto
  qed
  moreover have "o_level ord = Some (sd, p)" using level_rep_dom[OF l(6), of a] ord by auto
  moreover have "own_side (o_side ord) = sd"
  proof -
    have "queue_wf sd p (map (view_at ?h) (as1 @ a # as2))"
      using wf by (simp add: l(2) ladder_wf_append ladder_wf_Cons)
    then show ?thesis using ord by (simp add: view_at_def)
  qed
  moreover have "distinct (ladder_addrs ?G)" "set (ladder_addrs ?G) = set (ladder_addrs G) - {a}"
    using dist l(2) by auto
  moreover have "level_frame mem (set (ladder_addrs G)) mem'"
    by (rule level_frame_mono[OF u(2)]) (use l(2) in auto)
  moreover have "om_find p m = Some lv" unfolding l(1) by (rule find(1))
  ultimately show ?thesis using l(7) u(1) by blast
qed

text \<open>Erasing the empty level: the code picks the map by the side of the order.\<close>

lemma erase_own_side:
  "(if sd = Buy then b\<lparr>bk_bids := om_erase p (bk_bids b)\<rparr>
    else b\<lparr>bk_asks := om_erase p (bk_asks b)\<rparr>) =
   bk_set_side (own_side sd) (om_erase p (bk_side (own_side sd) b)) b"
  by (simp add: own_side_def bk_set_side_def bk_side_def)

lemma spec_cancel_side:
  assumes wf: "spec_wf A" and mem: "oid \<in> set (queue_ids (side_of sd A))"
  shows "spec_cancel oid A = (True, set_side sd (spec_remove oid (side_of sd A)) A)"
proof -
  have "oid \<notin> set (queue_ids (side_of (other_side sd) A))"
    using wf mem distinct_spec_ids[of A sd] by (auto simp: spec_wf_def)
  then have "spec_remove oid (side_of (other_side sd) A) = side_of (other_side sd) A"
    by (intro spec_remove_absent[OF spec_wf_side[OF wf]])
  then show ?thesis
    using mem by (cases sd) (simp_all add: spec_cancel_def set_side_def spec_ids_def other_side_def)
qed

lemma spec_cancel_absent:
  assumes wf: "spec_wf A" and mem: "oid \<notin> set (spec_ids A)"
  shows "spec_cancel oid A = (False, A)"
  using assms spec_remove_absent[of Bids "sp_bids A" oid] spec_remove_absent[of Asks "sp_asks A" oid]
  by (simp add: spec_cancel_def spec_ids_def spec_wf_def)

lemma book_cancel_ok:
  assumes rep: "book_rep b A"
  obtains b' where "book_cancel oid b = Some (fst (spec_cancel oid A), b')"
    "book_rep b' (snd (spec_cancel oid A))" "bk_stp b' = bk_stp b"
proof -
  have wf: "spec_wf A" and store: "store_ok (bk_pool b) (bk_index b)"
    using rep by (simp_all add: book_rep_def)
  have inv: "fm_inv (bk_index b)" and ix: "indexed (fm_alpha (bk_index b)) (bk_heap b)"
    using store by (simp_all add: store_ok_def)
  obtain G where G: "sides_rep (bk_heap b) b A G" using rep by (auto simp: book_rep_def)
  show thesis
  proof (cases "fm_alpha (bk_index b) oid")
    case None
    then have "book_cancel oid b = Some (False, b)"
      using fm.lookup_alpha[OF inv, of oid] by (simp add: book_cancel_def)
    moreover have "oid \<notin> set (spec_ids A)" using None book_rep_index[OF rep, of oid] by simp
    ultimately show thesis using that rep spec_cancel_absent[OF wf] by simp
  next
    case (Some v)
    then obtain a ord where v: "v = Some a" "bk_heap b a = Some ord" "o_id ord = oid"
      using ix by (auto simp: indexed_def)
    obtain sd where a: "a \<in> set (ladder_addrs (G sd))"
      using v(2) G by (auto simp: sides_rep_def dom_def)
    let ?mem = "mp_mem (bk_pool b)" and ?o = "other_side sd"
    have heap: "objects ?mem = bk_heap b" by (simp add: mp_heap_def)
    have side: "ladder_rep (objects ?mem) sd (bk_side sd b) (G sd)" "distinct (ladder_addrs (G sd))"
      "side_of sd A = ladder_view (objects ?mem) (G sd)"
      using G by (auto simp: sides_rep_def heap)
    have lwf: "ladder_wf sd (ladder_view (objects ?mem) (G sd))"
      using spec_wf_side[OF wf, of sd] by (simp add: side(3))
    have ids: "distinct (queue_ids (ladder_view (objects ?mem) (G sd)))"
      using wf distinct_spec_ids[of A sd] by (simp add: spec_wf_def side(3))
    obtain p lv lv' mem' G' where u: "o_level ord = Some (sd, p)" "om_find p (bk_side sd b) = Some lv"
      "lv_price lv = p" "own_side (o_side ord) = sd" "level_unlink (Some a) lv ?mem = Some (lv', mem')"
      "level_frame ?mem (set (ladder_addrs (G sd))) mem'"
      "ladder_rep ((objects mem')(a := None)) sd
        (if level_empty lv' then om_erase p (om_write p lv' (bk_side sd b))
         else om_write p lv' (bk_side sd b)) G'"
      "distinct (ladder_addrs G')" "set (ladder_addrs G') = set (ladder_addrs (G sd)) - {a}"
      "ladder_view ((objects mem')(a := None)) G' =
        spec_remove (o_id ord) (ladder_view (objects ?mem) (G sd))"
      using ladder_unlink_ok[OF side(1) lwf ids side(2) a] v(2) unfolding heap by blast
    have pool1: "store_ok ((bk_pool b)\<lparr>mp_mem := mem'\<rparr>) (bk_index b)"
      by (rule store_ok_frame[OF store u(6)])
    have same: "map_option o_id (objects mem' c) = map_option o_id (bk_heap b c)" for c
      using u(6) by (intro same_orders_ids) (simp add: level_frame_def heap)
    obtain ord' where ord': "mp_heap ((bk_pool b)\<lparr>mp_mem := mem'\<rparr>) a = Some ord'" "o_id ord' = oid"
      using same[of a] v(2,3) by (auto simp: mp_heap_def)
    obtain idx pool where r: "fm_erase (bk_index b) (o_id ord') = Some (True, idx)"
      "mp_release (Some a) ((bk_pool b)\<lparr>mp_mem := mem'\<rparr>) = Some pool" "store_ok pool idx"
      "mp_heap pool = (mp_heap ((bk_pool b)\<lparr>mp_mem := mem'\<rparr>))(a := None)"
      by (rule store_ok_remove[OF pool1 ord'(1)])
    define h where "h = (objects mem')(a := None)"
    have hpool: "mp_heap pool = h" using r(4) by (simp add: h_def mp_heap_def)
    let ?m = "if level_empty lv' then om_erase p (om_write p lv' (bk_side sd b))
      else om_write p lv' (bk_side sd b)"
    let ?b = "bk_set_side sd ?m (b\<lparr>bk_index := idx, bk_pool := pool\<rparr>)"
    let ?A = "set_side sd (spec_remove oid (side_of sd A)) A"
    have "book_cancel oid b = Some (True, ?b)"
    proof -
      have set2: "bk_set_side sd x (bk_set_side sd y b1) = bk_set_side sd x b1"
        "(bk_set_side sd y b1)\<lparr>bk_pool := pool\<rparr> = bk_set_side sd y (b1\<lparr>bk_pool := pool\<rparr>)" for x y b1
        by (cases sd; simp add: bk_set_side_def)+
      show ?thesis
        using fm.lookup_alpha[OF inv, of oid] Some v(1,2) r(1,2) ord'(2) u(1-5)
        by (simp add: book_cancel_def erase_own_side set2 heap Let_def)
    qed
    moreover have cancel: "spec_cancel oid A = (True, ?A)"
    proof (rule spec_cancel_side[OF wf])
      have "oid = o_id (view_at (bk_heap b) a)" using v by (simp add: view_at_def)
      then show "oid \<in> set (queue_ids (side_of sd A))"
        using a by (simp add: side(3) queue_ids_view heap)
    qed
    moreover have "spec_wf ?A" using spec_cancel_wf[OF cancel wf] .
    moreover have "sides_rep h ?b ?A (G(sd := G'))"
    proof (rule sides_rep_change[OF G])
      have disj: "set (ladder_addrs (G sd)) \<inter> set (ladder_addrs (G ?o)) = {}"
        using sides_rep_disjoint[OF G] by simp
      show "ladder_rep h sd ?m G'" "distinct (ladder_addrs G')" using u(7,8) by (simp_all add: h_def)
      have "dom (objects mem') = dom (bk_heap b)"
        using same by (auto simp: dom_def) (metis map_option_is_None option.exhaust_sel)+
      then show "dom h = set (ladder_addrs G') \<union> set (ladder_addrs (G ?o))"
        using sides_rep_dom[OF G, of sd] u(9) a disj by (auto simp: h_def)
      show "side_of sd ?A = ladder_view h G'" using u(10) v(3) by (simp add: side(3) h_def)
      show "h c = bk_heap b c" if "c \<in> set (ladder_addrs (G ?o))" for c
        using u(6) that disj a by (auto simp: h_def level_frame_def heap)
    qed (simp_all add: bk_side_set_other side_of_set_other)
    ultimately show thesis
      using that[of ?b] rep r(3) by (auto simp: book_rep_def hpool)
  qed
qed

section \<open>New books\<close>

lemma book_new_ok:
  obtains b where "book_new pol cap = Some b" "book_rep b spec_new" "bk_stp b = pol"
proof -
  obtain idx0 :: "ptr flat_map" where idx0: "fm_new 16 = Some idx0" "fm_inv idx0" "fm_alpha idx0 = Map.empty"
    by (rule fm_new_ok[of 16]) simp_all
  obtain idx where idx: "fm_reserve cap idx0 = Some idx" "fm_inv idx" "fm_alpha idx = fm_alpha idx0"
    using fm_reserve_ok[OF idx0(2), of cap] by blast
  let ?b = "\<lparr>bk_stp = pol, bk_pool = mp_new (unat cap), bk_bids = [], bk_asks = [],
             bk_index = idx, bk_next_seq = 1, bk_trades = []\<rparr>"
  have "store_ok (bk_pool ?b) (bk_index ?b)"
    using idx idx0 by (simp add: store_ok_def indexed_def mp_new_ok)
  moreover have "sides_rep (bk_heap ?b) ?b spec_new (\<lambda>_. [])"
  proof -
    have "bk_side sd ?b = []" "side_of sd spec_new = []" for sd
      by (cases sd; simp add: bk_side_def spec_new_def)+
    then show ?thesis by (simp add: sides_rep_def mp_new_ok)
  qed
  ultimately have "book_rep ?b spec_new"
    using spec_wf_new by (auto simp: book_rep_def spec_new_def)
  then show thesis using that[of ?b] idx0(1) idx(1) by (simp add: book_new_def)
qed

section \<open>Queries\<close>

lemma book_rep_side:
  assumes "book_rep b A"
  obtains G where "ladder_rep (bk_heap b) sd (bk_side sd b) G" "side_of sd A = ladder_view (bk_heap b) G"
    "distinct (ladder_addrs G)"
  using assms by (auto simp: book_rep_def sides_rep_def)

lemma book_rep_prices: "book_rep b A \<Longrightarrow> map fst (bk_side sd b) = map fst (side_of sd A)"
  by (rule book_rep_side[of b A sd]) (auto dest: ladder_rep_keys)

definition spec_best :: "order_data list omap \<Rightarrow> price option" where
  "spec_best m = (case m of [] \<Rightarrow> None | (p, _) # _ \<Rightarrow> Some p)"

lemma spec_best_keys: "spec_best m = (case map fst m of [] \<Rightarrow> None | p # _ \<Rightarrow> Some p)"
  by (auto simp: spec_best_def split: list.splits)

lemma book_best_ok:
  assumes "book_rep b A"
  shows "best_bid b = spec_best (sp_bids A)" "best_ask b = spec_best (sp_asks A)"
    "bid_levels b = length (sp_bids A)" "ask_levels b = length (sp_asks A)"
  using book_rep_prices[OF assms, of Bids] book_rep_prices[OF assms, of Asks]
  by (auto simp: best_bid_def best_ask_def spec_best_keys bk_side_def bid_levels_def ask_levels_def
      split: list.splits dest: map_eq_imp_length_eq)

lemma om_find_rep:
  "ladder_rep h sd m G \<Longrightarrow>
   om_find p (ladder_view h G) = map_option (map (view_at h)) (om_find p G) \<and>
   rel_option (level_rep h (sd, p)) (om_find p m) (om_find p G)"
  by (induction m G rule: list_induct2') auto

text \<open>The aggregate of a level is the sum of what its orders have left, modulo \<open>2 ^ 64\<close>.\<close>

definition spec_quantity_at :: "price \<Rightarrow> order_data list omap \<Rightarrow> quantity" where
  "spec_quantity_at p m = (case om_find p m of None \<Rightarrow> 0 | Some os \<Rightarrow> sum_list (map o_remaining os))"

lemma level_rep_total:
  assumes "level_rep h l lv as"
  shows "lv_total lv = sum_list (map o_remaining (map (view_at h) as))"
proof -
  have "remaining_at h a = o_remaining (view_at h a)" if "a \<in> set as" for a
    using level_rep_dom[OF assms that] by (auto simp: remaining_at_def view_at_def)
  then show ?thesis using assms by (simp add: level_rep_def o_def cong: map_cong)
qed

lemma book_quantity_at_ok:
  assumes "book_rep b A"
  shows "quantity_at sd p b = spec_quantity_at p (side_of (own_side sd) A)"
proof -
  obtain G where G: "ladder_rep (bk_heap b) (own_side sd) (bk_side (own_side sd) b) G"
    "side_of (own_side sd) A = ladder_view (bk_heap b) G"
    by (rule book_rep_side[OF assms])
  have "quantity_at sd p b =
      (case om_find p (bk_side (own_side sd) b) of None \<Rightarrow> 0 | Some lv \<Rightarrow> lv_total lv)"
    by (simp add: quantity_at_def own_side_def bk_side_def)
  also have "\<dots> = spec_quantity_at p (ladder_view (bk_heap b) G)"
    using om_find_rep[OF G(1), of p] level_rep_total
    by (cases "om_find p (bk_side (own_side sd) b)"; cases "om_find p G")
      (auto simp: spec_quantity_at_def)
  finally show ?thesis using G(2) by simp
qed

text \<open>The snapshot lists every resting order.\<close>

definition spec_snapshot_side :: "side \<Rightarrow> order_data list omap \<Rightarrow> order_snapshot list" where
  "spec_snapshot_side sd m = concat (map (\<lambda>(p, os). map (\<lambda>ord. \<lparr>sn_side = sd, sn_price = p,
     sn_id = o_id ord, sn_remaining = o_remaining ord, sn_sequence = o_sequence ord\<rparr>) os) m)"

definition spec_snapshot :: "book_spec \<Rightarrow> order_snapshot list" where
  "spec_snapshot A = spec_snapshot_side Buy (sp_bids A) @ spec_snapshot_side Sell (sp_asks A)"

lemma snapshot_side_ok:
  "ladder_rep (objects mem) bsd m G \<Longrightarrow>
   snapshot_side sd mem m = Some (spec_snapshot_side sd (ladder_view (objects mem) G))"
proof (induction m G rule: list_induct2')
  case (4 n m g G)
  obtain p lv as where n: "n = (p, lv)" "g = (p, as)" "level_rep (objects mem) (bsd, p) lv as"
    "ladder_rep (objects mem) bsd m G"
    using "4.prems" by (cases n; cases g) auto
  show ?case
    using "4.IH"[OF n(4)] level_for_each_ok[OF n(3)] n(1,2)
    by (simp add: spec_snapshot_side_def view_at_def o_def)
qed (auto simp: spec_snapshot_side_def)

lemma book_snapshot_ok:
  assumes "book_rep b A"
  shows "snapshot b = Some (spec_snapshot A)"
proof -
  let ?h = "objects (mp_mem (bk_pool b))"
  obtain GB where B: "ladder_rep ?h Bids (bk_side Bids b) GB" "side_of Bids A = ladder_view ?h GB"
    by (rule book_rep_side[OF assms, of Bids]) (simp add: mp_heap_def)
  obtain GA where A: "ladder_rep ?h Asks (bk_side Asks b) GA" "side_of Asks A = ladder_view ?h GA"
    by (rule book_rep_side[OF assms, of Asks]) (simp add: mp_heap_def)
  show ?thesis
    using snapshot_side_ok[OF B(1), of Buy] snapshot_side_ok[OF A(1), of Sell] B(2) A(2)
    by (simp add: snapshot_def spec_snapshot_def bk_side_def)
qed

text \<open>Index, pool and levels agree on the number of resting orders.\<close>

lemma book_heap_card:
  assumes "book_rep b A"
  shows "card (dom (bk_heap b)) = length (spec_ids A)"
proof -
  have wf: "distinct (spec_ids A)" using assms by (simp add: book_rep_def spec_wf_def)
  have idx: "indexed (fm_alpha (bk_index b)) (bk_heap b)" using assms by (simp add: book_rep_def store_ok_def)
  obtain G where G: "sides_rep (bk_heap b) b A G" using assms by (auto simp: book_rep_def)
  have "inj_on (\<lambda>a. o_id (the (bk_heap b a))) (dom (bk_heap b))"
    using indexed_unique[OF idx] by (intro inj_onI) fastforce
  moreover have "set (spec_ids A) = (\<lambda>a. o_id (the (bk_heap b a))) ` dom (bk_heap b)"
    using spec_ids_rep[OF G] by (force simp: image_iff)
  ultimately show ?thesis using distinct_card[OF wf] by (simp add: card_image)
qed

lemma book_count_ok:
  assumes "book_rep b A"
  shows "order_count b = length (spec_ids A)"
    and "mp_live_count (bk_pool b) = of_nat (length (spec_ids A))"
proof -
  have store: "mp_inv (bk_pool b)" "fm_inv (bk_index b)" and wf: "distinct (spec_ids A)"
    using assms by (simp_all add: book_rep_def store_ok_def spec_wf_def)
  have "dom (fm_alpha (bk_index b)) = set (spec_ids A)"
    using book_rep_index[OF assms] by blast
  then show "order_count b = length (spec_ids A)"
    using fm.entries_alpha[OF store(2)] distinct_card[OF wf] by (simp add: order_count_def)
  show "mp_live_count (bk_pool b) = of_nat (length (spec_ids A))"
    using mp.live_heap[OF store(1)] book_heap_card[OF assms] by simp
qed

end
