(* ===== verification/BookSession.thy ===== *)
theory BookSession
  imports BookRefinement
begin

text \<open>
  Sessions of the order book: any sequence of submissions and cancellations on a new book.  The
  properties of the book are stated here, of the states and the replies of every session.
\<close>

section \<open>Sessions\<close>

datatype book_op =
    Do_submit order_id trader_id side price quantity
  | Do_cancel order_id

datatype book_reply = Submitted submit_result "trade list" | Cancelled_order bool

definition book_step :: "book_op \<Rightarrow> book \<Rightarrow> (book_reply \<times> book) option" where
  "book_step cmd b =
     (case cmd of
        Do_submit oid trader sd price q \<Rightarrow>
          do {
            (res, b') \<leftarrow> book_submit oid trader sd price q b;
            Some (Submitted res (bk_trades b'), b')
          }
      | Do_cancel oid \<Rightarrow>
          do {
            (found, b') \<leftarrow> book_cancel oid b;
            Some (Cancelled_order found, b')
          })"

fun book_run :: "book_op list \<Rightarrow> book \<Rightarrow> (book_reply list \<times> book) option" where
  "book_run [] b = Some ([], b)"
| "book_run (cmd # cmds) b =
     do {
       (r, b1) \<leftarrow> book_step cmd b;
       (rs, b2) \<leftarrow> book_run cmds b1;
       Some (r # rs, b2)
     }"

definition book_session ::
    "self_trade_policy \<Rightarrow> 64 word \<Rightarrow> book_op list \<Rightarrow> (book_reply list \<times> book) option" where
  "book_session pol cap cmds = do { b \<leftarrow> book_new pol cap; book_run cmds b }"

definition spec_step :: "self_trade_policy \<Rightarrow> book_op \<Rightarrow> book_spec \<Rightarrow> book_reply \<times> book_spec" where
  "spec_step pol cmd A =
     (case cmd of
        Do_submit oid trader sd price q \<Rightarrow>
          (let (res, A') = spec_submit pol oid trader sd price q A in (Submitted res (sp_trades A'), A'))
      | Do_cancel oid \<Rightarrow> (let (found, A') = spec_cancel oid A in (Cancelled_order found, A')))"

fun spec_run :: "self_trade_policy \<Rightarrow> book_op list \<Rightarrow> book_spec \<Rightarrow> book_reply list \<times> book_spec" where
  "spec_run pol [] A = ([], A)"
| "spec_run pol (cmd # cmds) A =
     (let (r, A1) = spec_step pol cmd A; (rs, A2) = spec_run pol cmds A1 in (r # rs, A2))"

text \<open>The book that a session of the specification leaves.\<close>

definition spec_session :: "self_trade_policy \<Rightarrow> book_op list \<Rightarrow> book_reply list \<times> book_spec" where
  "spec_session pol cmds = spec_run pol cmds spec_new"

abbreviation session_book :: "self_trade_policy \<Rightarrow> book_op list \<Rightarrow> book_spec" where
  "session_book pol cmds \<equiv> snd (spec_session pol cmds)"

section \<open>A session of the code is a session of the specification\<close>

lemma book_step_ok:
  assumes "book_rep b A"
  obtains b' where "book_step cmd b = Some (fst (spec_step (bk_stp b) cmd A), b')"
    "book_rep b' (snd (spec_step (bk_stp b) cmd A))" "bk_stp b' = bk_stp b"
proof (cases cmd)
  case (Do_submit oid trader sd price q)
  obtain res b' A' where s: "book_submit oid trader sd price q b = Some (res, b')"
    "spec_submit (bk_stp b) oid trader sd price q A = (res, A')" "book_rep b' A'" "bk_stp b' = bk_stp b"
    by (rule book_submit_ok[OF assms])
  have "sp_trades A' = bk_trades b'" using s(3) by (simp add: book_rep_def)
  then have "spec_step (bk_stp b) cmd A = (Submitted res (bk_trades b'), A')"
    using s(2) Do_submit by (simp add: spec_step_def)
  moreover have "book_step cmd b = Some (Submitted res (bk_trades b'), b')"
    using s(1) Do_submit by (simp add: book_step_def)
  ultimately show thesis using s(3,4) by (intro that[of b']) simp_all
next
  case (Do_cancel oid)
  obtain b' where c: "book_cancel oid b = Some (fst (spec_cancel oid A), b')"
    "book_rep b' (snd (spec_cancel oid A))" "bk_stp b' = bk_stp b"
    by (rule book_cancel_ok[OF assms])
  have "spec_step (bk_stp b) cmd A = (Cancelled_order (fst (spec_cancel oid A)), snd (spec_cancel oid A))"
    using Do_cancel by (simp add: spec_step_def split_def Let_def)
  moreover have "book_step cmd b = Some (Cancelled_order (fst (spec_cancel oid A)), b')"
    using c(1) Do_cancel by (simp add: book_step_def)
  ultimately show thesis using c(2,3) by (intro that[of b']) simp_all
qed

lemma book_run_ok:
  assumes "book_rep b A"
  shows "\<exists>b'. book_run cmds b = Some (fst (spec_run (bk_stp b) cmds A), b') \<and>
    book_rep b' (snd (spec_run (bk_stp b) cmds A)) \<and> bk_stp b' = bk_stp b"
  using assms
proof (induction cmds arbitrary: b A)
  case (Cons cmd cmds)
  obtain b1 where s: "book_step cmd b = Some (fst (spec_step (bk_stp b) cmd A), b1)"
    "book_rep b1 (snd (spec_step (bk_stp b) cmd A))" "bk_stp b1 = bk_stp b"
    by (rule book_step_ok[OF Cons.prems])
  show ?case using Cons.IH[OF s(2)] s(1,3) by (auto simp: split_def Let_def)
qed simp

lemma session_ok:
  obtains b where "book_session pol cap cmds = Some (fst (spec_session pol cmds), b)"
    "book_rep b (session_book pol cmds)" "bk_stp b = pol"
proof -
  obtain b where b: "book_new pol cap = Some b" "book_rep b spec_new" "bk_stp b = pol"
    by (rule book_new_ok)
  show thesis
    using book_run_ok[OF b(2), of cmds] b(1,3)
    by (elim exE conjE, intro that) (simp_all add: book_session_def spec_session_def)
qed

lemma session_run_append:
  "spec_run pol (cmds @ cmds') A =
     (let (rs, A1) = spec_run pol cmds A; (rs', A2) = spec_run pol cmds' A1 in (rs @ rs', A2))"
  by (induction cmds arbitrary: A) (simp_all add: split_def Let_def)

lemma session_step:
  "session_book pol (cmds @ [cmd]) = snd (spec_step pol cmd (session_book pol cmds))"
  by (simp add: spec_session_def session_run_append split_def Let_def)

lemma spec_step_wf: "spec_wf A \<Longrightarrow> spec_wf (snd (spec_step pol cmd A))"
  using spec_submit_wf spec_cancel_wf
  by (cases cmd) (auto simp: spec_step_def split: prod.splits)

lemma spec_run_wf: "spec_wf A \<Longrightarrow> spec_wf (snd (spec_run pol cmds A))"
  by (induction cmds arbitrary: A) (simp_all add: split_def Let_def spec_step_wf)

lemma session_wf: "spec_wf (session_book pol cmds)"
  using spec_run_wf[OF spec_wf_new] by (simp add: spec_session_def)

section \<open>The snapshot as a view of the specification\<close>

lemma snapshot_side_simps [simp]:
  "spec_snapshot_side sd [] = []"
  "spec_snapshot_side sd ((p, os) # m) = map (\<lambda>ord. \<lparr>sn_side = sd, sn_price = p, sn_id = o_id ord,
     sn_remaining = o_remaining ord, sn_sequence = o_sequence ord\<rparr>) os @ spec_snapshot_side sd m"
  by (simp_all add: spec_snapshot_side_def)

lemma snapshot_side_ids: "map sn_id (spec_snapshot_side sd m) = queue_ids m"
  by (induction m) (auto simp: queue_ids_Cons o_def)

lemma snapshot_ids: "map sn_id (spec_snapshot A) = spec_ids A"
  by (simp add: spec_snapshot_def spec_ids_def snapshot_side_ids)

lemma snapshot_ids_set: "sn_id ` set (spec_snapshot A) = set (spec_ids A)"
  using snapshot_ids[of A] by (metis set_map)

lemma snapshot_side_remove:
  "spec_snapshot_side sd (spec_remove oid m) = filter (\<lambda>e. sn_id e \<noteq> oid) (spec_snapshot_side sd m)"
proof (induction m)
  case (Cons n m)
  have "filter (\<lambda>ord. o_id ord \<noteq> oid) os = []" if "\<forall>ord \<in> set os. o_id ord = oid"
    for os :: "order_data list"
    using that by (simp add: filter_empty_conv)
  then show ?case using Cons by (cases n) (simp add: filter_map o_def)
qed simp

lemma snapshot_cancel:
  "spec_snapshot (snd (spec_cancel oid A)) = filter (\<lambda>e. sn_id e \<noteq> oid) (spec_snapshot A)"
  by (simp add: spec_cancel_def spec_snapshot_def snapshot_side_remove)

text \<open>What rests at a price of a side, in a snapshot.\<close>

definition resting_at :: "side \<Rightarrow> price \<Rightarrow> order_snapshot list \<Rightarrow> order_snapshot list" where
  "resting_at sd p es = filter (\<lambda>e. own_side (sn_side e) = own_side sd \<and> sn_price e = p) es"

lemma resting_at_side:
  assumes "ladder_wf bsd m" "own_side bs = bsd"
  shows "sum_list (map sn_remaining (resting_at sd p (spec_snapshot_side bs m))) =
    (if own_side sd = bsd then spec_quantity_at p m else 0)"
  using assms(1)
proof (induction m)
  case (Cons n m)
  obtain q os where n: "n = (q, os)" by fastforce
  have "sum_list (map sn_remaining (resting_at sd p (spec_snapshot_side bs (n # m)))) =
      (if own_side sd = bsd \<and> q = p then sum_list (map o_remaining os) else 0) +
      sum_list (map sn_remaining (resting_at sd p (spec_snapshot_side bs m)))"
    using n assms(2) by (auto simp: resting_at_def filter_map o_def)
  moreover have "om_find p m = None" if "q = p"
    using Cons.prems n that by (cases bsd) (auto simp: find_None_prices ladder_wf_Cons)
  ultimately show ?case
    using Cons n by (auto simp: spec_quantity_at_def ladder_wf_Cons)
qed (simp add: resting_at_def spec_quantity_at_def)

lemma snapshot_quantity_at:
  assumes "spec_wf A"
  shows "sum_list (map sn_remaining (resting_at sd p (spec_snapshot A))) =
    spec_quantity_at p (side_of (own_side sd) A)"
proof -
  have "resting_at sd p (spec_snapshot A) =
      resting_at sd p (spec_snapshot_side Buy (sp_bids A)) @
      resting_at sd p (spec_snapshot_side Sell (sp_asks A))"
    by (simp add: resting_at_def spec_snapshot_def)
  moreover have "own_side Buy = Bids" "own_side Sell = Asks" by (simp_all add: own_side_def)
  ultimately show ?thesis
    using resting_at_side[of Bids "sp_bids A" Buy sd p] resting_at_side[of Asks "sp_asks A" Sell sd p]
      assms
    by (cases "own_side sd") (simp_all add: spec_wf_def)
qed

text \<open>
  The order of a snapshot: bids before asks, better prices first, and older orders first at a
  price.
\<close>

definition snapshot_before :: "order_snapshot \<Rightarrow> order_snapshot \<Rightarrow> bool" where
  "snapshot_before x y \<longleftrightarrow>
     (if sn_side x \<noteq> sn_side y then sn_side x = Buy
      else if sn_price x \<noteq> sn_price y then
        (if sn_side x = Buy then sn_price x > sn_price y else sn_price x < sn_price y)
      else sn_sequence x < sn_sequence y)"

lemma snapshot_side_sorted:
  assumes "ladder_wf (own_side sd) m" "stamped n m"
  shows "sorted_wrt snapshot_before (spec_snapshot_side sd m)"
  using assms
proof (induction m)
  case (Cons x m)
  obtain p os where x: "x = (p, os)" by fastforce
  have head: "sorted_wrt snapshot_before (map (\<lambda>ord. \<lparr>sn_side = sd, sn_price = p, sn_id = o_id ord,
      sn_remaining = o_remaining ord, sn_sequence = o_sequence ord\<rparr>) os)"
    using Cons.prems(2) x by (simp add: sorted_wrt_map snapshot_before_def)
  have "snapshot_before e e'"
    if "sn_side e = sd" "sn_price e = p" "e' \<in> set (spec_snapshot_side sd m)" for e e'
  proof -
    have "sn_side e' = sd" "sn_price e' \<in> prices m"
      using that(3) by (auto simp: spec_snapshot_side_def prices_def intro: rev_image_eqI)
    moreover from this have "before (own_side sd) p (sn_price e')"
      using Cons.prems(1) x by (auto simp: ladder_wf_Cons)
    ultimately show ?thesis
      using that(1,2) by (cases "sd = Buy") (auto simp: snapshot_before_def own_side_def)
  qed
  then show ?case
    using Cons x head by (auto simp: sorted_wrt_append ladder_wf_Cons simp del: sorted_wrt_map)
qed simp

lemma snapshot_sorted:
  assumes "spec_wf A" "stamps_ok A"
  shows "sorted_wrt snapshot_before (spec_snapshot A)"
proof -
  have "sorted_wrt snapshot_before (spec_snapshot_side Buy (sp_bids A))"
    "sorted_wrt snapshot_before (spec_snapshot_side Sell (sp_asks A))"
    using assms spec_wf_side[OF assms(1)] unfolding stamps_ok_def
    by (auto intro!: snapshot_side_sorted simp: own_side_def simp flip: side_of_simps(1,2))
  moreover have "sn_side e = sd" if "e \<in> set (spec_snapshot_side sd m)" for e sd m
    using that by (auto simp: spec_snapshot_side_def)
  ultimately show ?thesis
    by (auto simp: spec_snapshot_def sorted_wrt_append snapshot_before_def)
qed

text \<open>Numbers never run out in a session that could be held in memory.\<close>

lemma session_stamps:
  "length cmds < 2 ^ 64 - 1 \<Longrightarrow>
   stamps_ok (session_book pol cmds) \<and> unat (sp_next_seq (session_book pol cmds)) \<le> length cmds + 1"
proof (induction cmds rule: rev_induct)
  case Nil
  then show ?case by (auto simp: spec_session_def spec_new_def stamps_ok_def side_of_def split: book_side.splits)
next
  case (snoc cmd cmds)
  let ?A = "session_book pol cmds" and ?A' = "session_book pol (cmds @ [cmd])"
  have IH: "stamps_ok ?A" "unat (sp_next_seq ?A) \<le> length cmds + 1" using snoc by simp_all
  have "unat (sp_next_seq ?A) + 1 < 2 ^ 64" using IH(2) snoc.prems by simp
  then have inc: "unat (sp_next_seq ?A + 1) = unat (sp_next_seq ?A) + 1"
    by (simp add: unat_add_lem [THEN iffD1])
  then have ne: "sp_next_seq ?A + 1 \<noteq> 0" by auto
  show ?case
  proof (cases cmd)
    case (Do_submit oid trader sd price q)
    obtain res A' where s: "spec_submit pol oid trader sd price q ?A = (res, A')" by fastforce
    have "?A' = A'" using s Do_submit by (simp add: session_step spec_step_def)
    then show ?thesis
      using spec_submit_stamps[OF s session_wf IH(1) ne] IH(2) inc by auto
  next
    case (Do_cancel oid)
    have eq: "?A' = snd (spec_cancel oid ?A)"
      using Do_cancel by (simp add: session_step spec_step_def split_def Let_def)
    have "side_of sd ?A' = spec_remove oid (side_of sd ?A)" for sd
      by (cases sd) (simp_all add: eq spec_cancel_def)
    moreover have "sp_next_seq ?A' = sp_next_seq ?A" by (simp add: eq spec_cancel_def)
    ultimately show ?thesis
      using IH by (simp add: stamps_ok_def spec_remove_stamped)
  qed
qed

section \<open>What a submission reports\<close>

definition submit_accounts :: "quantity \<Rightarrow> submit_result \<Rightarrow> trade list \<Rightarrow> bool" where
  "submit_accounts q res ts \<longleftrightarrow>
     traded_total ts = unat (r_filled res) \<and> r_trade_count res = of_nat (length ts) \<and>
     (case r_status res of
        Rejected \<Rightarrow> r_filled res = 0 \<and> r_resting res = 0 \<and> ts = []
      | Rested \<Rightarrow> r_filled res = 0 \<and> r_resting res = q \<and> ts = []
      | PartiallyFilled \<Rightarrow> 0 < r_filled res \<and> r_filled res < q \<and> r_resting res = q - r_filled res
      | FullyFilled \<Rightarrow> 0 < q \<and> r_filled res = q \<and> r_resting res = 0
      | CancelledBySelfTrade \<Rightarrow> r_filled res < q \<and> r_resting res = 0
      | _ \<Rightarrow> False)"

lemma spec_submit_accounts:
  assumes "spec_submit pol oid trader sd price q A = (res, A')" "spec_wf A"
  shows "submit_accounts q res (sp_trades A')"
proof -
  let ?m = "side_of (other_side (own_side sd)) A"
  have sums: "unat r + traded_total ts = unat q \<and> traded_total ts = unat (q - r) \<and> r \<le> q"
    "traded_total ts = 0 \<longleftrightarrow> ts = []" "r \<noteq> 0 \<Longrightarrow> q - r < q"
    if "spec_match pol (submit_taker oid trader sd price) q ?m = (m, r, ts, stp)" for m r ts stp
  proof -
    note c = spec_match_conserves[OF that]
    have "r \<le> q" using c by (simp add: word_le_nat_alt)
    moreover have sub: "unat (q - r) = unat q - unat r"
      using \<open>r \<le> q\<close> by (simp add: unat_sub)
    ultimately show "unat r + traded_total ts = unat q \<and> traded_total ts = unat (q - r) \<and> r \<le> q"
      using c by simp
    show "q - r < q" if "r \<noteq> 0"
    proof -
      have "0 < unat r" using that by (simp add: unat_gt_0)
      then show ?thesis using sub c by (simp add: word_less_nat_alt)
    qed
    have "\<forall>t \<in> set ts. t_quantity t \<noteq> 0"
      using spec_match_trades[OF that spec_wf_side[OF assms(2)]] by (auto simp: trade_ok_def)
    then show "traded_total ts = 0 \<longleftrightarrow> ts = []" by (cases ts) (auto simp: unat_eq_zero)
  qed
  from assms(1) show ?thesis
  proof (cases rule: spec_submit_cases)
    case Refused
    then show ?thesis by (simp add: submit_accounts_def submit_result_init_def)
  next
    case (Stopped m r ts)
    have "r \<noteq> 0" using spec_match_stopped[OF Stopped(3)] by simp
    then have "q - r < q" by (rule sums(3)[OF Stopped(3)])
    then show ?thesis using sums(1)[OF Stopped(3)] Stopped by (simp add: submit_accounts_def)
  next
    case (Rested m r ts)
    note s = sums[OF Rested(4)]
    have lt: "q - r < q" using s(3) Rested(3) .
    have "ts = [] \<and> r = q" if "\<not> 0 < q - r"
    proof -
      have "q - r = 0" using that by (simp add: word_gt_0)
      then show ?thesis using s by simp
    qed
    then show ?thesis using s lt Rested by (auto simp: submit_accounts_def)
  next
    case (Filled m ts)
    then show ?thesis using sums(1)[OF Filled(3)] by (simp add: submit_accounts_def word_gt_0)
  qed
qed

text \<open>What a book in a session is, for the properties below.\<close>

lemma session_submit:
  obtains rs b res b' A' where "book_session pol cap cmds = Some (rs, b)"
    "book_rep b (session_book pol cmds)" "book_submit oid trader sd price q b = Some (res, b')"
    "spec_submit pol oid trader sd price q (session_book pol cmds) = (res, A')" "book_rep b' A'"
    "bk_trades b' = sp_trades A'"
proof -
  obtain b where b: "book_session pol cap cmds = Some (fst (spec_session pol cmds), b)"
    "book_rep b (session_book pol cmds)" "bk_stp b = pol"
    by (rule session_ok)
  obtain res b' A' where s: "book_submit oid trader sd price q b = Some (res, b')"
    "spec_submit (bk_stp b) oid trader sd price q (session_book pol cmds) = (res, A')" "book_rep b' A'"
    by (rule book_submit_ok[OF b(2)])
  then show thesis using that b by (simp add: book_rep_def)
qed

lemma spec_submit_trades:
  assumes "spec_submit pol oid trader sd price q A = (res, A')" "spec_wf A"
  shows "list_all (\<lambda>t. crosses sd price (t_price t) \<and>
      trade_ok pol (submit_taker oid trader sd price) (t_price t) t) (sp_trades A')"
    and "hits_first (sp_trades A')
      (eligible pol trader (in_order (side_of (other_side (own_side sd)) A)))"
proof -
  let ?tk = "submit_taker oid trader sd price" and ?m = "side_of (other_side (own_side sd)) A"
  have match: "list_all (\<lambda>t. crosses sd price (t_price t) \<and> trade_ok pol ?tk (t_price t) t) ts \<and>
      hits_first ts (eligible pol trader (in_order ?m))"
    if "spec_match pol ?tk q ?m = (m, r, ts, stp)" for m r ts stp
    using spec_match_trades[OF that spec_wf_side[OF assms(2)]] spec_match_first[OF that]
    by (simp add: list_all_iff)
  have "list_all (\<lambda>t. crosses sd price (t_price t) \<and> trade_ok pol ?tk (t_price t) t) (sp_trades A') \<and>
      hits_first (sp_trades A') (eligible pol trader (in_order ?m))"
    using assms(1) by (cases rule: spec_submit_cases) (simp_all add: match)
  then show "list_all (\<lambda>t. crosses sd price (t_price t) \<and> trade_ok pol ?tk (t_price t) t) (sp_trades A')"
    "hits_first (sp_trades A') (eligible pol trader (in_order ?m))" by simp_all
qed

section \<open>Properties of every session\<close>

text \<open>
  C1: The order book of the code - pool, intrusive lists, hash index, ordered maps - runs every
  sequence of submissions and cancellations to its end without undefined behaviour, and replies
  to each as the specification on plain lists does; the states stay related.
\<close>

theorem book_session_refines:
  "\<exists>b. book_session pol cap cmds = Some (fst (spec_session pol cmds), b) \<and>
     book_rep b (snd (spec_session pol cmds))"
  by (rule session_ok[of pol cap cmds]) blast

text \<open>
  C3: The book is never crossed: in every session, the best bid is below the best ask when both
  sides hold orders.
\<close>

theorem book_never_crossed:
  "\<exists>rs b. book_session pol cap cmds = Some (rs, b) \<and>
     (case (best_bid b, best_ask b) of (Some p, Some q) \<Rightarrow> p < q | _ \<Rightarrow> True)"
proof -
  obtain b where b: "book_session pol cap cmds = Some (fst (spec_session pol cmds), b)"
    "book_rep b (session_book pol cmds)" by (rule session_ok)
  have "uncrossed (session_book pol cmds)" using session_wf by (simp add: spec_wf_def)
  then have "case (best_bid b, best_ask b) of (Some p, Some q) \<Rightarrow> p < q | _ \<Rightarrow> True"
    unfolding book_best_ok[OF b(2)] spec_best_def uncrossed_def
    by (auto split: list.splits option.splits)
  with b(1) show ?thesis by blast
qed

text \<open>
  C2: Strict price-time priority: the makers of a submission's trades are, in order, the first of
  the resting opposite orders that it may trade with - better prices first, older orders first at
  a price - and every maker but the last is filled completely.
\<close>

theorem submit_price_time_priority:
  "\<exists>rs b res b'. book_session pol cap cmds = Some (rs, b) \<and>
     book_submit oid trader sd price q b = Some (res, b') \<and>
     hits_first (bk_trades b') (eligible pol trader
       (in_order (side_of (other_side (own_side sd)) (snd (spec_session pol cmds)))))"
proof -
  obtain rs b res b' A' where s: "book_session pol cap cmds = Some (rs, b)"
    "book_submit oid trader sd price q b = Some (res, b')"
    "spec_submit pol oid trader sd price q (session_book pol cmds) = (res, A')"
    "bk_trades b' = sp_trades A'"
    by (rule session_submit)
  show ?thesis using spec_submit_trades(2)[OF s(3) session_wf] s by auto
qed

text \<open>
  C4: Every trade is at the resting price, which the limit of the taker crosses, has a positive
  quantity and names the taker; unless the policy allows self-trades, its maker is another trader.
\<close>

theorem submit_trades_sound:
  "\<exists>rs b res b'. book_session pol cap cmds = Some (rs, b) \<and>
     book_submit oid trader sd price q b = Some (res, b') \<and>
     list_all (\<lambda>t. crosses sd price (t_price t) \<and>
       trade_ok pol (submit_taker oid trader sd price) (t_price t) t) (bk_trades b')"
proof -
  obtain rs b res b' A' where s: "book_session pol cap cmds = Some (rs, b)"
    "book_submit oid trader sd price q b = Some (res, b')"
    "spec_submit pol oid trader sd price q (session_book pol cmds) = (res, A')"
    "bk_trades b' = sp_trades A'"
    by (rule session_submit)
  show ?thesis using spec_submit_trades(1)[OF s(3) session_wf] s by auto
qed

text \<open>
  C5: The report of a submission accounts for the whole quantity: filled and resting parts add up
  as the status says, the filled part is the total of the trades, and no other status occurs.
\<close>

theorem submit_report_accounts:
  "\<exists>rs b res b'. book_session pol cap cmds = Some (rs, b) \<and>
     book_submit oid trader sd price q b = Some (res, b') \<and>
     submit_accounts q res (bk_trades b')"
proof -
  obtain rs b res b' A' where s: "book_session pol cap cmds = Some (rs, b)"
    "book_submit oid trader sd price q b = Some (res, b')"
    "spec_submit pol oid trader sd price q (session_book pol cmds) = (res, A')"
    "bk_trades b' = sp_trades A'"
    by (rule session_submit)
  show ?thesis using spec_submit_accounts[OF s(3) session_wf] s by auto
qed

text \<open>
  C29: A submission is rejected exactly if its quantity is zero or its id rests on the book, and
  then it leaves every resting order as it was.
\<close>

theorem submit_rejects:
  "\<exists>rs b snap res b'. book_session pol cap cmds = Some (rs, b) \<and> snapshot b = Some snap \<and>
     book_submit oid trader sd price q b = Some (res, b') \<and>
     (r_status res = Rejected) = (q = 0 \<or> oid \<in> sn_id ` set snap) \<and>
     (if r_status res = Rejected then snapshot b' = Some snap \<and> bk_trades b' = [] else True)"
proof -
  let ?A = "session_book pol cmds"
  obtain rs b res b' A' where s: "book_session pol cap cmds = Some (rs, b)" "book_rep b ?A"
    "book_submit oid trader sd price q b = Some (res, b')"
    "spec_submit pol oid trader sd price q ?A = (res, A')" "book_rep b' A'" "bk_trades b' = sp_trades A'"
    by (rule session_submit)
  have "(r_status res = Rejected) = (q = 0 \<or> oid \<in> set (spec_ids ?A)) \<and>
      (if r_status res = Rejected then A' = ?A\<lparr>sp_trades := []\<rparr> else True)"
    using s(4) by (cases rule: spec_submit_cases) (simp_all add: submit_result_init_def)
  moreover have "spec_snapshot (?A\<lparr>sp_trades := []\<rparr>) = spec_snapshot ?A"
    by (simp add: spec_snapshot_def)
  ultimately have "(r_status res = Rejected) = (q = 0 \<or> oid \<in> sn_id ` set (spec_snapshot ?A)) \<and>
     (if r_status res = Rejected then snapshot b' = Some (spec_snapshot ?A) \<and> bk_trades b' = [] else True)"
    using book_snapshot_ok[OF s(5)] s(6) by (auto simp: snapshot_ids_set)
  then show ?thesis using s(1,3) book_snapshot_ok[OF s(2)] by blast
qed

text \<open>
  C6: A cancellation reports whether the order rested, takes that order off the book and leaves
  all others as they were, in the same order.
\<close>

theorem cancel_removes:
  "\<exists>rs b snap b'. book_session pol cap cmds = Some (rs, b) \<and> snapshot b = Some snap \<and>
     book_cancel oid b = Some (oid \<in> sn_id ` set snap, b') \<and>
     snapshot b' = Some (filter (\<lambda>e. sn_id e \<noteq> oid) snap)"
proof -
  let ?A = "session_book pol cmds"
  obtain b where b: "book_session pol cap cmds = Some (fst (spec_session pol cmds), b)" "book_rep b ?A"
    by (rule session_ok)
  obtain b' where c: "book_cancel oid b = Some (fst (spec_cancel oid ?A), b')"
    "book_rep b' (snd (spec_cancel oid ?A))"
    by (rule book_cancel_ok[OF b(2)])
  have "fst (spec_cancel oid ?A) = (oid \<in> sn_id ` set (spec_snapshot ?A))"
    by (simp add: snapshot_ids_set spec_cancel_def)
  then show ?thesis
    using b c book_snapshot_ok[OF b(2)] book_snapshot_ok[OF c(2)] by (simp add: snapshot_cancel)
qed

text \<open>
  C31: No order leaks: the ids of a snapshot are distinct, and index and pool hold exactly as many
  orders as the snapshot lists.
\<close>

theorem book_counts_agree:
  "\<exists>rs b snap. book_session pol cap cmds = Some (rs, b) \<and> snapshot b = Some snap \<and>
     distinct (map sn_id snap) \<and> order_count b = length snap \<and>
     mp_live_count (bk_pool b) = of_nat (length snap)"
proof -
  let ?A = "session_book pol cmds"
  obtain b where b: "book_session pol cap cmds = Some (fst (spec_session pol cmds), b)" "book_rep b ?A"
    by (rule session_ok)
  have "length (spec_snapshot ?A) = length (spec_ids ?A)" by (metis length_map snapshot_ids)
  then show ?thesis
    using b book_snapshot_ok[OF b(2)] book_count_ok[OF b(2)] session_wf[of pol cmds]
    by (simp add: snapshot_ids spec_wf_def)
qed

text \<open>
  C32: The aggregate of a price is the sum of what the orders of the snapshot at that price have
  left, modulo \<open>2 ^ 64\<close>.
\<close>

theorem quantity_at_sums:
  "\<exists>rs b snap. book_session pol cap cmds = Some (rs, b) \<and> snapshot b = Some snap \<and>
     quantity_at sd p b = sum_list (map sn_remaining (resting_at sd p snap))"
proof -
  obtain b where b: "book_session pol cap cmds = Some (fst (spec_session pol cmds), b)"
    "book_rep b (session_book pol cmds)" by (rule session_ok)
  then show ?thesis
    using book_snapshot_ok[OF b(2)] book_quantity_at_ok[OF b(2), of sd p]
      snapshot_quantity_at[OF session_wf, of sd p pol cmds] by simp
qed

text \<open>
  C30: The snapshot lists the orders in price-time priority: bids before asks, better prices first,
  and at a price in the order of the sequence numbers - as long as these have not wrapped.
\<close>

theorem snapshot_in_priority_order:
  assumes "length cmds < 2 ^ 64 - 1"
  shows "\<exists>rs b snap. book_session pol cap cmds = Some (rs, b) \<and> snapshot b = Some snap \<and>
     sorted_wrt snapshot_before snap"
proof -
  obtain b where b: "book_session pol cap cmds = Some (fst (spec_session pol cmds), b)"
    "book_rep b (session_book pol cmds)" by (rule session_ok)
  then show ?thesis
    using book_snapshot_ok[OF b(2)] snapshot_sorted[OF session_wf] session_stamps[OF assms] by blast
qed

theorem snapshot_in_priority_order_witness:
  "\<exists>rs b snap. book_session CancelResting 16
      [Do_submit 1 1 Buy (I64 100) 5, Do_submit 2 2 Buy (I64 100) 7, Do_submit 3 3 Buy (I64 101) 2] =
      Some (rs, b) \<and> snapshot b = Some snap \<and> sorted_wrt snapshot_before snap"
  by (rule snapshot_in_priority_order) simp

end
