(* ===== verification/BookMemory.thy ===== *)
theory BookMemory
  imports BookSession
begin

text \<open>
  The memory of the order book: what its pointers may point to.  The levels, the links of the orders
  and the values of the index are raw pointers in \<open>include/obe/PriceLevel.hpp\<close>,
  \<open>include/obe/Order.hpp\<close> and \<open>include/obe/OrderBook.hpp\<close>; here they get types, and every session of
  the book keeps to them.
\<close>

section \<open>Typing\<close>

text \<open>A pointer into the queue of a level: null, or a live order that points back to that level.\<close>

definition queue_ptr :: "(addr \<Rightarrow> order option) \<Rightarrow> level_ref \<Rightarrow> ptr \<Rightarrow> bool" where
  "queue_ptr h l p \<longleftrightarrow>
     (case p of None \<Rightarrow> True | Some a \<Rightarrow> (\<exists>ord. h a = Some ord \<and> o_level ord = Some l))"

text \<open>
  A live order rests in the level of its own side and price, which exists; it is not filled; the
  index leads to it; and its neighbours are in the same level and point back to it.
\<close>

definition order_typed :: "book \<Rightarrow> addr \<Rightarrow> order \<Rightarrow> bool" where
  "order_typed b a ord \<longleftrightarrow>
     (let l = (own_side (o_side ord), o_price ord) in
      o_level ord = Some l \<and> om_find (snd l) (bk_side (fst l) b) \<noteq> None \<and> o_remaining ord \<noteq> 0 \<and>
      fm_find (bk_index b) (o_id ord) = Some (Some (Some a)) \<and>
      queue_ptr (bk_heap b) l (o_next ord) \<and> queue_ptr (bk_heap b) l (o_prev ord) \<and>
      (\<forall>a' ord'. o_next ord = Some a' \<and> bk_heap b a' = Some ord' \<longrightarrow> o_prev ord' = Some a) \<and>
      (\<forall>a' ord'. o_prev ord = Some a' \<and> bk_heap b a' = Some ord' \<longrightarrow> o_next ord' = Some a))"

text \<open>A level has orders, and its ends are the ends of their queue.\<close>

definition level_typed :: "book \<Rightarrow> book_side \<Rightarrow> price \<Rightarrow> level \<Rightarrow> bool" where
  "level_typed b sd p lv \<longleftrightarrow>
     lv_price lv = p \<and>
     (\<exists>a ord. lv_head lv = Some a \<and> bk_heap b a = Some ord \<and> o_level ord = Some (sd, p) \<and> o_prev ord = None) \<and>
     (\<exists>a ord. lv_tail lv = Some a \<and> bk_heap b a = Some ord \<and> o_level ord = Some (sd, p) \<and> o_next ord = None)"

definition book_typed :: "book \<Rightarrow> bool" where
  "book_typed b \<longleftrightarrow>
     (\<forall>a ord. bk_heap b a = Some ord \<longrightarrow> order_typed b a ord) \<and>
     (\<forall>sd. \<forall>(p, lv) \<in> set (bk_side sd b). level_typed b sd p lv) \<and>
     (\<forall>oid v. fm_find (bk_index b) oid = Some (Some v) \<longrightarrow>
        (\<exists>a ord. v = Some a \<and> bk_heap b a = Some ord \<and> o_id ord = oid))"

section \<open>Segments are typed\<close>

lemma dseg_at:
  assumes "dseg h l p (us @ a # vs) n"
  obtains ord where "h a = Some ord" "o_level ord = Some l" "o_prev ord = last_ptr us p"
    "o_next ord = first_ptr vs n"
  using assms by (auto simp: dseg_append)

lemma dseg_next:
  assumes seg: "dseg h l None as None" and a: "a \<in> set as" and ord: "h a = Some ord"
  shows "queue_ptr h l (o_next ord)"
    and "o_next ord = Some a' \<Longrightarrow> h a' = Some ord' \<Longrightarrow> o_prev ord' = Some a"
proof -
  obtain us vs where as: "as = us @ a # vs" using split_list[OF a] by blast
  have nxt: "o_next ord = first_ptr vs None"
    by (rule dseg_at[OF seg[unfolded as]]) (use ord in simp)
  have second: "\<exists>o2. h b = Some o2 \<and> o_level o2 = Some l \<and> o_prev o2 = Some a" if "vs = b # ws" for b ws
    by (rule dseg_at[of h l None "us @ [a]" b ws None]) (use seg as that in auto)
  show "queue_ptr h l (o_next ord)"
    using nxt second by (cases vs) (auto simp: queue_ptr_def)
  show "o_next ord = Some a' \<Longrightarrow> h a' = Some ord' \<Longrightarrow> o_prev ord' = Some a"
    using nxt second by (cases vs) auto
qed

lemma dseg_prev:
  assumes seg: "dseg h l None as None" and a: "a \<in> set as" and ord: "h a = Some ord"
  shows "queue_ptr h l (o_prev ord)"
    and "o_prev ord = Some a' \<Longrightarrow> h a' = Some ord' \<Longrightarrow> o_next ord' = Some a"
proof -
  obtain us vs where as: "as = us @ a # vs" using split_list[OF a] by blast
  have prv: "o_prev ord = last_ptr us None"
    by (rule dseg_at[OF seg[unfolded as]]) (use ord in simp)
  have second: "\<exists>o2. h b = Some o2 \<and> o_level o2 = Some l \<and> o_next o2 = Some a" if "us = ws @ [b]" for b ws
    by (rule dseg_at[of h l None ws b "a # vs" None]) (use seg as that in auto)
  show "queue_ptr h l (o_prev ord)"
    using prv second by (cases us rule: rev_cases) (auto simp: queue_ptr_def)
  show "o_prev ord = Some a' \<Longrightarrow> h a' = Some ord' \<Longrightarrow> o_next ord' = Some a"
    using prv second by (cases us rule: rev_cases) auto
qed

lemma level_rep_typed:
  assumes "level_rep (bk_heap b) (sd, p) lv as" "as \<noteq> []" "lv_price lv = p"
  shows "level_typed b sd p lv"
proof -
  have seg: "dseg (bk_heap b) (sd, p) None as None" using assms(1) by (simp add: level_rep_def)
  obtain a vs where first: "as = a # vs" using assms(2) by (cases as) auto
  obtain us z where last: "as = us @ [z]" using assms(2) by (cases as rule: rev_cases) auto
  have ends: "lv_head lv = first_ptr as None" "lv_tail lv = last_ptr as None"
    using assms(1) by (simp_all add: level_rep_def)
  have "lv_head lv = Some a" using ends(1) unfolding first by simp
  moreover have "lv_tail lv = Some z" using ends(2) unfolding last by simp
  moreover have "\<exists>ord. bk_heap b a = Some ord \<and> o_level ord = Some (sd, p) \<and> o_prev ord = None"
    using seg first by auto
  moreover have "\<exists>ord. bk_heap b z = Some ord \<and> o_level ord = Some (sd, p) \<and> o_next ord = None"
    using seg last by (auto simp: dseg_append)
  ultimately show ?thesis using assms(3) by (auto simp: level_typed_def)
qed

section \<open>A represented book is typed\<close>

lemma ladder_rep_level:
  assumes "ladder_rep h sd m G" "a \<in> set (ladder_addrs G)"
  obtains p lv as where "om_find p m \<noteq> None" "level_rep h (sd, p) lv as" "a \<in> set as"
    "(p, map (view_at h) as) \<in> set (ladder_view h G)"
  using assms
proof (induction m G arbitrary: thesis rule: list_induct2')
  case (4 n m g G)
  obtain p lv q as where n: "n = (p, lv)" "g = (q, as)" by fastforce
  have here: "q = p" "level_rep h (sd, p) lv as" "ladder_rep h sd m G" using "4.prems"(2) n by auto
  show ?case
  proof (cases "a \<in> set as")
    case True
    then show ?thesis
      using "4.prems"(1)[of p lv as] here n by (simp add: ladder_view_def)
  next
    case False
    then have "a \<in> set (ladder_addrs G)" using "4.prems"(3) n by (simp add: ladder_addrs_def)
    then obtain p' lv' as' where "om_find p' m \<noteq> None" "level_rep h (sd, p') lv' as'" "a \<in> set as'"
      "(p', map (view_at h) as') \<in> set (ladder_view h G)"
      using "4.IH"[OF _ here(3)] by blast
    then show ?thesis
      using "4.prems"(1)[of p' lv' as'] n by (auto simp: ladder_view_def)
  qed
qed (simp_all add: ladder_addrs_def)

lemma ladder_rep_levels_typed:
  assumes "ladder_rep (bk_heap b) sd m G" "(p, lv) \<in> set m"
  shows "level_typed b sd p lv"
  using assms
  by (induction m G rule: list_induct2') (auto intro: level_rep_typed)

lemma book_rep_typed:
  assumes rep: "book_rep b A"
  shows "book_typed b"
proof -
  let ?h = "bk_heap b"
  obtain G where wf: "spec_wf A" and store: "store_ok (bk_pool b) (bk_index b)"
    and sides: "sides_rep ?h b A G"
    using rep by (auto simp: book_rep_def)
  have idx: "fm_inv (bk_index b)" "indexed (fm_alpha (bk_index b)) ?h"
    using store by (simp_all add: store_ok_def)
  have lad: "ladder_rep ?h sd (bk_side sd b) (G sd)" "side_of sd A = ladder_view ?h (G sd)" for sd
    using sides by (simp_all add: sides_rep_def)
  have ladder: "ladder_wf sd (side_of sd A)" for sd
    using wf by (cases sd) (simp_all add: spec_wf_def)
  have "order_typed b a ord" if ord: "?h a = Some ord" for a ord
  proof -
    obtain sd where a: "a \<in> set (ladder_addrs (G sd))"
      using sides ord unfolding sides_rep_def by (metis Un_iff domI)
    obtain p lv as where l: "om_find p (bk_side sd b) \<noteq> None" "level_rep ?h (sd, p) lv as" "a \<in> set as"
      "(p, map (view_at ?h) as) \<in> set (side_of sd A)"
      using ladder_rep_level[OF lad(1) a] lad(2) by metis
    have seg: "dseg ?h (sd, p) None as None" using l(2) by (simp add: level_rep_def)
    have "queue_wf sd p (map (view_at ?h) as)" using ladder[of sd] l(4) by (auto simp: ladder_wf_def)
    moreover have "order_view ord \<in> set (map (view_at ?h) as)"
      using l(3) view_at_Some[of ?h a ord, OF ord] by force
    ultimately have "o_price (order_view ord) = p \<and> own_side (o_side (order_view ord)) = sd \<and>
        o_remaining (order_view ord) \<noteq> 0"
      unfolding queue_wf_def by blast
    then have "o_price ord = p" "own_side (o_side ord) = sd" "o_remaining ord \<noteq> 0"
      by (simp_all add: order_data.truncate_def)
    moreover have "o_level ord = Some (sd, p)" using dseg_dom[OF seg l(3)] ord by simp
    moreover have "fm_find (bk_index b) (o_id ord) = Some (Some (Some a))"
      using fm_find_ok[OF idx(1)] indexedD[OF idx(2) ord] by simp
    ultimately show ?thesis
      using l(1) dseg_next[OF seg l(3) ord] dseg_prev[OF seg l(3) ord]
      unfolding order_typed_def by (simp add: Let_def)
  qed
  moreover have "level_typed b sd p lv" if "(p, lv) \<in> set (bk_side sd b)" for sd p lv
    by (rule ladder_rep_levels_typed[OF lad(1) that])
  moreover have "\<exists>a ord. v = Some a \<and> ?h a = Some ord \<and> o_id ord = oid"
    if "fm_find (bk_index b) oid = Some (Some v)" for oid v
    using that fm_find_ok[OF idx(1), of oid] idx(2) by (auto simp: indexed_def)
  ultimately show ?thesis unfolding book_typed_def by auto
qed

section \<open>What a snapshot leaves out\<close>

text \<open>One resting order, of the trader 7 or of the trader 8.\<close>

definition resting_order_of :: "trader_id \<Rightarrow> book_op list" where
  "resting_order_of trader = [Do_submit 1 trader Buy (I64 100) 5]"

lemma snapshot_sample:
  "spec_snapshot (session_book CancelResting (resting_order_of 7)) =
     spec_snapshot (session_book CancelResting (resting_order_of 8))"
  "fst (spec_step CancelResting (Do_submit 2 7 Sell (I64 100) 5)
     (session_book CancelResting (resting_order_of 7))) \<noteq>
   fst (spec_step CancelResting (Do_submit 2 7 Sell (I64 100) 5)
     (session_book CancelResting (resting_order_of 8)))"
  by code_simp+

text \<open>
  Equal snapshots are not equal books: two books that differ in the trader of an order have the same
  snapshot, and answer the next order differently.
\<close>

theorem snapshot_hides_trader:
  "\<exists>rs b rs' b' snap r b1 r' b1'.
     book_session CancelResting cap (resting_order_of 7) = Some (rs, b) \<and>
     book_session CancelResting cap (resting_order_of 8) = Some (rs', b') \<and>
     snapshot b = Some snap \<and> snapshot b' = Some snap \<and>
     book_step (Do_submit 2 7 Sell (I64 100) 5) b = Some (r, b1) \<and>
     book_step (Do_submit 2 7 Sell (I64 100) 5) b' = Some (r', b1') \<and> r \<noteq> r'"
proof -
  obtain b where b: "book_session CancelResting cap (resting_order_of 7) =
      Some (fst (spec_session CancelResting (resting_order_of 7)), b)"
    "book_rep b (session_book CancelResting (resting_order_of 7))" "bk_stp b = CancelResting"
    by (rule session_ok)
  obtain b' where b': "book_session CancelResting cap (resting_order_of 8) =
      Some (fst (spec_session CancelResting (resting_order_of 8)), b')"
    "book_rep b' (session_book CancelResting (resting_order_of 8))" "bk_stp b' = CancelResting"
    by (rule session_ok)
  obtain b1 where b1: "book_step (Do_submit 2 7 Sell (I64 100) 5) b =
      Some (fst (spec_step (bk_stp b) (Do_submit 2 7 Sell (I64 100) 5)
        (session_book CancelResting (resting_order_of 7))), b1)"
    by (rule book_step_ok[OF b(2)])
  obtain b1' where b1': "book_step (Do_submit 2 7 Sell (I64 100) 5) b' =
      Some (fst (spec_step (bk_stp b') (Do_submit 2 7 Sell (I64 100) 5)
        (session_book CancelResting (resting_order_of 8))), b1')"
    by (rule book_step_ok[OF b'(2)])
  show ?thesis
    using b(1) b'(1) b1 b1' book_snapshot_ok[OF b(2)] book_snapshot_ok[OF b'(2)] snapshot_sample
    unfolding b(3) b'(3) by fastforce
qed

section \<open>Properties\<close>

text \<open>
  C16: No pointer dangles: after every session each order in the pool is linked into the level of its
  own side and price and found through the index, its neighbours are live orders of the same level
  that point back to it, the ends of every level are the ends of its queue, and the index holds
  nothing else.
\<close>

theorem book_memory_typed:
  "\<exists>rs b. book_session pol cap cmds = Some (rs, b) \<and> book_typed b"
  using session_ok[of pol cap cmds] book_rep_typed by metis

end
