(* ===== verification/BookFailure.thy ===== *)
theory BookFailure
  imports BookMemory
begin

text \<open>
  Running out of memory in \<open>submit\<close> (\<open>src/OrderBook.cpp\<close>): after the matching it allocates up to
  three times, for a block of the pool, for a node of the ordered map and for the arrays of the index.
  When one of these throws \<open>std::bad_alloc\<close>, the exception leaves \<open>submit\<close>, and the book stays as it
  is at that point.
\<close>

section \<open>Allocations that throw\<close>

text \<open>The allocations of \<open>rehash\<close>, and those of \<open>submit\<close> in their order.\<close>

datatype rehash_stage = Keys_assign | Values_assign | State_assign

datatype submit_failure = No_failure | Pool_failure | Level_failure | Index_failure rehash_stage

text \<open>
  A left result is the state that a \<open>std::bad_alloc\<close> leaves behind.  An operation that does not get to
  the allocation, because it has room, does not throw.
\<close>

definition mp_acquire_try :: "bool \<Rightarrow> 'a \<Rightarrow> 'a mpool \<Rightarrow> ('a mpool + ptr \<times> 'a mpool) option" where
  "mp_acquire_try fails x p =
     (if fails \<and> mp_free_list p = None then Some (Inl p)
      else map_option Inr (mp_acquire x p))"

text \<open>
  \<open>rehash\<close> moves the arrays out of the table, sets \<open>capacity_\<close> and \<open>mask_\<close>, and then allocates new ones;
  the old ones are destroyed with the local variables that own them.
\<close>

definition fm_rehash_failed :: "rehash_stage \<Rightarrow> ('v::default) flat_map \<Rightarrow> nat \<Rightarrow> 'v flat_map" where
  "fm_rehash_failed st old new_cap =
     \<lparr>fm_keys = (if st = Keys_assign then [] else replicate new_cap 0),
      fm_values = (if st = State_assign then replicate new_cap default else []),
      fm_state = [], fm_capacity = new_cap, fm_mask = new_cap - 1, fm_size = fm_size old\<rparr>"

definition fm_insert_try ::
    "rehash_stage option \<Rightarrow> ('v::default) flat_map \<Rightarrow> order_id \<Rightarrow> 'v \<Rightarrow>
     ('v flat_map + 'v flat_map) option" where
  "fm_insert_try fails m key v =
     (case fails of
        Some st \<Rightarrow>
          (if (fm_size m + 1) * 8 \<ge> fm_capacity m * 7
           then Some (Inl (fm_rehash_failed st m (fm_capacity m * 2)))
           else map_option Inr (fm_insert m key v))
      | None \<Rightarrow> map_option Inr (fm_insert m key v))"

text \<open>The allocation of a map node in \<open>try_emplace\<close> leaves the map as it was when it throws.\<close>

definition book_rest_try ::
    "bool \<Rightarrow> book_side \<Rightarrow> price \<Rightarrow> ptr \<Rightarrow> book \<Rightarrow> (book + book) option" where
  "book_rest_try fails sd price p b =
     (if fails \<and> om_find price (bk_side sd b) = None then Some (Inl b)
      else map_option Inr (book_rest sd price p b))"

fun index_stage :: "submit_failure \<Rightarrow> rehash_stage option" where
  "index_stage (Index_failure st) = Some st"
| "index_stage _ = None"

definition book_insert_try ::
    "submit_failure \<Rightarrow> order_id \<Rightarrow> trader_id \<Rightarrow> side \<Rightarrow> price \<Rightarrow> quantity \<Rightarrow> book \<Rightarrow>
     (book + book) option" where
  "book_insert_try f oid trader sd price q b =
     do {
       acquired \<leftarrow> mp_acquire_try (f = Pool_failure) (order_new oid trader sd price q) (bk_pool b);
       case acquired of
         Inl pool \<Rightarrow> Some (Inl (b\<lparr>bk_pool := pool\<rparr>))
       | Inr (p, pool) \<Rightarrow>
           do {
             ord \<leftarrow> load (mp_mem pool) p;
             mem \<leftarrow> poke (mp_mem pool) p (set_sequence (bk_next_seq b) ord);
             rested \<leftarrow> book_rest_try (f = Level_failure) (own_side sd) price p
               (b\<lparr>bk_pool := pool\<lparr>mp_mem := mem\<rparr>, bk_next_seq := bk_next_seq b + 1\<rparr>);
             case rested of
               Inl b2 \<Rightarrow> Some (Inl b2)
             | Inr b3 \<Rightarrow>
                 do {
                   indexed \<leftarrow> fm_insert_try (index_stage f) (bk_index b3) oid p;
                   Some (case indexed of
                       Inl idx \<Rightarrow> Inl (b3\<lparr>bk_index := idx\<rparr>)
                     | Inr idx \<Rightarrow> Inr (b3\<lparr>bk_index := idx\<rparr>))
                 }
           }
     }"

definition book_submit_try ::
    "submit_failure \<Rightarrow> order_id \<Rightarrow> trader_id \<Rightarrow> side \<Rightarrow> price \<Rightarrow> quantity \<Rightarrow> book \<Rightarrow>
     (book + submit_result \<times> book) option" where
  "book_submit_try f oid trader sd price quantity b =
     do {
       reject \<leftarrow> (if quantity = 0 then Some True else fm_contains (bk_index b) oid);
       if reject then Some (Inr (submit_result_init, b\<lparr>bk_trades := []\<rparr>))
       else
         do {
           let opp = other_side (own_side sd);
           (m, s1) \<leftarrow> match_side (bk_stp b) (submit_taker oid trader sd price) (bk_side opp b)
             \<lparr>ms_pool = bk_pool b, ms_index = bk_index b, ms_trades = [],
              ms_remaining = quantity, ms_stp = False\<rparr>;
           let b1 = bk_set_side opp m (b\<lparr>bk_pool := ms_pool s1, bk_index := ms_index s1,
                      bk_trades := ms_trades s1\<rparr>);
           let r = ms_remaining s1;
           let res = submit_result_init\<lparr>r_filled := quantity - r,
                       r_trade_count := of_nat (length (ms_trades s1))\<rparr>;
           if ms_stp s1 then Some (Inr (res\<lparr>r_status := CancelledBySelfTrade\<rparr>, b1))
           else if r > 0 then
             do {
               inserted \<leftarrow> book_insert_try f oid trader sd price r b1;
               Some (case inserted of
                   Inl b2 \<Rightarrow> Inl b2
                 | Inr b3 \<Rightarrow> Inr (res\<lparr>r_resting := r,
                     r_status := (if 0 < quantity - r then PartiallyFilled else Rested)\<rparr>, b3))
             }
           else Some (Inr (res\<lparr>r_status := FullyFilled\<rparr>, b1))
         }
     }"

section \<open>Without a failure\<close>

lemma book_insert_try_none:
  "book_insert_try No_failure oid trader sd price q b =
     map_option Inr (book_insert oid trader sd price q b)"
proof (cases "mp_acquire (order_new oid trader sd price q) (bk_pool b)")
  case None
  then show ?thesis by (simp add: book_insert_try_def book_insert_def mp_acquire_try_def)
next
  case (Some r)
  obtain p pool where r: "r = (p, pool)" by fastforce
  show ?thesis
    using Some unfolding r
    by (simp add: book_insert_try_def book_insert_def mp_acquire_try_def book_rest_try_def
        fm_insert_try_def map_option_bind Option.map_option_bind split: Option.bind_split)
qed

lemma case_sum_eq_iff:
  "(case y of Inl a \<Rightarrow> f a | Inr c \<Rightarrow> g c) = z \<longleftrightarrow>
   (\<exists>a. y = Inl a \<and> f a = z) \<or> (\<exists>c. y = Inr c \<and> g c = z)"
  by (cases y) auto

lemma bind_if: "Option.bind (if c then x else y) f = (if c then Option.bind x f else Option.bind y f)"
  by simp

lemma book_submit_try_none:
  "book_submit_try No_failure oid trader sd price q b =
     map_option Inr (book_submit oid trader sd price q b)"
  unfolding book_submit_try_def book_submit_blocks book_insert_try_none
  by (simp add: Let_def split_def map_conv_bind_option bind_if
      Option.bind_assoc cong: if_cong)

section \<open>Where an exception comes from\<close>

text \<open>
  An exception comes from the block that rests the remainder, after the matching; \<open>b1\<close> is the book
  there, and the submission without the failure goes on from it.
\<close>

lemma book_submit_try_failed:
  assumes rep: "book_rep b A" and run: "book_submit_try f oid trader sd price q b = Some (Inl b')"
  obtains b1 A1 r res b2 where "book_rep b1 A1" "r \<noteq> 0" "oid \<notin> set (spec_ids A1)"
    "\<forall>p \<in> prices (side_of (other_side (own_side sd)) A1). \<not> crosses sd price p"
    "book_insert_try f oid trader sd price r b1 = Some (Inl b')"
    "book_insert oid trader sd price r b1 = Some b2"
    "book_submit oid trader sd price q b = Some (res, b2)" "r_resting res = r"
proof -
  let ?opp = "other_side (own_side sd)" and ?tk = "submit_taker oid trader sd price"
  have contains: "fm_contains (bk_index b) oid = Some (oid \<in> set (spec_ids A))"
    using rep book_rep_index[OF rep, of oid] fm_contains_ok[of "bk_index b" oid]
    by (simp add: book_rep_def store_ok_def)
  obtain m s where m: "match_side (bk_stp b) ?tk (bk_side ?opp b)
      \<lparr>ms_pool = bk_pool b, ms_index = bk_index b, ms_trades = [], ms_remaining = q, ms_stp = False\<rparr> =
      Some (m, s)"
    and ex: "\<exists>m'. spec_match (bk_stp b) ?tk q (side_of ?opp A) =
        (m', ms_remaining s, ms_trades s, ms_stp s) \<and>
      book_rep (bk_set_side ?opp m (b\<lparr>bk_pool := ms_pool s, bk_index := ms_index s,
          bk_trades := ms_trades s\<rparr>)) ((set_side ?opp m' A)\<lparr>sp_trades := ms_trades s\<rparr>)"
    by (rule book_match_ok[OF rep])
  define b1 where "b1 = bk_set_side ?opp m (b\<lparr>bk_pool := ms_pool s, bk_index := ms_index s,
    bk_trades := ms_trades s\<rparr>)"
  obtain m' where sp: "spec_match (bk_stp b) ?tk q (side_of ?opp A) =
      (m', ms_remaining s, ms_trades s, ms_stp s)"
    and rep1: "book_rep b1 ((set_side ?opp m' A)\<lparr>sp_trades := ms_trades s\<rparr>)"
    using ex by (auto simp: b1_def)
  let ?A1 = "(set_side ?opp m' A)\<lparr>sp_trades := ms_trades s\<rparr>" and ?r = "ms_remaining s"
  have new: "q \<noteq> 0" "oid \<notin> set (spec_ids A)"
    using run contains by (auto simp: book_submit_try_def split: if_splits)
  note run1 = run[unfolded book_submit_try_def Let_def m b1_def[symmetric]]
  have rest: "\<not> ms_stp s" "?r \<noteq> 0" "book_insert_try f oid trader sd price ?r b1 = Some (Inl b')"
    using run1 new contains
    by (auto simp: bind_eq_Some_conv b1_def[symmetric] case_sum_eq_iff split: if_splits)
  have away: "\<forall>p \<in> prices m'. \<not> crosses sd price p"
    using spec_match_exhausts[OF sp] rest rep by (simp add: book_rep_def spec_wf_side)
  have side: "side_of ?opp ?A1 = m'" by (simp add: side_of_set_other)
  have away1: "\<forall>p \<in> prices (side_of ?opp ?A1). \<not> crosses sd price p" unfolding side by (rule away)
  have gone: "oid \<notin> set (spec_ids ?A1)"
    using spec_match_book_wf(2)[OF _ sp] new rep by (auto simp: book_rep_def)
  obtain b2 where b2: "book_insert oid trader sd price ?r b1 = Some b2"
    using book_insert_ok[OF rep1 gone rest(2) away1, of trader] by blast
  have "\<exists>res. book_submit oid trader sd price q b = Some (res, b2) \<and> r_resting res = ?r"
    using new contains rest(1,2) b2 by (simp add: book_submit_blocks m b1_def[symmetric] word_gt_0 Let_def)
  then obtain res where "book_submit oid trader sd price q b = Some (res, b2)" "r_resting res = ?r"
    by blast
  then show thesis using that[OF rep1 rest(2) gone away1 rest(3) b2] by blast
qed

text \<open>The three ways to fail.\<close>

lemma book_insert_try_failed:
  assumes "book_insert_try f oid trader sd price q b = Some (Inl b')"
  obtains (Pool) "f = Pool_failure" "mp_free_list (bk_pool b) = None" "b' = b"
  | (Level) p pool ord mem where "f = Level_failure"
      "mp_acquire (order_new oid trader sd price q) (bk_pool b) = Some (p, pool)"
      "load (mp_mem pool) p = Some ord"
      "poke (mp_mem pool) p (set_sequence (bk_next_seq b) ord) = Some mem"
      "om_find price (bk_side (own_side sd) b) = None"
      "b' = b\<lparr>bk_pool := pool\<lparr>mp_mem := mem\<rparr>, bk_next_seq := bk_next_seq b + 1\<rparr>"
  | (Index) st b3 where "f = Index_failure st" 
      "(fm_size (bk_index b3) + 1) * 8 \<ge> fm_capacity (bk_index b3) * 7"
      "b' = b3\<lparr>bk_index := fm_rehash_failed st (bk_index b3) (fm_capacity (bk_index b3) * 2)\<rparr>"
  using assms
  by (cases f) (auto simp: book_insert_try_def mp_acquire_try_def book_rest_try_def fm_insert_try_def
      bind_eq_Some_conv case_sum_eq_iff split: if_splits)

section \<open>What an exception leaves behind\<close>

text \<open>Cancelling an order that was just rested restores the orders before it.\<close>

lemma spec_remove_rest:
  assumes wf: "ladder_wf sd m" and new: "o_id ord \<notin> set (queue_ids m)"
    and ord: "own_side (o_side ord) = sd" "o_remaining ord \<noteq> 0"
  shows "spec_remove (o_id ord) (spec_rest sd ord m) = m"
proof -
  have wf': "ladder_wf sd (spec_rest sd ord m)" by (rule spec_rest_wf[OF wf ord])
  have drop: "spec_remove (o_id ord) xs = xs" if "ladder_wf sd xs" "o_id ord \<notin> set (queue_ids xs)" for xs
    by (rule spec_remove_absent[OF that])
  show ?thesis
  proof (rule spec_rest_cases[OF wf, of ord])
    fix xs os ys
    assume m: "m = xs @ (o_price ord, os) # ys" "os \<noteq> []"
      and r: "spec_rest sd ord m = xs @ (o_price ord, os @ [ord]) # ys"
    have parts: "ladder_wf sd xs" "ladder_wf sd ys" using wf m(1) by (auto simp: ladder_wf_append ladder_wf_Cons)
    have "filter (\<lambda>x. o_id x \<noteq> o_id ord) os = os"
      using new m(1) by (auto simp: filter_id_conv image_iff)
    then show ?thesis
      using drop[OF parts(1)] drop[OF parts(2)] new m unfolding r by auto
  next
    fix xs ys
    assume m: "m = xs @ ys" and r: "spec_rest sd ord m = xs @ (o_price ord, [ord]) # ys"
    have parts: "ladder_wf sd xs" "ladder_wf sd ys" using wf m by (auto simp: ladder_wf_append)
    then show ?thesis using drop[OF parts(1)] drop[OF parts(2)] new m unfolding r by auto
  qed
qed

text \<open>
  The book at the failing block is the one that the submission without the failure, and then a
  cancellation of what it rested, give.
\<close>

lemma book_insert_cancel:
  assumes rep: "book_rep b1 A1" and new: "oid \<notin> set (spec_ids A1)" "r \<noteq> 0"
    and away: "\<forall>p \<in> prices (side_of (other_side (own_side sd)) A1). \<not> crosses sd price p"
    and ins: "book_insert oid trader sd price r b1 = Some b2"
  obtains b3 where "book_cancel oid b2 = Some (True, b3)" "snapshot b3 = snapshot b1"
    "bk_trades b2 = bk_trades b1"
proof -
  let ?ord = "resting_order oid trader sd price r (sp_next_seq A1)"
  let ?A2 = "(set_side (own_side sd) (spec_rest (own_side sd) ?ord (side_of (own_side sd) A1)) A1)
    \<lparr>sp_next_seq := sp_next_seq A1 + 1\<rparr>"
  have b2: "book_rep b2 ?A2" "bk_trades b2 = bk_trades b1"
    using book_insert_ok[OF rep new away, of trader] ins by auto
  have wf: "spec_wf A1" using rep by (simp add: book_rep_def)
  have wfs: "ladder_wf (own_side sd) (side_of (own_side sd) A1)" by (rule spec_wf_side[OF wf])
  have ids: "oid \<notin> set (queue_ids (side_of sd' A1))" for sd'
    using new(1) by (cases sd') (auto simp: spec_ids_def)
  have undo: "spec_remove oid (spec_rest (own_side sd) ?ord (side_of (own_side sd) A1)) =
      side_of (own_side sd) A1"
    using spec_remove_rest[OF wfs, of ?ord] ids new(2) by simp
  have same: "spec_remove oid (side_of sd' A1) = side_of sd' A1" for sd'
    by (rule spec_remove_absent[OF spec_wf_side[OF wf] ids])
  have "mset (queue_ids (spec_rest (own_side sd) ?ord (side_of (own_side sd) A1))) =
      add_mset oid (mset (queue_ids (side_of (own_side sd) A1)))"
    using spec_rest_ids(1)[OF wfs] by simp
  then have "oid \<in> set (queue_ids (side_of (own_side sd) ?A2))"
    by (simp add: side_of_set_other) (metis set_mset_mset union_single_eq_member)
  then have mem: "oid \<in> set (spec_ids ?A2)" by (cases "own_side sd") (auto simp: spec_ids_def set_side_def)
  obtain b3 where b3: "book_cancel oid b2 = Some (fst (spec_cancel oid ?A2), b3)"
    "book_rep b3 (snd (spec_cancel oid ?A2))"
    by (rule book_cancel_ok[OF b2(1)])
  have "side_of sd' (snd (spec_cancel oid ?A2)) = side_of sd' A1" for sd'
    using undo same[of Bids] same[of Asks]
    by (cases sd'; cases "own_side sd") (auto simp: spec_cancel_def set_side_def side_of_def)
  then have "sp_bids (snd (spec_cancel oid ?A2)) = sp_bids A1" "sp_asks (snd (spec_cancel oid ?A2)) = sp_asks A1"
    by (metis side_of_simps(1), metis side_of_simps(2))
  then have "spec_snapshot (snd (spec_cancel oid ?A2)) = spec_snapshot A1"
    by (simp add: spec_snapshot_def)
  then have "snapshot b3 = snapshot b1"
    using book_snapshot_ok[OF b3(2)] book_snapshot_ok[OF rep] by simp
  then show thesis using that b3(1) mem b2(2) by (simp add: spec_cancel_def)
qed

text \<open>A pool that cannot grow: nothing has changed since the matching.\<close>

lemma pool_failure_state:
  assumes "book_insert_try Pool_failure oid trader sd price r b1 = Some (Inl b')"
  shows "b' = b1"
  using assms by (cases rule: book_insert_try_failed) simp_all

text \<open>A level that cannot be made: the order stays in the pool, and nothing leads to it.\<close>

lemma mp_acquire_live: "mp_acquire x p = Some (q, p') \<Longrightarrow> mp_live_count p' = mp_live_count p + 1"
proof -
  let ?p = "if mp_free_list p = None then mp_grow p else p"
  assume "mp_acquire x p = Some (q, p')"
  then obtain node s where "mp_mem ?p node = Some s"
    "(case s of Object _ \<Rightarrow> None
      | FreeNode nxt \<Rightarrow> Some (Some node, ?p\<lparr>mp_free_list := nxt, mp_live_count := mp_live_count ?p + 1,
          mp_mem := (mp_mem ?p)(node \<mapsto> Object x)\<rparr>)) = Some (q, p')"
    unfolding mp_acquire_def Let_def bind_eq_Some_conv by blast
  then show ?thesis by (cases s) (auto simp: mp_grow_def Let_def split_def)
qed

lemma snapshot_frame:
  assumes rep: "book_rep b A" and same: "bk_bids b' = bk_bids b" "bk_asks b' = bk_asks b"
    and heap: "\<And>a. bk_heap b a \<noteq> None \<Longrightarrow> bk_heap b' a = bk_heap b a"
  shows "snapshot b' = snapshot b"
proof -
  obtain G where G: "sides_rep (bk_heap b) b A G" using rep by (auto simp: book_rep_def)
  have "bk_heap b' a = bk_heap b a" if "a \<in> set (ladder_addrs (G sd))" for a sd
    using that sides_rep_dom[OF G, of sd] by (intro heap) auto
  then have frame: "ladder_rep (bk_heap b') sd (bk_side sd b) (G sd)"
    "ladder_view (bk_heap b') (G sd) = ladder_view (bk_heap b) (G sd)" for sd
    using G by (auto simp: sides_rep_def view_at_def intro: ladder_rep_frame ladder_view_frame)
  have "snapshot_side s (mp_mem (bk_pool b')) (bk_side sd b) = snapshot_side s (mp_mem (bk_pool b)) (bk_side sd b)"
    for s sd
    using snapshot_side_ok[of "mp_mem (bk_pool b)" sd "bk_side sd b" "G sd" s]
      snapshot_side_ok[of "mp_mem (bk_pool b')" sd "bk_side sd b" "G sd" s] frame[of sd] G
    by (simp add: sides_rep_def mp_heap_def)
  from this[of _ Bids] this[of _ Asks] show ?thesis
    using same by (simp add: snapshot_def bk_side_def)
qed

lemma level_failure_state:
  assumes rep: "book_rep b1 A1" and fail: "book_insert_try Level_failure oid trader sd price r b1 = Some (Inl b')"
  shows "snapshot b' = snapshot b1" "bk_index b' = bk_index b1" "bk_trades b' = bk_trades b1"
    "mp_live_count (bk_pool b') = of_nat (order_count b') + 1"
proof -
  from fail obtain p pool ord mem where f:
    "mp_acquire (order_new oid trader sd price r) (bk_pool b1) = Some (p, pool)"
    "load (mp_mem pool) p = Some ord"
    "poke (mp_mem pool) p (set_sequence (bk_next_seq b1) ord) = Some mem"
    "b' = b1\<lparr>bk_pool := pool\<lparr>mp_mem := mem\<rparr>, bk_next_seq := bk_next_seq b1 + 1\<rparr>"
    by (cases rule: book_insert_try_failed) auto
  have "mp_inv (bk_pool b1)" using rep by (simp add: book_rep_def store_ok_def)
  then obtain a pool1 where a: "mp_acquire (order_new oid trader sd price r) (bk_pool b1) = Some (Some a, pool1)"
    "bk_heap b1 a = None" "mp_heap pool1 = (bk_heap b1)(a \<mapsto> order_new oid trader sd price r)"
    by (rule mp.acquireE)
  then have ap: "p = Some a" "pool1 = pool" using f(1) by simp_all
  have mem: "objects mem = (objects (mp_mem pool))(a \<mapsto> set_sequence (bk_next_seq b1) ord)"
    using f(3) by (auto simp: ap split: if_splits)
  show "snapshot b' = snapshot b1"
  proof (rule snapshot_frame[OF rep])
    fix c assume c: "bk_heap b1 c \<noteq> None"
    then have "c \<noteq> a" using a(2) by auto
    then have "mp_heap pool c = bk_heap b1 c" using a(3) ap by simp
    then show "bk_heap b' c = bk_heap b1 c" using f(4) mem \<open>c \<noteq> a\<close> by (simp add: mp_heap_def)
  qed (simp_all add: f(4))
  show "bk_index b' = bk_index b1" "bk_trades b' = bk_trades b1" by (simp_all add: f(4))
  show "mp_live_count (bk_pool b') = of_nat (order_count b') + 1"
    using mp_acquire_live[OF f(1)] book_count_ok[OF rep] by (simp add: f(4) order_count_def)
qed

text \<open>An index that cannot grow has lost its arrays: every lookup reads past the end of an empty one.\<close>

lemma failed_rehash_lookups:
  "fm_contains (fm_rehash_failed st m n) k = None" "fm_find (fm_rehash_failed st m n) k = None"
  by (simp_all add: fm_contains_def fm_find_def fm_probe.simps fm_rehash_failed_def fetch_def)

lemma index_failure_state:
  assumes "book_insert_try (Index_failure st) oid trader sd price r b1 = Some (Inl b')"
  shows "book_cancel oid' b' = None" "q \<noteq> 0 \<Longrightarrow> book_submit oid' trader' sd' price' q b' = None"
proof -
  obtain m n where "bk_index b' = fm_rehash_failed st m n"
    using assms by (cases rule: book_insert_try_failed) auto
  then show "book_cancel oid' b' = None" "q \<noteq> 0 \<Longrightarrow> book_submit oid' trader' sd' price' q b' = None"
    by (simp_all add: book_cancel_def book_submit_def failed_rehash_lookups)
qed

section \<open>Sessions that run out of memory\<close>

text \<open>The first order of a price needs a map node.\<close>

lemma level_failure_happens:
  assumes rep: "book_rep b1 A1" and new: "om_find price (bk_side (own_side sd) b1) = None"
  obtains b' where "book_insert_try Level_failure oid trader sd price r b1 = Some (Inl b')"
proof -
  have "mp_inv (bk_pool b1)" using rep by (simp add: book_rep_def store_ok_def)
  then obtain a pool where "mp_acquire (order_new oid trader sd price r) (bk_pool b1) = Some (Some a, pool)"
    "mp_heap pool = (bk_heap b1)(a \<mapsto> order_new oid trader sd price r)"
    by (rule mp.acquireE)
  then show thesis
    using that new by (simp add: book_insert_try_def mp_acquire_try_def book_rest_try_def mp_heap_def)
qed

text \<open>A full index needs new arrays.\<close>

lemma index_failure_happens:
  assumes "book_insert oid trader sd price r b1 = Some b2"
    "(fm_size (bk_index b1) + 1) * 8 \<ge> fm_capacity (bk_index b1) * 7"
  obtains b' where "book_insert_try (Index_failure st) oid trader sd price r b1 = Some (Inl b')"
proof -
  have "bk_index b3 = bk_index b" if "book_rest sd p x b = Some b3" for sd p x b b3
    using that by (cases sd) (auto simp: book_rest_def Let_def bind_eq_Some_conv bk_set_side_def)
  then show thesis
    using that assms
    by (fastforce simp: book_insert_def book_insert_try_def mp_acquire_try_def book_rest_try_def
        fm_insert_try_def bind_eq_Some_conv)
qed

text \<open>An index that has room keeps its size.\<close>

lemma fm_insert_loop_capacity: "fm_insert_loop m k v i = Some m' \<Longrightarrow> fm_capacity m' = fm_capacity m"
  by (rule fm_insert_loop.raw_induct[where P = "\<lambda>m k v i m'. fm_capacity m' = fm_capacity m", rotated])
    (auto simp: bind_eq_Some_conv split: if_splits)

lemma fm_insert_capacity:
  "fm_insert m k v = Some m' \<Longrightarrow> (fm_size m + 1) * 8 < fm_capacity m * 7 \<Longrightarrow> fm_capacity m' = fm_capacity m"
  by (subst (asm) fm_insert.simps) (auto dest: fm_insert_loop_capacity)

lemma book_insert_capacity:
  assumes "book_insert oid trader sd price r b1 = Some b2"
    "(fm_size (bk_index b1) + 1) * 8 < fm_capacity (bk_index b1) * 7"
  shows "fm_capacity (bk_index b2) = fm_capacity (bk_index b1)"
proof -
  have "bk_index b3 = bk_index b" if "book_rest sd p x b = Some b3" for sd p x b b3
    using that by (cases sd) (auto simp: book_rest_def Let_def bind_eq_Some_conv bk_set_side_def)
  then show ?thesis
    using assms by (fastforce simp: book_insert_def bind_eq_Some_conv dest: fm_insert_capacity)
qed

text \<open>A bid on a book without asks goes straight to the block that rests it.\<close>

lemma bid_only:
  assumes "bk_asks b = []" "q \<noteq> 0" "fm_contains (bk_index b) oid = Some False"
  shows "book_submit_try f oid trader Buy price q b =
      map_option (\<lambda>r. case r of Inl b2 \<Rightarrow> Inl b2
        | Inr b3 \<Rightarrow> Inr (submit_result_init\<lparr>r_resting := q, r_status := Rested\<rparr>, b3))
      (book_insert_try f oid trader Buy price q (b\<lparr>bk_trades := []\<rparr>))"
    and "book_submit oid trader Buy price q b =
      map_option (\<lambda>b3. (submit_result_init\<lparr>r_resting := q, r_status := Rested\<rparr>, b3))
      (book_insert oid trader Buy price q (b\<lparr>bk_trades := []\<rparr>))"
proof -
  have same: "bk_set_side Asks [] (b\<lparr>bk_trades := []\<rparr>) = b\<lparr>bk_trades := []\<rparr>"
    using assms(1) by (simp add: bk_set_side_def)
  show "book_submit_try f oid trader Buy price q b =
      map_option (\<lambda>r. case r of Inl b2 \<Rightarrow> Inl b2
        | Inr b3 \<Rightarrow> Inr (submit_result_init\<lparr>r_resting := q, r_status := Rested\<rparr>, b3))
      (book_insert_try f oid trader Buy price q (b\<lparr>bk_trades := []\<rparr>))"
    using assms
    by (cases "book_insert_try f oid trader Buy price q (b\<lparr>bk_trades := []\<rparr>)")
      (auto simp: book_submit_try_def own_side_def other_side_def bk_side_def match_side.simps Let_def
        same word_gt_0 submit_result_init_def split: sum.splits)
  show "book_submit oid trader Buy price q b =
      map_option (\<lambda>b3. (submit_result_init\<lparr>r_resting := q, r_status := Rested\<rparr>, b3))
      (book_insert oid trader Buy price q (b\<lparr>bk_trades := []\<rparr>))"
    using assms
    by (simp add: book_submit_blocks own_side_def other_side_def bk_side_def match_side.simps Let_def
        same word_gt_0 map_conv_bind_option submit_result_init_def comp_def)
qed

text \<open>Bids at one price until the index is full.\<close>

definition bids_session :: "nat \<Rightarrow> book_op list" where
  "bids_session n = map (\<lambda>i. Do_submit (of_nat i) 7 Buy (I64 100) 5) [1..<Suc n]"

lemma bids_session_simps [simp]:
  "bids_session 0 = []"
  "bids_session (Suc n) = bids_session n @ [Do_submit (of_nat (Suc n)) 7 Buy (I64 100) 5]"
  by (simp_all add: bids_session_def)

lemma book_run_snoc:
  "book_run (cmds @ [cmd]) b =
     do { (rs, b1) \<leftarrow> book_run cmds b; (r, b2) \<leftarrow> book_step cmd b1; Some (rs @ [r], b2) }"
  by (induction cmds arbitrary: b) (simp_all add: split_def Option.bind_assoc)

lemma bids_fresh:
  assumes "Suc n < 2 ^ 64"
  shows "(of_nat (Suc n) :: order_id) \<notin> of_nat ` {1..n}"
proof
  assume "(of_nat (Suc n) :: order_id) \<in> of_nat ` {1..n}"
  then obtain i where i: "i \<le> n" "(of_nat (Suc n) :: order_id) = of_nat i" by auto
  moreover have "unat (of_nat k :: order_id) = k" if "k \<le> Suc n" for k
    unfolding unat_of_nat using that assms by (intro mod_less) simp
  ultimately have "Suc n = i" by (metis le_SucI le_refl)
  then show False using i(1) by simp
qed

lemma bids_spec:
  "n < 2 ^ 64 \<Longrightarrow> sp_asks (session_book pol (bids_session n)) = [] \<and>
   set (spec_ids (session_book pol (bids_session n))) = of_nat ` {1..n} \<and>
   length (spec_ids (session_book pol (bids_session n))) = n"
proof (induction n)
  case 0
  then show ?case by (simp add: spec_session_def spec_new_def spec_ids_def)
next
  case (Suc n)
  let ?A = "session_book pol (bids_session n)"
  have IH: "sp_asks ?A = []" "set (spec_ids ?A) = of_nat ` {1..n}" "length (spec_ids ?A) = n"
    using Suc by simp_all
  have new: "(of_nat (Suc n) :: order_id) \<notin> of_nat ` {1..n}" by (rule bids_fresh[OF Suc.prems])
  obtain res A' where s: "spec_submit pol (of_nat (Suc n)) 7 Buy (I64 100) 5 ?A = (res, A')" by fastforce
  have A': "session_book pol (bids_session (Suc n)) = A'"
    using s by (simp add: session_step spec_step_def)
  have wf: "ladder_wf Bids (sp_bids ?A)"
    using spec_wf_side[OF session_wf, of Bids] by simp
  let ?ord = "resting_order (of_nat (Suc n)) 7 Buy (I64 100) 5 (sp_next_seq ?A)"
  have A1: "sp_asks A' = []" "sp_bids A' = spec_rest Bids ?ord (sp_bids ?A)"
    using s IH new
    by (auto simp: spec_submit_def own_side_def other_side_def set_side_def Let_def split: prod.splits)
  have ids: "mset (queue_ids (sp_bids A')) = add_mset (of_nat (Suc n)) (mset (queue_ids (sp_bids ?A)))"
    using spec_rest_ids(1)[OF wf, of ?ord] A1(2) by simp
  have q: "queue_ids (sp_bids ?A) = spec_ids ?A" "spec_ids A' = queue_ids (sp_bids A')"
    using IH(1) A1(1) by (simp_all add: spec_ids_def)
  have "set (spec_ids A') = insert (of_nat (Suc n)) (set (spec_ids ?A))"
    using ids q by (metis set_mset_add_mset_insert set_mset_mset)
  moreover have "length (spec_ids A') = Suc n"
    using ids q IH(3) by (metis size_add_mset size_mset)
  moreover have "{1..Suc n} = insert (Suc n) {1..n}" by auto
  ultimately show ?case using A1(1) IH(2) A' by simp
qed

text \<open>Either the index meets the failure on the way, or it still has its first size.\<close>

definition index_full :: "rehash_stage \<Rightarrow> nat \<Rightarrow> bool" where
  "index_full st k \<longleftrightarrow>
     (\<exists>rs b b'. book_session CancelResting 0 (bids_session k) = Some (rs, b) \<and>
        book_submit_try (Index_failure st) (of_nat (Suc k)) 7 Buy (I64 100) 5 b = Some (Inl b'))"

lemma book_new_capacity: "book_new pol 0 = Some b \<Longrightarrow> fm_capacity (bk_index b) = 16"
proof -
  have "fm_round_up_pow2 16 = 16" "fm_round_up_pow2 1 = 2" by (simp_all add: fm_round_up_pow2_def) code_simp
  then show "book_new pol 0 = Some b \<Longrightarrow> fm_capacity (bk_index b) = 16"
    by (auto simp: book_new_def fm_new_def fm_rehash_def fm_rehash_with_def fm_unallocated_def fm_reserve_def
        Let_def)
qed

lemma bids_capacity:
  assumes "n < 100"
  shows "(\<exists>k<n. index_full st k) \<or>
    (\<exists>b. book_session CancelResting 0 (bids_session n) =
        Some (fst (spec_session CancelResting (bids_session n)), b) \<and>
      book_rep b (session_book CancelResting (bids_session n)) \<and> fm_capacity (bk_index b) = 16)"
  using assms
proof (induction n)
  case 0
  obtain b where "book_session CancelResting 0 [] = Some (fst (spec_session CancelResting []), b)"
    "book_rep b (session_book CancelResting [])"
    by (rule session_ok)
  moreover from this have "fm_capacity (bk_index b) = 16"
    using book_new_capacity by (auto simp: book_session_def bind_eq_Some_conv)
  ultimately show ?case by auto
next
  case (Suc n)
  show ?case
  proof (cases "\<exists>k<Suc n. index_full st k")
    case False
    let ?A = "session_book CancelResting (bids_session n)" and ?oid = "of_nat (Suc n) :: order_id"
    obtain b where b: "book_session CancelResting 0 (bids_session n) =
        Some (fst (spec_session CancelResting (bids_session n)), b)"
      "book_rep b ?A" "fm_capacity (bk_index b) = 16"
      using Suc False by (auto simp: less_Suc_eq)
    obtain b2 where b2: "book_session CancelResting 0 (bids_session (Suc n)) =
        Some (fst (spec_session CancelResting (bids_session (Suc n))), b2)"
      "book_rep b2 (session_book CancelResting (bids_session (Suc n)))"
      by (rule session_ok)
    have n: "n < 2 ^ 64" "Suc n < 2 ^ 64" using Suc.prems by simp_all
    note s = bids_spec[OF n(1), of CancelResting]
    obtain G where G: "sides_rep (bk_heap b) b ?A G" using b(2) by (auto simp: book_rep_def)
    have "map fst (bk_side Asks b) = map fst (side_of Asks ?A)" by (rule book_rep_prices[OF b(2)])
    then have asks: "bk_asks b = []" using s by (simp add: bk_side_def)
    have "?oid \<notin> set (spec_ids ?A)" using bids_fresh[OF n(2)] s by simp
    then have new: "fm_contains (bk_index b) ?oid = Some False"
      using b(2) book_rep_index[OF b(2), of ?oid] fm_contains_ok[of "bk_index b" ?oid]
      by (simp add: book_rep_def store_ok_def)
    obtain res where "book_submit ?oid 7 Buy (I64 100) 5 b = Some (res, b2)"
      using b(1) b2(1) by (auto simp: book_session_def book_run_snoc book_step_def bind_eq_Some_conv)
    then have ins: "book_insert ?oid 7 Buy (I64 100) 5 (b\<lparr>bk_trades := []\<rparr>) = Some b2"
      using bid_only(2)[OF asks _ new, of 5] by auto
    show ?thesis
    proof (cases "(fm_size (bk_index b) + 1) * 8 \<ge> fm_capacity (bk_index b) * 7")
      case True
      then obtain b' where "book_insert_try (Index_failure st) ?oid 7 Buy (I64 100) 5 (b\<lparr>bk_trades := []\<rparr>) =
          Some (Inl b')"
        using index_failure_happens[OF ins] by auto
      then have "index_full st n"
        unfolding index_full_def using b(1) bid_only(1)[OF asks _ new] by force
      then show ?thesis by blast
    next
      case False
      then have "fm_capacity (bk_index b2) = 16" using book_insert_capacity[OF ins] b(3) by simp
      then show ?thesis using b2 by blast
    qed
  qed blast
qed

lemma index_full_happens: "\<exists>k. index_full st k"
proof (rule ccontr)
  assume no: "\<not> (\<exists>k. index_full st k)"
  obtain b where b: "book_rep b (session_book CancelResting (bids_session 20))" "fm_capacity (bk_index b) = 16"
    using bids_capacity[of 20 st] no by auto
  have "fm_size (bk_index b) = 20"
    using book_count_ok(1)[OF b(1)] bids_spec[of 20 CancelResting] by (simp add: order_count_def)
  moreover have "fm_inv (bk_index b)" using b(1) by (simp add: book_rep_def store_ok_def)
  ultimately show False using fm_invD(3)[of "bk_index b"] b(2) by simp
qed

section \<open>Properties\<close>

text \<open>
  C26: When the pool or the map runs out of memory while a submission rests its remainder, the trades
  stand and the orders that rest are those that the submission, followed by a cancellation, leaves.
  After a failure of the pool the book is sound; a failure of the map leaks the order in the pool.
\<close>

theorem failed_submit_keeps_trades:
  assumes "book_session pol cap cmds = Some (rs, b)" and "f = Pool_failure \<or> f = Level_failure"
    and "book_submit_try f oid trader sd price q b = Some (Inl b')"
  shows "\<exists>res b2 b3. book_submit oid trader sd price q b = Some (res, b2) \<and> r_resting res \<noteq> 0 \<and>
    book_cancel oid b2 = Some (True, b3) \<and> snapshot b' = snapshot b3 \<and> bk_trades b' = bk_trades b2 \<and>
    (f = Pool_failure \<longrightarrow> book_typed b') \<and>
    mp_live_count (bk_pool b') = of_nat (order_count b') + (if f = Level_failure then 1 else 0)"
proof -
  have rep: "book_rep b (session_book pol cmds)" using session_ok[of pol cap cmds] assms(1) by auto
  obtain b1 A1 r res b2 where s: "book_rep b1 A1" "r \<noteq> 0" "oid \<notin> set (spec_ids A1)"
    "\<forall>p \<in> prices (side_of (other_side (own_side sd)) A1). \<not> crosses sd price p"
    "book_insert_try f oid trader sd price r b1 = Some (Inl b')"
    "book_insert oid trader sd price r b1 = Some b2"
    "book_submit oid trader sd price q b = Some (res, b2)" "r_resting res = r"
    by (rule book_submit_try_failed[OF rep assms(3)])
  obtain b3 where c: "book_cancel oid b2 = Some (True, b3)" "snapshot b3 = snapshot b1"
    "bk_trades b2 = bk_trades b1"
    by (rule book_insert_cancel[OF s(1,3,2,4,6)])
  have "snapshot b' = snapshot b1 \<and> bk_trades b' = bk_trades b1 \<and> (f = Pool_failure \<longrightarrow> book_typed b') \<and>
      mp_live_count (bk_pool b') = of_nat (order_count b') + (if f = Level_failure then 1 else 0)"
  proof (cases "f = Pool_failure")
    case True
    then have "b' = b1" using s(5) by (intro pool_failure_state) simp
    then show ?thesis using True book_count_ok[OF s(1)] book_rep_typed[OF s(1)] by simp
  next
    case False
    then have "f = Level_failure" using assms(2) by blast
    then show ?thesis using level_failure_state[OF s(1)] s(5) by auto
  qed
  then show ?thesis using s(2,7,8) c by (intro exI[of _ res] exI[of _ b2] exI[of _ b3]) simp
qed

theorem failed_submit_keeps_trades_witness:
  "\<exists>b b' b3. book_session CancelResting 0 [] = Some ([], b) \<and>
     book_submit_try Level_failure 1 7 Buy (I64 100) 5 b = Some (Inl b') \<and>
     snapshot b' = snapshot b3 \<and> mp_live_count (bk_pool b') = of_nat (order_count b') + 1"
proof -
  obtain b where b: "book_session CancelResting 0 [] = Some (fst (spec_session CancelResting []), b)"
    "book_rep b (session_book CancelResting [])"
    by (rule session_ok)
  have A: "session_book CancelResting [] = spec_new" "fst (spec_session CancelResting []) = []"
    by (simp_all add: spec_session_def)
  have empty: "bk_asks b = []" "bk_bids b = []"
    using book_rep_prices[OF b(2), of Asks] book_rep_prices[OF b(2), of Bids]
    by (simp_all add: A spec_new_def bk_side_def)
  have new: "fm_contains (bk_index b) 1 = Some False"
    using b(2) book_rep_index[OF b(2), of 1] fm_contains_ok[of "bk_index b" 1]
    by (simp add: book_rep_def store_ok_def A spec_ids_def spec_new_def)
  have rep: "book_rep (b\<lparr>bk_trades := []\<rparr>) (spec_new\<lparr>sp_trades := []\<rparr>)"
    using book_rep_refused[OF b(2)] by (simp add: A)
  obtain b' where "book_insert_try Level_failure 1 7 Buy (I64 100) 5 (b\<lparr>bk_trades := []\<rparr>) = Some (Inl b')"
    using level_failure_happens[OF rep, of "I64 100" Buy 1 7 5] empty
    by (auto simp: own_side_def bk_side_def)
  then have run: "book_submit_try Level_failure 1 7 Buy (I64 100) 5 b = Some (Inl b')"
    using bid_only(1)[OF empty(1) _ new, of 5] by simp
  from failed_submit_keeps_trades[OF b(1) _ run] show ?thesis using b(1) run by (auto simp: A)
qed

text \<open>
  C25: When the index runs out of memory while it grows, its table is gone: after the exception, every
  cancellation and every further submission of a positive quantity is undefined behaviour (one of
  quantity 0 is still rejected, before the index is looked at).
\<close>

theorem failed_rehash_loses_index:
  assumes "book_session pol cap cmds = Some (rs, b)"
    and "book_submit_try (Index_failure st) oid trader sd price q b = Some (Inl b')"
  shows "book_cancel oid' b' = None \<and>
    (if q' = 0 then book_submit oid' trader' sd' price' q' b' = Some (submit_result_init, b'\<lparr>bk_trades := []\<rparr>)
     else book_submit oid' trader' sd' price' q' b' = None)"
proof -
  have "book_rep b (session_book pol cmds)" using session_ok[of pol cap cmds] assms(1) by auto
  then obtain b1 r where i: "book_insert_try (Index_failure st) oid trader sd price r b1 = Some (Inl b')"
    by (rule book_submit_try_failed[OF _ assms(2)]) blast
  show ?thesis using index_failure_state[OF i] by (simp add: book_submit_def)
qed

theorem failed_rehash_loses_index_witness:
  "\<exists>k rs b b'. book_session CancelResting 0 (bids_session k) = Some (rs, b) \<and>
     book_submit_try (Index_failure Keys_assign) (of_nat (Suc k)) 7 Buy (I64 100) 5 b = Some (Inl b') \<and>
     book_cancel 1 b' = None"
proof -
  obtain k rs b b' where s: "book_session CancelResting 0 (bids_session k) = Some (rs, b)"
    "book_submit_try (Index_failure Keys_assign) (of_nat (Suc k)) 7 Buy (I64 100) 5 b = Some (Inl b')"
    using index_full_happens[of Keys_assign] unfolding index_full_def by blast
  from failed_rehash_loses_index[OF s, of 1] s show ?thesis by blast
qed

end
