(* ===== verification/BookCapacity.thy ===== *)
theory BookCapacity
  imports BookFailure
begin

text \<open>
  The reserved memory of a book: the constructor makes the first block of the pool and the arrays of
  the index for \<open>pool_capacity\<close> orders.  While no more than these rest, \<open>submit\<close> needs neither a new block
  (\<open>include/obe/MemoryPool.hpp\<close>) nor a rehash (\<open>include/obe/FlatHashMap.hpp\<close>), so of the allocations
  of \<open>BookFailure\<close> only the node of a new level is left.
\<close>

section \<open>What a book has allocated\<close>

text \<open>The blocks of the pool, its slots, and the slots of the index.\<close>

definition footprint :: "order mpool \<Rightarrow> ptr flat_map \<Rightarrow> addr list \<times> nat \<times> nat" where
  "footprint pool idx = (mp_blocks pool, mp_capacity pool, fm_capacity idx)"

abbreviation book_footprint :: "book \<Rightarrow> addr list \<times> nat \<times> nat" where
  "book_footprint b \<equiv> footprint (bk_pool b) (bk_index b)"

text \<open>Memory for \<open>n\<close> orders.\<close>

definition reserved :: "nat \<Rightarrow> book \<Rightarrow> bool" where
  "reserved n b \<longleftrightarrow> n \<le> mp_capacity (bk_pool b) \<and> n * 8 < fm_capacity (bk_index b) * 7"

lemma reserved_footprint: "book_footprint b' = book_footprint b \<Longrightarrow> reserved n b' = reserved n b"
  by (simp add: footprint_def reserved_def)

section \<open>Matching and cancelling allocate nothing\<close>

lemma footprint_mem [simp]: "footprint (pool\<lparr>mp_mem := mem\<rparr>) idx = footprint pool idx"
  by (simp add: footprint_def)

lemma fm_shift_capacity: "fm_shift m i j = Some m' \<Longrightarrow> fm_capacity m' = fm_capacity m"
  by (rule fm_shift.raw_induct[where P = "\<lambda>m i j m'. fm_capacity m' = fm_capacity m", rotated])
    (auto simp: bind_eq_Some_conv Let_def split: if_splits)

lemma fm_erase_capacity: "fm_erase m k = Some (found, m') \<Longrightarrow> fm_capacity m' = fm_capacity m"
  by (auto simp: fm_erase_def fm_erase_at_def bind_eq_Some_conv dest!: fm_shift_capacity split: option.splits)

lemma mp_release_footprint:
  "mp_release a (p\<lparr>mp_mem := mem\<rparr>) = Some p' \<Longrightarrow> mp_blocks p' = mp_blocks p \<and> mp_capacity p' = mp_capacity p"
  using mp_release_no_growth[of a "p\<lparr>mp_mem := mem\<rparr>" p'] by simp

text \<open>The memory of the book during \<open>match\<close>.\<close>

abbreviation ms_footprint :: "match_state \<Rightarrow> addr list \<times> nat \<times> nat" where
  "ms_footprint s \<equiv> footprint (ms_pool s) (ms_index s)"

lemma drop_maker_footprint: "drop_maker maker lv s = Some (lv', s') \<Longrightarrow> ms_footprint s' = ms_footprint s"
  by (auto simp: drop_maker_def bind_eq_Some_conv footprint_def
      dest!: fm_erase_capacity mp_release_footprint)

lemma match_level_footprint:
  "match_level pol tk lv s = Some r \<Longrightarrow> ms_footprint (snd r) = ms_footprint s"
  apply (rule match_level.raw_induct[where P = "\<lambda>pol tk lv s r. ms_footprint (snd r) = ms_footprint s", rotated], assumption)
  subgoal premises prems for f pol tk lv s r
    using prems(3) by (auto simp: bind_eq_Some_conv Let_def split: if_splits dest!: prems(2) drop_maker_footprint)
  done

lemma match_side_footprint:
  "match_side pol tk m s = Some r \<Longrightarrow> ms_footprint (snd r) = ms_footprint s"
  apply (rule match_side.raw_induct[where P = "\<lambda>pol tk m s r. ms_footprint (snd r) = ms_footprint s", rotated], assumption)
  subgoal premises prems for f pol tk m s r
    using prems(3) by (auto simp: bind_eq_Some_conv Let_def split: if_splits prod.splits dest!: prems(2) match_level_footprint)
  done

lemma book_cancel_store:
  assumes "book_cancel oid b = Some (found, b')"
  obtains "b' = b"
  | found' idx a mem pool where "fm_erase (bk_index b) oid = Some (found', idx)"
      "mp_release a ((bk_pool b)\<lparr>mp_mem := mem\<rparr>) = Some pool" "bk_pool b' = pool" "bk_index b' = idx"
proof -
  have kept: "bk_pool (bk_set_side sd m c) = bk_pool c" "bk_index (bk_set_side sd m c) = bk_index c" for sd m c
    by (simp_all add: bk_set_side_def split: book_side.split)
  show thesis
  proof (cases "fm_find (bk_index b) oid")
    case None
    then show thesis using assms by (simp add: book_cancel_def)
  next
    case (Some slot)
    show thesis
    proof (cases slot)
      case None
      then show thesis using assms Some that(1) by (simp add: book_cancel_def)
    next
      case p: (Some p)
      from assms show thesis
        unfolding book_cancel_def Some p
        by (clarsimp simp: bind_eq_Some_conv Let_def simp del: not_None_eq)
          (rule that(2); assumption?; simp add: kept split: if_splits; blast)
    qed
  qed
qed

lemma book_cancel_footprint: "book_cancel oid b = Some (found, b') \<Longrightarrow> book_footprint b' = book_footprint b"
  by (erule book_cancel_store)
    (simp_all add: footprint_def fm_erase_capacity mp_release_footprint)

section \<open>Resting an order\<close>

lemma book_rest_store:
  assumes "book_rest sd price p b = Some b'"
  shows "bk_index b' = bk_index b" "book_footprint b' = book_footprint b"
  using assms by (auto simp: book_rest_def Let_def bind_eq_Some_conv footprint_def)

text \<open>With room for one more order, only a missing level can make the allocations fail.\<close>

definition fits_level :: "submit_failure \<Rightarrow> book_side \<Rightarrow> price \<Rightarrow> book \<Rightarrow> bool" where
  "fits_level f sd price b \<longleftrightarrow> f = Level_failure \<longrightarrow> om_find price (bk_side sd b) \<noteq> None"

lemma pool_has_room:
  assumes "book_rep b A" "order_count b < n" "reserved n b"
  shows "mp_free_list (bk_pool b) \<noteq> None"
proof -
  have "mp_inv (bk_pool b)" using assms(1) by (simp add: book_rep_def store_ok_def)
  moreover have "card (dom (bk_heap b)) < mp_capacity (bk_pool b)"
    using assms(2,3) book_heap_card[OF assms(1)] book_count_ok(1)[OF assms(1)] by (simp add: reserved_def)
  ultimately show ?thesis by (rule mp_free_slots_left)
qed

lemma index_has_room:
  assumes "order_count b < n" "reserved n b"
  shows "(fm_size (bk_index b) + 1) * 8 < fm_capacity (bk_index b) * 7"
  using assms by (simp add: order_count_def reserved_def)

lemma fm_insert_try_None [simp]: "fm_insert_try None m k v = map_option Inr (fm_insert m k v)"
  by (simp add: fm_insert_try_def)

lemma fm_insert_try_room:
  "(fm_size m + 1) * 8 < fm_capacity m * 7 \<Longrightarrow> fm_insert_try fails m k v = map_option Inr (fm_insert m k v)"
  by (simp add: fm_insert_try_def split: option.split)

lemma book_insert_try_room:
  assumes rep: "book_rep b A" and room: "order_count b < n" "reserved n b"
    and level: "fits_level f (own_side sd) price b"
  shows "book_insert_try f oid trader sd price q b = map_option Inr (book_insert oid trader sd price q b)"
proof -
  have "fm_insert_try (index_stage f) (bk_index b3) oid p' = map_option Inr (fm_insert (bk_index b3) oid p')"
    if "book_rest sd' price' p (b\<lparr>bk_pool := pool, bk_next_seq := i\<rparr>) = Some b3" for sd' price' p p' pool i b3
    using fm_insert_try_room index_has_room[OF room] book_rest_store(1)[OF that] by simp
  then have "book_insert_try f oid trader sd price q b = book_insert_try No_failure oid trader sd price q b"
    using pool_has_room[OF rep room] level
    unfolding book_insert_try_def mp_acquire_try_def book_rest_try_def
    by (cases "mp_acquire (order_new oid trader sd price q) (bk_pool b)")
      (auto simp: fits_level_def map_option_bind Option.map_option_bind bk_side_def
        intro!: Option.bind_cong split: book_side.splits)
  then show ?thesis by (simp add: book_insert_try_none)
qed

lemma book_insert_footprint:
  assumes rep: "book_rep b A" and run: "book_insert oid trader sd price q b = Some b'"
    and room: "order_count b < n" "reserved n b"
  shows "book_footprint b' = book_footprint b"
proof -
  obtain p pool mem b3 idx where r: "mp_acquire (order_new oid trader sd price q) (bk_pool b) = Some (p, pool)"
    "book_rest (own_side sd) price p (b\<lparr>bk_pool := pool\<lparr>mp_mem := mem\<rparr>, bk_next_seq := bk_next_seq b + 1\<rparr>) = Some b3"
    "fm_insert (bk_index b3) oid p = Some idx" "b' = b3\<lparr>bk_index := idx\<rparr>"
    using run by (auto simp: book_insert_def bind_eq_Some_conv)
  show ?thesis
    using mp_acquire_no_growth[OF pool_has_room[OF rep room] r(1)]
      fm_insert_capacity[OF r(3)] index_has_room[OF room] book_rest_store[OF r(2)]
    by (simp add: footprint_def r(4))
qed

lemma book_insert_count:
  assumes rep: "book_rep b A" and new: "oid \<notin> set (spec_ids A)"
    and run: "book_insert oid trader sd price q b = Some b'"
  shows "order_count b' = Suc (order_count b)"
proof -
  obtain p pool mem b3 idx where r:
    "book_rest (own_side sd) price p (b\<lparr>bk_pool := pool\<lparr>mp_mem := mem\<rparr>, bk_next_seq := bk_next_seq b + 1\<rparr>) = Some b3"
    "fm_insert (bk_index b3) oid p = Some idx" "b' = b3\<lparr>bk_index := idx\<rparr>"
    using run by (auto simp: book_insert_def bind_eq_Some_conv)
  have inv: "fm_inv (bk_index b)" using rep by (simp add: book_rep_def store_ok_def)
  have "fm_insert (bk_index b) oid p = Some idx" using r(2) book_rest_store(1)[OF r(1)] by simp
  then have idx: "fm_inv idx" "fm_alpha idx = (fm_alpha (bk_index b))(oid \<mapsto> p)"
    using fm_insert_ok[OF inv, of oid p] by auto
  have "oid \<notin> dom (fm_alpha (bk_index b))" using new book_rep_index[OF rep, of oid] by blast
  then show ?thesis
    using fm.entries_alpha[OF inv] fm.entries_alpha[OF idx(1)] idx(2) fm_alpha_finite[of "bk_index b"]
    by (simp add: order_count_def r(3))
qed

section \<open>Submitting with room\<close>

text \<open>The book before the remainder rests, after the matching.\<close>

lemma book_match_footprint:
  assumes rep: "book_rep b A"
  obtains m s A1 where
    "match_side (bk_stp b) tk (bk_side sd b) \<lparr>ms_pool = bk_pool b, ms_index = bk_index b, ms_trades = [],
       ms_remaining = q, ms_stp = False\<rparr> = Some (m, s)"
    "book_rep (bk_set_side sd m (b\<lparr>bk_pool := ms_pool s, bk_index := ms_index s, bk_trades := ms_trades s\<rparr>)) A1"
    "set (spec_ids A1) \<subseteq> set (spec_ids A)" "footprint (ms_pool s) (ms_index s) = book_footprint b"
proof -
  obtain m s where m: "match_side (bk_stp b) tk (bk_side sd b) \<lparr>ms_pool = bk_pool b, ms_index = bk_index b,
      ms_trades = [], ms_remaining = q, ms_stp = False\<rparr> = Some (m, s)"
    and ex: "\<exists>m'. spec_match (bk_stp b) tk q (side_of sd A) = (m', ms_remaining s, ms_trades s, ms_stp s) \<and>
       book_rep (bk_set_side sd m (b\<lparr>bk_pool := ms_pool s, bk_index := ms_index s,
           bk_trades := ms_trades s\<rparr>)) ((set_side sd m' A)\<lparr>sp_trades := ms_trades s\<rparr>)"
    by (rule book_match_ok[OF rep])
  then obtain m' where sp: "spec_match (bk_stp b) tk q (side_of sd A) = (m', ms_remaining s, ms_trades s, ms_stp s)"
    and rep1: "book_rep (bk_set_side sd m (b\<lparr>bk_pool := ms_pool s, bk_index := ms_index s,
           bk_trades := ms_trades s\<rparr>)) ((set_side sd m' A)\<lparr>sp_trades := ms_trades s\<rparr>)"
    by blast
  have "spec_wf A" using rep by (simp add: book_rep_def)
  then have "set (spec_ids ((set_side sd m' A)\<lparr>sp_trades := ms_trades s\<rparr>)) \<subseteq> set (spec_ids A)"
    using spec_match_book_wf(2)[OF _ sp] by auto
  then show thesis
    using that[OF m rep1] match_side_footprint[OF m] by simp
qed

text \<open>
  Pool and index are large enough for what rests afterwards, so only a missing level can make the
  allocations fail.
\<close>

lemma book_submit_room:
  assumes rep: "book_rep b A" and run: "book_submit oid trader sd price q b = Some (res, b')"
    and room: "reserved n b" "order_count b' \<le> n"
    and level: "fits_level f (own_side sd) price b"
  shows "book_submit_try f oid trader sd price q b = Some (Inr (res, b'))"
    and "book_footprint b' = book_footprint b"
proof -
  let ?opp = "other_side (own_side sd)"
  obtain m s A1 where m: "match_side (bk_stp b) (submit_taker oid trader sd price) (bk_side ?opp b)
      \<lparr>ms_pool = bk_pool b, ms_index = bk_index b, ms_trades = [], ms_remaining = q, ms_stp = False\<rparr> = Some (m, s)"
    "book_rep (bk_set_side ?opp m (b\<lparr>bk_pool := ms_pool s, bk_index := ms_index s, bk_trades := ms_trades s\<rparr>)) A1"
    "set (spec_ids A1) \<subseteq> set (spec_ids A)" "footprint (ms_pool s) (ms_index s) = book_footprint b"
    by (rule book_match_footprint[OF rep])
  define b1 where "b1 = bk_set_side ?opp m (b\<lparr>bk_pool := ms_pool s, bk_index := ms_index s,
    bk_trades := ms_trades s\<rparr>)"
  have b1: "book_rep b1 A1" "book_footprint b1 = book_footprint b"
    using m by (simp_all add: b1_def)
  have side: "bk_side (own_side sd) b1 = bk_side (own_side sd) b"
    by (cases "own_side sd") (simp_all add: b1_def bk_side_def bk_set_side_def other_side_def)
  have new: "oid \<notin> set (spec_ids A1)" if "fm_contains (bk_index b) oid = Some False"
    using that book_rep_index[OF rep, of oid] fm_contains_ok[of "bk_index b" oid] rep m(3)
    by (auto simp: book_rep_def store_ok_def)
  have room1: "order_count b1 < n"
    if "book_insert oid trader sd price r b1 = Some b'" "fm_contains (bk_index b) oid = Some False" for r
    using book_insert_count[OF b1(1) new that(1)] that(2) room(2) by simp
  have res1: "reserved n b1" using room(1) reserved_footprint[OF b1(2)] by simp
  have ins: "book_insert_try f oid trader sd price r b1 = Some (Inr b')" "book_footprint b' = book_footprint b"
    if "book_insert oid trader sd price r b1 = Some b'" "fm_contains (bk_index b) oid = Some False" for r
    using book_insert_try_room[OF b1(1) room1[OF that] res1] level side that(1)
      book_insert_footprint[OF b1(1) that(1) room1[OF that] res1] b1(2)
    by (simp_all add: fits_level_def)
  note run1 = run[unfolded book_submit_blocks Let_def m(1), folded b1_def]
  have "book_submit_try f oid trader sd price q b = Some (Inr (res, b')) \<and> book_footprint b' = book_footprint b"
  proof (cases "(if q = 0 then Some True else fm_contains (bk_index b) oid) = Some False \<and> \<not> ms_stp s \<and> ms_remaining s > 0")
    case True
    then obtain b2 where b2: "book_insert oid trader sd price (ms_remaining s) b1 = Some b2"
      using run1 by (auto simp: bind_eq_Some_conv b1_def[symmetric])
    then have "b' = b2" using True run1 by (auto simp: b1_def[symmetric])
    then show ?thesis
      using True run1 b2 ins[of "ms_remaining s"]
      by (auto simp: book_submit_try_def m(1) Let_def b1_def[symmetric] split: if_splits)
  next
    case False
    then show ?thesis
      using run1 b1(2)
      by (auto simp: book_submit_try_def m(1) Let_def bind_eq_Some_conv b1_def[symmetric] cong: if_cong split: if_splits)
  qed
  then show "book_submit_try f oid trader sd price q b = Some (Inr (res, b'))"
    "book_footprint b' = book_footprint b" by blast+
qed

section \<open>Sessions that run out of memory anywhere\<close>

definition book_step_try ::
    "submit_failure \<Rightarrow> book_op \<Rightarrow> book \<Rightarrow> (book + book_reply \<times> book) option" where
  "book_step_try f cmd b =
     (case cmd of
        Do_submit oid trader sd price q \<Rightarrow>
          map_option (map_sum id (\<lambda>(res, b'). (Submitted res (bk_trades b'), b')))
            (book_submit_try f oid trader sd price q b)
      | Do_cancel _ \<Rightarrow> map_option Inr (book_step cmd b))"

text \<open>Every command comes with the allocation that fails in it; the first exception ends the session.\<close>

fun book_run_try ::
    "(submit_failure \<times> book_op) list \<Rightarrow> book \<Rightarrow> (book + book_reply list \<times> book) option" where
  "book_run_try [] b = Some (Inr ([], b))"
| "book_run_try ((f, cmd) # cmds) b =
     do {
       stepped \<leftarrow> book_step_try f cmd b;
       case stepped of
         Inl b1 \<Rightarrow> Some (Inl b1)
       | Inr (r, b1) \<Rightarrow> map_option (map_sum id (\<lambda>(rs, b2). (r # rs, b2))) (book_run_try cmds b1)
     }"

definition book_session_try ::
    "self_trade_policy \<Rightarrow> 64 word \<Rightarrow> (submit_failure \<times> book_op) list \<Rightarrow>
     (book + book_reply list \<times> book) option" where
  "book_session_try pol cap cmds = do { b \<leftarrow> book_new pol cap; book_run_try cmds b }"

text \<open>The most orders that rest at once.\<close>

fun peak_orders :: "self_trade_policy \<Rightarrow> book_op list \<Rightarrow> book_spec \<Rightarrow> nat" where
  "peak_orders pol [] A = length (spec_ids A)"
| "peak_orders pol (cmd # cmds) A =
     max (length (spec_ids A)) (peak_orders pol cmds (snd (spec_step pol cmd A)))"

lemma peak_orders_now: "length (spec_ids A) \<le> peak_orders pol cmds A"
  by (cases cmds) simp_all

lemma book_new_reserved:
  assumes "book_new pol cap = Some b" "unat cap * 8 < 2 ^ 64"
  shows "reserved (unat cap) b"
proof -
  obtain idx0 :: "ptr flat_map" where idx0: "fm_new 16 = Some idx0" "fm_inv idx0"
    by (rule fm_new_ok[of 16]) simp_all
  obtain idx where idx: "fm_reserve cap idx0 = Some idx" "unat cap * 8 < fm_capacity idx * 7"
    using fm_reserve_ok[OF idx0(2), of cap] assms(2) by blast
  show ?thesis
    using assms(1) idx0(1) idx by (auto simp: book_new_def reserved_def mp_new_layout)
qed

lemma book_step_room:
  assumes rep: "book_rep b A" and run: "book_step cmd b = Some (r, b')"
    and room: "reserved n b" "order_count b' \<le> n" and f: "f \<noteq> Level_failure"
  shows "book_step_try f cmd b = Some (Inr (r, b'))" "book_footprint b' = book_footprint b"
proof -
  have fits: "fits_level f sd price b" for sd price using f by (simp add: fits_level_def)
  show "book_step_try f cmd b = Some (Inr (r, b'))" "book_footprint b' = book_footprint b"
    using run book_submit_room[OF rep _ room fits] book_cancel_footprint
    by (auto simp: book_step_try_def book_step_def bind_eq_Some_conv split: book_op.splits)
qed

lemma book_run_room:
  assumes "book_rep b A" "reserved n b" "peak_orders (bk_stp b) (map snd cmds) A \<le> n"
    "Level_failure \<notin> fst ` set cmds"
  shows "\<exists>rs b'. book_run (map snd cmds) b = Some (rs, b') \<and>
    book_run_try cmds b = Some (Inr (rs, b')) \<and> book_footprint b' = book_footprint b"
  using assms
proof (induction cmds arbitrary: b A)
  case (Cons c cmds)
  obtain f cmd where c: "c = (f, cmd)" by fastforce
  obtain b1 where b1: "book_step cmd b = Some (fst (spec_step (bk_stp b) cmd A), b1)"
    "book_rep b1 (snd (spec_step (bk_stp b) cmd A))" "bk_stp b1 = bk_stp b"
    by (rule book_step_ok[OF Cons.prems(1)])
  have peak: "peak_orders (bk_stp b1) (map snd cmds) (snd (spec_step (bk_stp b) cmd A)) \<le> n"
    using Cons.prems(3) b1(3) by (simp add: c)
  have "order_count b1 \<le> n"
    using peak_orders_now[of "snd (spec_step (bk_stp b) cmd A)" "bk_stp b1" "map snd cmds"] peak
      book_count_ok(1)[OF b1(2)] by simp
  moreover have "f \<noteq> Level_failure" "Level_failure \<notin> fst ` set cmds" using Cons.prems(4) by (auto simp: c)
  ultimately have step: "book_step_try f cmd b = Some (Inr (fst (spec_step (bk_stp b) cmd A), b1))"
    "book_footprint b1 = book_footprint b"
    using book_step_room[OF Cons.prems(1) b1(1) Cons.prems(2)] by blast+
  show ?case
    using Cons.IH[OF b1(2) _ peak] \<open>Level_failure \<notin> fst ` set cmds\<close> reserved_footprint[OF step(2)]
      Cons.prems(2) step b1(1)
    by (auto simp: c)
qed simp

section \<open>Properties\<close>

text \<open>
  C24: What the constructor reserves is enough: as long as never more than \<open>pool_capacity\<close> orders rest
  at once, no submission of a session makes the pool or the index allocate, so that it does not matter
  which of their allocations would fail: the session ends as it does with unlimited memory, with the
  same replies, in the same blocks and the same arrays as the new book.  Of the modelled allocations
  only the node of a new price level can still throw.
\<close>

theorem reserved_memory_suffices:
  assumes "unat cap * 8 < 2 ^ 64" "peak_orders pol (map snd cmds) spec_new \<le> unat cap"
    "Level_failure \<notin> fst ` set cmds"
  shows "\<exists>b0 rs b. book_new pol cap = Some b0 \<and> book_session pol cap (map snd cmds) = Some (rs, b) \<and>
    book_session_try pol cap cmds = Some (Inr (rs, b)) \<and>
    mp_blocks (bk_pool b) = mp_blocks (bk_pool b0) \<and> fm_capacity (bk_index b) = fm_capacity (bk_index b0)"
proof -
  obtain b0 where b0: "book_new pol cap = Some b0" "book_rep b0 spec_new" "bk_stp b0 = pol"
    by (rule book_new_ok)
  show ?thesis
    using book_run_room[OF b0(2) book_new_reserved[OF b0(1) assms(1)], of cmds] assms(2,3) b0(1,3)
    by (auto simp: book_session_def book_session_try_def footprint_def)
qed

definition tight_session :: "(submit_failure \<times> book_op) list" where
  "tight_session =
     [(Pool_failure, Do_submit 1 7 Buy (I64 100) 5),
      (Index_failure Keys_assign, Do_submit 2 7 Buy (I64 100) 3),
      (Pool_failure, Do_submit 3 8 Sell (I64 100) 6),
      (Index_failure State_assign, Do_submit 4 8 Sell (I64 105) 6),
      (Pool_failure, Do_cancel 2)]"

lemma tight_peak: "peak_orders CancelResting (map snd tight_session) spec_new = 2"
  by code_simp

theorem reserved_memory_suffices_witness:
  "\<exists>b0 rs b. book_new CancelResting 2 = Some b0 \<and>
    book_session CancelResting 2 (map snd tight_session) = Some (rs, b) \<and>
    book_session_try CancelResting 2 tight_session = Some (Inr (rs, b)) \<and>
    mp_blocks (bk_pool b) = mp_blocks (bk_pool b0) \<and> fm_capacity (bk_index b) = fm_capacity (bk_index b0)"
  by (rule reserved_memory_suffices[OF _ _ ])
    (simp_all add: tight_peak, simp add: tight_session_def)

end
