(* ===== verification/RingBuffer.thy ===== *)
theory RingBuffer
  imports Interfaces "HOL-Library.Sublist"
begin

text \<open>
  The single-producer single-consumer queue of \<open>include/obe/RingBuffer.hpp\<close>.

  An atomic index is its modification order, the list of all values it has had: a store appends,
  and an acquire load by the other thread reads any value that is not older than the last one it
  has read.  A slot carries the number of index values that its owner had published when it last
  wrote the slot: a thread may touch a slot only when it has acquired an index value stored after
  that, as otherwise the two accesses race.  A race, a slot out of range, a read of a slot without an object and the
  construction of an object over a live one are \<open>None\<close>.
\<close>

section \<open>Data\<close>

datatype 'a cell = Raw nat | Live 'a nat

record 'a ring =
  rb_capacity :: "64 word"
  rb_mask :: "64 word"
  rb_slots :: "'a cell list"
  rb_tail :: "64 word list"
  rb_head :: "64 word list"

definition rb_round_up_pow2 :: "64 word \<Rightarrow> 64 word" where
  "rb_round_up_pow2 v = (if v < 2 then 2 else pow2_ceiling v)"

definition rb_new :: "64 word \<Rightarrow> 'a ring" where
  "rb_new capacity =
     (let cap = rb_round_up_pow2 capacity in
      \<lparr>rb_capacity = cap, rb_mask = cap - 1, rb_slots = replicate (unat cap) (Raw 0),
       rb_tail = [0], rb_head = [0]\<rparr>)"

section \<open>The steps of the two operations\<close>

definition rb_index :: "64 word \<Rightarrow> 'a ring \<Rightarrow> nat" where
  "rb_index i r = unat (i AND rb_mask r)"

text \<open>The full check of \<open>push\<close> and the empty check of \<open>pop\<close>, on the values loaded.\<close>

definition rb_full :: "64 word \<Rightarrow> 64 word \<Rightarrow> 'a ring \<Rightarrow> bool" where
  "rb_full tail head r \<longleftrightarrow> (let next = tail + 1 in next - head > rb_capacity r)"

text \<open>
  The placement \<open>new\<close> of \<open>push\<close> by a producer that has acquired the head value number \<open>seen\<close>, and
  the release store of the tail.
\<close>

definition rb_construct :: "nat \<Rightarrow> 64 word \<Rightarrow> 'a \<Rightarrow> 'a ring \<Rightarrow> 'a ring option" where
  "rb_construct seen tail v r =
     do {
       c \<leftarrow> fetch (rb_slots r) (rb_index tail r);
       (case c of
          Live _ _ \<Rightarrow> None
        | Raw since \<Rightarrow>
            if since \<le> seen
            then Some (r\<lparr>rb_slots := (rb_slots r)[rb_index tail r := Live v (length (rb_tail r))]\<rparr>)
            else None)
     }"

definition rb_publish_tail :: "64 word \<Rightarrow> 'a ring \<Rightarrow> 'a ring" where
  "rb_publish_tail tail r = r\<lparr>rb_tail := rb_tail r @ [tail + 1]\<rparr>"

text \<open>
  The move out and the destruction of \<open>pop\<close> by a consumer that has acquired the tail value number
  \<open>seen\<close>, and the release store of the head.
\<close>

definition rb_take :: "nat \<Rightarrow> 64 word \<Rightarrow> 'a ring \<Rightarrow> ('a \<times> 'a ring) option" where
  "rb_take seen head r =
     do {
       c \<leftarrow> fetch (rb_slots r) (rb_index head r);
       (case c of
          Raw _ \<Rightarrow> None
        | Live v since \<Rightarrow>
            if since \<le> seen
            then Some (v, r\<lparr>rb_slots := (rb_slots r)[rb_index head r := Raw (length (rb_head r))]\<rparr>)
            else None)
     }"

definition rb_publish_head :: "64 word \<Rightarrow> 'a ring \<Rightarrow> 'a ring" where
  "rb_publish_head head r = r\<lparr>rb_head := rb_head r @ [head + 1]\<rparr>"

section \<open>The operations, when no other thread interferes\<close>

definition rb_push :: "'a \<Rightarrow> 'a ring \<Rightarrow> (bool \<times> 'a ring) option" where
  "rb_push value r =
     (let tail = last (rb_tail r); head = last (rb_head r) in
      if rb_full tail head r then Some (False, r)
      else do {
        r1 \<leftarrow> rb_construct (length (rb_head r) - 1) tail value r;
        Some (True, rb_publish_tail tail r1)
      })"

definition rb_pop :: "'a ring \<Rightarrow> ('a option \<times> 'a ring) option" where
  "rb_pop r =
     (let head = last (rb_head r) in
      if head = last (rb_tail r) then Some (None, r)
      else do {
        (out, r1) \<leftarrow> rb_take (length (rb_tail r) - 1) head r;
        Some (Some out, rb_publish_head head r1)
      })"

definition rb_empty :: "'a ring \<Rightarrow> bool" where
  "rb_empty r \<longleftrightarrow> last (rb_head r) = last (rb_tail r)"

definition size_approx :: "'a ring \<Rightarrow> 64 word" where
  "size_approx r = last (rb_tail r) - last (rb_head r)"

text \<open>
  The loop of the destructor, from \<open>head\<close>; it runs when both threads have ended, so it sees every
  write.
\<close>

function rb_destroy :: "64 word \<Rightarrow> 64 word \<Rightarrow> 'a ring \<Rightarrow> 'a ring option" where
  "rb_destroy head tail r =
     (if head = tail then Some r
      else do {
        (_, r1) \<leftarrow> rb_take (length (rb_tail r)) head r;
        rb_destroy (head + 1) tail r1
      })"
  by pat_completeness auto

termination
proof (relation "measure (\<lambda>(head, tail, r). unat (tail - head))")
  fix head tail :: "64 word" and r :: "'a ring" and x v r1
  assume "head \<noteq> tail"
  then have "0 < unat (tail - head)" by (simp add: unat_gt_0)
  then have "unat (tail - head - 1) < unat (tail - head)"
    by (metis One_nat_def Suc_pred lessI unat_eq_zero unat_minus_one neq0_conv)
  then show "((head + 1, tail, r1), (head, tail, r)) \<in> measure (\<lambda>(head, tail, r). unat (tail - head))"
    by (simp add: diff_diff_eq)
qed simp

declare rb_destroy.simps [simp del]

definition rb_drop :: "'a ring \<Rightarrow> 'a ring option" where
  "rb_drop r = rb_destroy (last (rb_head r)) (last (rb_tail r)) r"

section \<open>Representation\<close>

text \<open>
  \<open>ring_rep r T H ws n\<close>: \<open>T\<close> and \<open>H\<close> are the numbers of published pushes and pops, \<open>ws\<close> are all
  values constructed so far and \<open>n\<close> of them have been taken, which may be one ahead of what is
  published.  The values between are live in their slots; the others have been empty since the pop
  that freed them.
\<close>

definition ring_cap :: "'a ring \<Rightarrow> nat" where
  "ring_cap r = length (rb_slots r)"

definition ring_shape :: "'a ring \<Rightarrow> bool" where
  "ring_shape r \<longleftrightarrow>
     (\<exists>k. 1 \<le> k \<and> k \<le> 63 \<and> ring_cap r = 2 ^ k) \<and> rb_capacity r = of_nat (ring_cap r) \<and>
     rb_mask r = rb_capacity r - 1"

definition ring_rep :: "'a ring \<Rightarrow> nat \<Rightarrow> nat \<Rightarrow> 'a list \<Rightarrow> nat \<Rightarrow> bool" where
  "ring_rep r T H ws n \<longleftrightarrow>
     ring_shape r \<and> rb_tail r = map of_nat [0..<Suc T] \<and> rb_head r = map of_nat [0..<Suc H] \<and>
     T \<le> length ws \<and> length ws \<le> Suc T \<and> H \<le> n \<and> n \<le> Suc H \<and> n \<le> length ws \<and>
     length ws \<le> n + ring_cap r \<and>
     (\<forall>i. n \<le> i \<and> i < length ws \<longrightarrow> rb_slots r ! (i mod ring_cap r) = Live (ws ! i) (Suc i)) \<and>
     (\<forall>i. length ws \<le> i \<and> i < n + ring_cap r \<longrightarrow>
        (\<exists>since \<le> Suc i - ring_cap r. rb_slots r ! (i mod ring_cap r) = Raw since))"

lemma ring_shape_bounds:
  assumes "ring_shape r"
  shows "0 < ring_cap r" "ring_cap r \<le> 2 ^ 63" "unat (rb_capacity r) = ring_cap r"
proof -
  obtain k where k: "k \<le> 63" "ring_cap r = 2 ^ k" using assms by (auto simp: ring_shape_def)
  show "0 < ring_cap r" using k by simp
  show le: "ring_cap r \<le> 2 ^ 63" unfolding k(2) using k(1) by (intro power_increasing) simp_all
  show "unat (rb_capacity r) = ring_cap r"
    using assms le by (simp add: ring_shape_def unat_of_nat)
qed

text \<open>The mask reduces an index modulo the capacity, also after the 64-bit index has wrapped.\<close>

lemma rb_index_of_nat:
  assumes "ring_shape r"
  shows "rb_index (of_nat i) r = i mod ring_cap r"
proof -
  obtain k where k: "k \<le> 63" "ring_cap r = 2 ^ k" using assms by (auto simp: ring_shape_def)
  have "rb_mask r = mask k"
    using assms k(2) by (simp add: ring_shape_def mask_eq_exp_minus_1)
  then have "of_nat i AND rb_mask r = (take_bit k (of_nat i) :: 64 word)"
    by (simp add: take_bit_eq_mask)
  also have "unat \<dots> = take_bit k (take_bit 64 i)"
    unfolding unsigned_take_bit_eq by (simp add: unat_of_nat take_bit_eq_mod)
  also have "\<dots> = i mod ring_cap r"
    unfolding take_bit_take_bit using k by (simp add: take_bit_eq_mod min_def)
  finally show ?thesis by (simp only: rb_index_def)
qed

lemma same_slot:
  fixes i j :: nat
  assumes "i mod cap = j mod cap" "i \<le> j" "j < i + cap"
  shows "i = j"
proof -
  have "cap dvd j - i" using assms(1,2) by (metis mod_eq_dvd_iff_nat)
  moreover have "j - i < cap" using assms(2,3) by simp
  ultimately show ?thesis using assms(2) nat_dvd_not_less by fastforce
qed

lemma unat_of_nat_small: "n \<le> Suc (2 ^ 63) \<Longrightarrow> unat (of_nat n :: 64 word) = n"
  by (simp add: unat_of_nat)

text \<open>The comparisons of wrapping indices decide as those of the counts.\<close>

lemma rb_full_iff:
  assumes "ring_shape r" "h \<le> t" "t \<le> h + ring_cap r"
  shows "rb_full (of_nat t) (of_nat h) r \<longleftrightarrow> t = h + ring_cap r"
proof -
  note b = ring_shape_bounds[OF assms(1)]
  have diff: "of_nat t + 1 - of_nat h = (of_nat (Suc t - h) :: 64 word)"
    using assms(2) by (simp add: of_nat_diff)
  have "unat (of_nat (Suc t - h) :: 64 word) = Suc t - h"
    using assms(2,3) b(2) by (intro unat_of_nat_small) linarith
  then have "rb_full (of_nat t) (of_nat h) r \<longleftrightarrow> ring_cap r < Suc t - h"
    by (simp only: rb_full_def Let_def diff word_less_nat_alt b(3))
  then show ?thesis using assms(2,3) by linarith
qed

lemma index_eq_iff:
  assumes "ring_shape r" "h \<le> t" "t \<le> h + ring_cap r"
  shows "(of_nat h :: 64 word) = of_nat t \<longleftrightarrow> h = t"
proof
  note b = ring_shape_bounds[OF assms(1)]
  assume "(of_nat h :: 64 word) = of_nat t"
  then have "(of_nat (t - h) :: 64 word) = 0" using assms(2) by (simp add: of_nat_diff)
  moreover have "unat (of_nat (t - h) :: 64 word) = t - h"
    using assms(2,3) b(2) by (intro unat_of_nat_small) linarith
  ultimately show "h = t" using assms(2) by simp
qed simp

lemma rb_new_rep:
  assumes "unat capacity \<le> 2 ^ 63"
  shows "ring_rep (rb_new capacity :: 'a ring) 0 0 [] 0"
    and "unat capacity \<le> ring_cap (rb_new capacity :: 'a ring)"
proof -
  let ?r = "rb_new capacity :: 'a ring"
  obtain k where k: "1 \<le> k" "k \<le> 63" "unat (rb_round_up_pow2 capacity) = 2 ^ k" "unat capacity \<le> 2 ^ k"
    using pow2_rounding[OF assms] unfolding rb_round_up_pow2_def by metis
  have cap: "ring_cap ?r = 2 ^ k"
    using k(3) by (simp add: ring_cap_def rb_new_def Let_def)
  have "rb_round_up_pow2 capacity = of_nat (2 ^ k)"
    unfolding k(3) [symmetric] by simp
  then have "ring_shape ?r"
    using k(1,2) cap by (auto simp: ring_shape_def rb_new_def Let_def)
  moreover have "rb_slots ?r ! i = Raw 0" if "i < 2 ^ k" for i
    using that k(3) by (simp add: rb_new_def Let_def)
  moreover have "rb_tail ?r = [0]" "rb_head ?r = [0]"
    by (simp_all add: rb_new_def Let_def)
  ultimately show "ring_rep ?r 0 0 [] 0"
    using cap by (simp add: ring_rep_def)
  show "unat capacity \<le> ring_cap ?r" using k(4) cap by simp
qed

section \<open>The steps on represented rings\<close>

lemma ring_rep_shape: "ring_rep r T H ws n \<Longrightarrow> ring_shape r"
  by (simp add: ring_rep_def)

lemma rb_construct_rep:
  assumes rep: "ring_rep r T H ws n" and "length ws = T" "T < seen + ring_cap r" "seen \<le> H"
  obtains r' where "rb_construct seen (of_nat T) v r = Some r'" "ring_rep r' T H (ws @ [v]) n"
    "ring_cap r' = ring_cap r"
proof -
  let ?i = "T mod ring_cap r"
  let ?r = "r\<lparr>rb_slots := (rb_slots r)[?i := Live v (Suc T)]\<rparr>"
  have shape: "ring_shape r" by (rule ring_rep_shape[OF rep])
  have i: "?i < length (rb_slots r)"
    using ring_shape_bounds(1)[OF shape] by (simp add: ring_cap_def [symmetric])
  have T: "T < n + ring_cap r" using rep assms(3,4) by (simp add: ring_rep_def)
  then obtain since where since: "since \<le> Suc T - ring_cap r" "rb_slots r ! ?i = Raw since"
    using rep assms(2) unfolding ring_rep_def by (metis order_refl)
  have "rb_construct seen (of_nat T) v r = Some ?r"
    using since i rep assms(3)
    by (simp add: rb_construct_def rb_index_of_nat[OF shape] ring_rep_def)
  moreover have "ring_rep ?r T H (ws @ [v]) n"
  proof -
    have old: "rb_slots ?r ! (i mod ring_cap r) = rb_slots r ! (i mod ring_cap r)"
      if "i \<noteq> T" "n \<le> i" "i < n + ring_cap r" for i
    proof -
      have "i mod ring_cap r \<noteq> ?i"
        using that rep T assms(2) same_slot[of i "ring_cap r" T] same_slot[of T "ring_cap r" i]
        by (cases "i \<le> T") (auto simp: ring_rep_def)
      then show ?thesis by simp
    qed
    have "rb_slots ?r ! (i mod ring_cap r) = Live ((ws @ [v]) ! i) (Suc i)"
      if "n \<le> i" "i < Suc T" for i
      using that old[of i] rep i T assms(2) unfolding ring_rep_def
      by (cases "i = T") (auto simp: nth_append)
    moreover have "\<exists>since \<le> Suc i - ring_cap r. rb_slots ?r ! (i mod ring_cap r) = Raw since"
      if "Suc T \<le> i" "i < n + ring_cap r" for i
      using that old[of i] rep assms(2) unfolding ring_rep_def by auto
    ultimately show ?thesis
      using rep T assms(2) by (auto simp: ring_rep_def ring_shape_def ring_cap_def)
  qed
  ultimately show thesis using that by (simp add: ring_cap_def)
qed

lemma rb_take_rep:
  assumes rep: "ring_rep r T H ws n" and "n = H" "H < length ws" "Suc H \<le> seen"
  obtains r' where "rb_take seen (of_nat H) r = Some (ws ! H, r')" "ring_rep r' T H ws (Suc H)"
    "ring_cap r' = ring_cap r"
proof -
  let ?i = "H mod ring_cap r"
  let ?r = "r\<lparr>rb_slots := (rb_slots r)[?i := Raw (Suc H)]\<rparr>"
  have shape: "ring_shape r" by (rule ring_rep_shape[OF rep])
  have i: "?i < length (rb_slots r)"
    using ring_shape_bounds(1)[OF shape] by (simp add: ring_cap_def [symmetric])
  have "rb_slots r ! ?i = Live (ws ! H) (Suc H)" using rep assms(2,3) by (simp add: ring_rep_def)
  then have "rb_take seen (of_nat H) r = Some (ws ! H, ?r)"
    using i rep assms(4) by (simp add: rb_take_def rb_index_of_nat[OF shape] ring_rep_def)
  moreover have "ring_rep ?r T H ws (Suc H)"
  proof -
    have old: "rb_slots ?r ! (i mod ring_cap r) = rb_slots r ! (i mod ring_cap r)"
      if "H < i" "i < H + ring_cap r" for i
    proof -
      have "i mod ring_cap r \<noteq> ?i" using that same_slot[of H "ring_cap r" i] by auto
      then show ?thesis by simp
    qed
    have "rb_slots ?r ! (i mod ring_cap r) = Live (ws ! i) (Suc i)"
      if "Suc H \<le> i" "i < length ws" for i
      using that old[of i] rep assms(2) unfolding ring_rep_def by auto
    moreover have "\<exists>since \<le> Suc i - ring_cap r. rb_slots ?r ! (i mod ring_cap r) = Raw since"
      if "length ws \<le> i" "i < Suc H + ring_cap r" for i
      using that old[of i] rep i assms(2,3) unfolding ring_rep_def
      by (cases "i = H + ring_cap r") auto
    ultimately show ?thesis
      using rep assms(2,3) by (auto simp: ring_rep_def ring_shape_def ring_cap_def)
  qed
  ultimately show thesis using that by (simp add: ring_cap_def)
qed

lemma rb_publish_tail_rep:
  "ring_rep r T H ws n \<Longrightarrow> length ws = Suc T \<Longrightarrow>
   ring_rep (rb_publish_tail (of_nat T) r) (Suc T) H ws n"
  by (simp add: ring_rep_def rb_publish_tail_def ring_shape_def ring_cap_def add.commute)

lemma rb_publish_head_rep:
  "ring_rep r T H ws n \<Longrightarrow> n = Suc H \<Longrightarrow>
   ring_rep (rb_publish_head (of_nat H) r) T (Suc H) ws n"
  by (simp add: ring_rep_def rb_publish_head_def ring_shape_def ring_cap_def add.commute)

lemma ring_cap_publish [simp]:
  "ring_cap (rb_publish_tail t r) = ring_cap r" "ring_cap (rb_publish_head t r) = ring_cap r"
  by (simp_all add: ring_cap_def rb_publish_tail_def rb_publish_head_def)

lemma ring_rep_last:
  assumes "ring_rep r T H ws n"
  shows "last (rb_tail r) = of_nat T" "last (rb_head r) = of_nat H"
    "length (rb_tail r) = Suc T" "length (rb_head r) = Suc H"
  using assms by (simp_all add: ring_rep_def)

section \<open>The queue of one thread\<close>

text \<open>What is published and not yet popped.\<close>

definition ring_inv :: "'a ring \<Rightarrow> bool" where
  "ring_inv r \<longleftrightarrow> (\<exists>H ws. ring_rep r (length ws) H ws H)"

definition ring_live :: "'a cell \<Rightarrow> 'a" where
  "ring_live c = (case c of Live v _ \<Rightarrow> v | Raw _ \<Rightarrow> undefined)"

definition ring_contents :: "'a ring \<Rightarrow> 'a list" where
  "ring_contents r =
     map (\<lambda>i. ring_live (rb_slots r ! (i mod ring_cap r)))
       [length (rb_head r) - 1..<length (rb_tail r) - 1]"

lemma ring_contents_rep:
  assumes "ring_rep r (length ws) H ws H"
  shows "ring_contents r = drop H ws" "length (drop H ws) \<le> ring_cap r"
proof -
  have "ring_live (rb_slots r ! (i mod ring_cap r)) = ws ! i" if "H \<le> i" "i < length ws" for i
    using that assms by (simp add: ring_rep_def ring_live_def)
  then show "ring_contents r = drop H ws"
    using ring_rep_last[OF assms]
    by (intro nth_equalityI) (simp_all add: ring_contents_def add.commute)
  show "length (drop H ws) \<le> ring_cap r" using assms by (auto simp: ring_rep_def)
qed

interpretation rb: bounded_queue rb_push rb_pop ring_contents ring_cap ring_inv
proof unfold_locales
  fix q :: "'a ring" and x
  assume "ring_inv q"
  then obtain H ws where rep: "ring_rep q (length ws) H ws H" by (auto simp: ring_inv_def)
  note l = ring_rep_last[OF rep] and c = ring_contents_rep[OF rep]
  have len: "H \<le> length ws" "length ws \<le> H + ring_cap q" using rep by (auto simp: ring_rep_def)
  have full: "rb_full (of_nat (length ws)) (of_nat H) q \<longleftrightarrow> length ws = H + ring_cap q"
    by (rule rb_full_iff[OF ring_rep_shape[OF rep] len])
  show "\<exists>q'. rb_push x q = Some (length (ring_contents q) < ring_cap q, q') \<and> ring_inv q' \<and>
      ring_cap q' = ring_cap q \<and> ring_contents q' =
        (if length (ring_contents q) < ring_cap q then ring_contents q @ [x] else ring_contents q)"
  proof (cases "length ws = H + ring_cap q")
    case True
    then show ?thesis
      using l full c \<open>ring_inv q\<close> by (simp add: rb_push_def)
  next
    case False
    then have room: "length ws < H + ring_cap q" using len by simp
    obtain r' where r': "rb_construct H (of_nat (length ws)) x q = Some r'"
      "ring_rep r' (length ws) H (ws @ [x]) H" "ring_cap r' = ring_cap q"
      by (rule rb_construct_rep[OF rep refl room order_refl])
    let ?q = "rb_publish_tail (of_nat (length ws)) r'"
    have rep': "ring_rep ?q (length (ws @ [x])) H (ws @ [x]) H"
      using rb_publish_tail_rep[OF r'(2)] by simp
    have "rb_push x q = Some (True, ?q)" using l full False r'(1) by (simp add: rb_push_def)
    moreover have "ring_contents ?q = ring_contents q @ [x]"
      using ring_contents_rep(1)[OF rep'] c(1) len(1) by simp
    moreover have "ring_inv ?q" using rep' unfolding ring_inv_def by blast
    moreover have "length (ring_contents q) < ring_cap q" using room len c(1) by simp
    ultimately show ?thesis using r'(3) by simp
  qed
next
  fix q :: "'a ring"
  assume "ring_inv q" and empty: "ring_contents q = []"
  then obtain H ws where rep: "ring_rep q (length ws) H ws H" by (auto simp: ring_inv_def)
  have "length ws \<le> H" using empty ring_contents_rep(1)[OF rep] by simp
  then show "rb_pop q = Some (None, q)"
    using ring_rep_last[OF rep] rep by (simp add: rb_pop_def ring_rep_def)
next
  fix q :: "'a ring" and x xs
  assume "ring_inv q" and cons: "ring_contents q = x # xs"
  then obtain H ws where rep: "ring_rep q (length ws) H ws H" by (auto simp: ring_inv_def)
  note l = ring_rep_last[OF rep]
  have len: "H \<le> length ws" "length ws \<le> H + ring_cap q" using rep by (auto simp: ring_rep_def)
  have drop: "drop H ws = x # xs" using cons ring_contents_rep(1)[OF rep] by simp
  then have H: "H < length ws" "ws ! H = x" "drop (Suc H) ws = xs"
    by (metis drop_all not_le list.distinct(1), metis nth_via_drop, metis drop_Suc list.sel(3) tl_drop)
  have neq: "(of_nat H :: 64 word) \<noteq> of_nat (length ws)"
    using index_eq_iff[OF ring_rep_shape[OF rep] len] H(1) by simp
  obtain r' where r': "rb_take (length ws) (of_nat H) q = Some (ws ! H, r')"
    "ring_rep r' (length ws) H ws (Suc H)" "ring_cap r' = ring_cap q"
    by (rule rb_take_rep[OF rep refl H(1), of "length ws"]) (use H(1) in simp_all)
  let ?q = "rb_publish_head (of_nat H) r'"
  have rep': "ring_rep ?q (length ws) (Suc H) ws (Suc H)"
    by (rule rb_publish_head_rep[OF r'(2) refl])
  have "rb_pop q = Some (Some x, ?q)" using l neq r'(1) H(2) by (simp add: rb_pop_def)
  moreover have "ring_contents ?q = xs" using ring_contents_rep(1)[OF rep'] H(3) by simp
  ultimately show "\<exists>q'. rb_pop q = Some (Some x, q') \<and> ring_inv q' \<and> ring_cap q' = ring_cap q \<and>
      ring_contents q' = xs"
    using r'(3) rep' by (auto simp: ring_inv_def)
qed

section \<open>Destruction\<close>

text \<open>The slots while the destructor runs, from index \<open>h\<close> on.\<close>

definition live_from :: "'a ring \<Rightarrow> nat \<Rightarrow> 'a list \<Rightarrow> bool" where
  "live_from r h ws \<longleftrightarrow>
     ring_shape r \<and> h \<le> length ws \<and> length ws \<le> h + ring_cap r \<and>
     (\<forall>i. h \<le> i \<and> i < length ws \<longrightarrow>
        (\<exists>since \<le> length (rb_tail r). rb_slots r ! (i mod ring_cap r) = Live (ws ! i) since)) \<and>
     (\<forall>i. length ws \<le> i \<and> i < h + ring_cap r \<longrightarrow>
        (\<exists>since. rb_slots r ! (i mod ring_cap r) = Raw since))"

lemma ring_rep_live_from: "ring_rep r (length ws) H ws H \<Longrightarrow> live_from r H ws"
  by (auto simp: ring_rep_def live_from_def)

lemma live_from_take:
  assumes live: "live_from r h ws" and lt: "h < length ws"
  obtains v r' where "rb_take (length (rb_tail r)) (of_nat h) r = Some (v, r')"
    "live_from r' (Suc h) ws" "ring_cap r' = ring_cap r"
proof -
  let ?i = "h mod ring_cap r"
  let ?r = "r\<lparr>rb_slots := (rb_slots r)[?i := Raw (length (rb_head r))]\<rparr>"
  have shape: "ring_shape r" using live by (simp add: live_from_def)
  have i: "?i < length (rb_slots r)"
    using ring_shape_bounds(1)[OF shape] by (simp add: ring_cap_def [symmetric])
  obtain since where "since \<le> length (rb_tail r)" "rb_slots r ! ?i = Live (ws ! h) since"
    using live lt unfolding live_from_def by blast
  then have take: "rb_take (length (rb_tail r)) (of_nat h) r = Some (ws ! h, ?r)"
    using i by (simp add: rb_take_def rb_index_of_nat[OF shape])
  have old: "rb_slots ?r ! (i mod ring_cap r) = rb_slots r ! (i mod ring_cap r)"
    if "h < i" "i < h + ring_cap r" for i
  proof -
    have "i mod ring_cap r \<noteq> ?i" using that same_slot[of h "ring_cap r" i] by auto
    then show ?thesis by simp
  qed
  have "\<exists>since \<le> length (rb_tail r). rb_slots ?r ! (i mod ring_cap r) = Live (ws ! i) since"
    if "Suc h \<le> i" "i < length ws" for i
    using that old[of i] live unfolding live_from_def by auto
  moreover have "\<exists>since. rb_slots ?r ! (i mod ring_cap r) = Raw since"
    if "length ws \<le> i" "i < Suc h + ring_cap r" for i
    using that old[of i] live i lt unfolding live_from_def by (cases "i = h + ring_cap r") auto
  ultimately have "live_from ?r (Suc h) ws"
    using live lt by (auto simp: live_from_def ring_shape_def ring_cap_def)
  then show thesis using that take by (simp add: ring_cap_def)
qed

lemma live_from_end:
  assumes "live_from r (length ws) ws" "c \<in> set (rb_slots r)"
  shows "\<exists>since. c = Raw since"
proof -
  let ?T = "length ws" and ?cap = "ring_cap r"
  have pos: "0 < ?cap" using assms(1) ring_shape_bounds(1) by (auto simp: live_from_def)
  obtain j where j: "j < ?cap" "c = rb_slots r ! j"
    using assms(2) by (auto simp: in_set_conv_nth ring_cap_def)
  define i where "i = ?T + (j + ?cap - ?T mod ?cap) mod ?cap"
  have "i mod ?cap = (?T mod ?cap + (j + ?cap - ?T mod ?cap)) mod ?cap"
    by (simp add: i_def mod_simps)
  also have "?T mod ?cap + (j + ?cap - ?T mod ?cap) = j + ?cap"
    using mod_less_divisor[OF pos, of ?T] by linarith
  finally have "i mod ?cap = j" using j(1) by simp
  moreover have "?T \<le> i" "i < ?T + ?cap" using pos by (simp_all add: i_def)
  ultimately show ?thesis using assms(1) j(2) unfolding live_from_def by metis
qed

lemma rb_destroy_all:
  assumes "live_from r h ws"
  shows "\<exists>r'. rb_destroy (of_nat h) (of_nat (length ws)) r = Some r' \<and> ring_cap r' = ring_cap r \<and>
    (\<forall>c \<in> set (rb_slots r'). \<exists>since. c = Raw since)"
  using assms
proof (induction "length ws - h" arbitrary: r h)
  case 0
  then have "h = length ws" by (auto simp: live_from_def)
  then show ?case using live_from_end[of r ws] 0 by (subst rb_destroy.simps) simp
next
  case (Suc n)
  then have len: "h < length ws" "length ws \<le> h + ring_cap r" "ring_shape r"
    by (auto simp: live_from_def)
  have neq: "(of_nat h :: 64 word) \<noteq> of_nat (length ws)"
    using index_eq_iff[OF len(3) _ len(2)] len(1) by simp
  obtain v r' where r': "rb_take (length (rb_tail r)) (of_nat h) r = Some (v, r')"
    "live_from r' (Suc h) ws" "ring_cap r' = ring_cap r"
    by (rule live_from_take[OF Suc.prems len(1)])
  show ?case
    using Suc.hyps(1)[OF _ r'(2)] Suc.hyps(2) neq r'(1,3)
    by (subst rb_destroy.simps) (simp add: add.commute)
qed

section \<open>Sessions\<close>

lemma ring_inv_observed:
  assumes "ring_inv r"
  shows "size_approx r = of_nat (length (ring_contents r))" "rb_empty r \<longleftrightarrow> ring_contents r = []"
proof -
  obtain H ws where rep: "ring_rep r (length ws) H ws H" using assms by (auto simp: ring_inv_def)
  note l = ring_rep_last[OF rep] and c = ring_contents_rep(1)[OF rep]
  have len: "H \<le> length ws" "length ws \<le> H + ring_cap r" using rep by (auto simp: ring_rep_def)
  show "size_approx r = of_nat (length (ring_contents r))"
    using l c len(1) by (simp add: size_approx_def of_nat_diff)
  show "rb_empty r \<longleftrightarrow> ring_contents r = []"
    using l c index_eq_iff[OF ring_rep_shape[OF rep] len] len(1) by (auto simp: rb_empty_def)
qed

lemma ring_run_new:
  assumes "unat capacity \<le> 2 ^ 63"
  obtains r where "queue_run rb_push rb_pop ops (rb_new capacity) =
      Some (fst (bounded_run (unat (rb_round_up_pow2 capacity)) ops []), r)"
    "ring_inv r" "ring_contents r = snd (bounded_run (unat (rb_round_up_pow2 capacity)) ops [])"
proof -
  let ?q = "rb_new capacity :: 'a ring"
  have rep: "ring_rep ?q (length ([] :: 'a list)) 0 [] 0" using rb_new_rep(1)[OF assms] by simp
  then have "ring_inv ?q" unfolding ring_inv_def by blast
  moreover have "ring_contents ?q = []" using ring_contents_rep(1)[OF rep] by simp
  moreover have "ring_cap ?q = unat (rb_round_up_pow2 capacity)"
    by (simp add: ring_cap_def rb_new_def Let_def)
  ultimately show thesis using rb.run_contents[of ?q ops] that by auto
qed

lemma rb_round_up_pow2_2: "unat (rb_round_up_pow2 2) = 2"
  by (simp add: rb_round_up_pow2_def pow2_ceiling_def smear_def smear_shifts_def)

section \<open>Properties\<close>

text \<open>
  Used by one thread at a time the ring is a bounded list queue: any sequence of pushes and pops
  on a new ring gets the replies of a list of at most the rounded capacity.
\<close>

theorem ring_session:
  assumes "unat capacity \<le> 2 ^ 63"
  shows "\<exists>r. queue_run rb_push rb_pop ops (rb_new capacity) =
      Some (fst (bounded_run (unat (rb_round_up_pow2 capacity)) ops []), r) \<and>
    size_approx r = of_nat (length (snd (bounded_run (unat (rb_round_up_pow2 capacity)) ops []))) \<and>
    (rb_empty r \<longleftrightarrow> snd (bounded_run (unat (rb_round_up_pow2 capacity)) ops []) = [])"
  using ring_run_new[OF assms, of ops] ring_inv_observed by metis

theorem ring_session_witness:
  "\<exists>r. queue_run rb_push rb_pop [Op_push (5 :: nat), Op_push 6, Op_push 7, Op_pop, Op_pop, Op_pop]
       (rb_new 2) =
     Some ([Obs_push True, Obs_push True, Obs_push False, Obs_pop (Some 5), Obs_pop (Some 6), Obs_pop None], r)"
  using ring_session[of 2 "[Op_push (5 :: nat), Op_push 6, Op_push 7, Op_pop, Op_pop, Op_pop]"]
  by (auto simp: rb_round_up_pow2_2 Let_def)

text \<open>
  The destructor gives every element in flight its destruction: after any session its loop ends,
  touches no slot without an object and leaves no live object.
\<close>

theorem ring_destroys_all:
  assumes "unat capacity \<le> 2 ^ 63" and "queue_run rb_push rb_pop ops (rb_new capacity) = Some (obs, r)"
  shows "\<exists>r'. rb_drop r = Some r' \<and> (\<forall>c \<in> set (rb_slots r'). \<exists>since. c = Raw since)"
proof -
  have "ring_inv r" using ring_run_new[OF assms(1), of ops] assms(2) by (metis option.inject prod.inject)
  then obtain H ws where rep: "ring_rep r (length ws) H ws H" by (auto simp: ring_inv_def)
  show ?thesis
    using rb_destroy_all[OF ring_rep_live_from[OF rep]] ring_rep_last[OF rep]
    by (auto simp: rb_drop_def)
qed

theorem ring_destroys_all_witness:
  "\<exists>r r'. queue_run rb_push rb_pop [Op_push (5 :: nat)] (rb_new 2) = Some ([Obs_push True], r) \<and>
     rb_drop r = Some r' \<and> (\<forall>c \<in> set (rb_slots r'). \<exists>since. c = Raw since)"
proof -
  have cap: "unat (2 :: 64 word) \<le> 2 ^ 63" by simp
  obtain r where "queue_run rb_push rb_pop [Op_push (5 :: nat)] (rb_new 2) = Some ([Obs_push True], r)"
    by (rule ring_run_new[OF cap, of "[Op_push (5 :: nat)]"]) (simp add: rb_round_up_pow2_2 Let_def)
  with ring_destroys_all[OF cap this] show ?thesis by blast
qed

end
