(* ===== verification/RingThreads.thy ===== *)
theory RingThreads
  imports RingBuffer
begin

text \<open>
  The two threads of the queue of \<open>include/obe/RingBuffer.hpp\<close>: \<open>push\<close> by one and \<open>pop\<close> by the
  other, one atomic access at a time, in any interleaving.
\<close>

section \<open>Two threads\<close>

text \<open>
  Where a thread is in its operation, with the values of its local variables: after the relaxed
  load of its own index, after the check against the other index, after the access to the slot.
\<close>

datatype 'a push_pc =
  Push_idle | Push_loaded 'a "64 word" | Push_room 'a "64 word" | Push_written 'a "64 word"

datatype 'a pop_pc =
  Pop_idle | Pop_loaded "64 word" | Pop_some "64 word" | Pop_taken 'a "64 word"

text \<open>
  \<open>q_hview\<close> is the number of the head value that the producer has last acquired, \<open>q_tview\<close> that of
  the tail value of the consumer; \<open>q_sent\<close> and \<open>q_got\<close> record the values of the pushes and pops
  that took effect.
\<close>

record 'a spsc =
  q_ring :: "'a ring"
  q_push :: "'a push_pc"
  q_hview :: nat
  q_pop :: "'a pop_pc"
  q_tview :: nat
  q_sent :: "'a list"
  q_got :: "'a list"

definition spsc_new :: "64 word \<Rightarrow> 'a spsc" where
  "spsc_new capacity =
     \<lparr>q_ring = rb_new capacity, q_push = Push_idle, q_hview = 0, q_pop = Pop_idle, q_tview = 0,
      q_sent = [], q_got = []\<rparr>"

datatype 'a queue_event =
  Push_call 'a | Push_return 'a bool | Pop_call | Pop_return "'a option" | Push_inner | Pop_inner

text \<open>One atomic access of either thread; the result \<open>None\<close> is undefined behaviour.\<close>

inductive spsc_step :: "'a spsc \<Rightarrow> 'a queue_event \<Rightarrow> 'a spsc option \<Rightarrow> bool" where
  push_load:
    "q_push s = Push_idle \<Longrightarrow>
     spsc_step s (Push_call v) (Some (s\<lparr>q_push := Push_loaded v (last (rb_tail (q_ring s)))\<rparr>))"
| push_full:
    "q_push s = Push_loaded v tail \<Longrightarrow> q_hview s \<le> k \<Longrightarrow> k < length (rb_head (q_ring s)) \<Longrightarrow>
     rb_full tail (rb_head (q_ring s) ! k) (q_ring s) \<Longrightarrow>
     spsc_step s (Push_return v False) (Some (s\<lparr>q_push := Push_idle, q_hview := k\<rparr>))"
| push_room:
    "q_push s = Push_loaded v tail \<Longrightarrow> q_hview s \<le> k \<Longrightarrow> k < length (rb_head (q_ring s)) \<Longrightarrow>
     \<not> rb_full tail (rb_head (q_ring s) ! k) (q_ring s) \<Longrightarrow>
     spsc_step s Push_inner (Some (s\<lparr>q_push := Push_room v tail, q_hview := k\<rparr>))"
| push_write:
    "q_push s = Push_room v tail \<Longrightarrow> rb_construct (q_hview s) tail v (q_ring s) = Some r' \<Longrightarrow>
     spsc_step s Push_inner (Some (s\<lparr>q_ring := r', q_push := Push_written v tail\<rparr>))"
| push_undefined:
    "q_push s = Push_room v tail \<Longrightarrow> rb_construct (q_hview s) tail v (q_ring s) = None \<Longrightarrow>
     spsc_step s Push_inner None"
| push_publish:
    "q_push s = Push_written v tail \<Longrightarrow>
     spsc_step s (Push_return v True)
       (Some (s\<lparr>q_ring := rb_publish_tail tail (q_ring s), q_push := Push_idle,
                q_sent := q_sent s @ [v]\<rparr>))"
| pop_load:
    "q_pop s = Pop_idle \<Longrightarrow>
     spsc_step s Pop_call (Some (s\<lparr>q_pop := Pop_loaded (last (rb_head (q_ring s)))\<rparr>))"
| pop_empty:
    "q_pop s = Pop_loaded head \<Longrightarrow> q_tview s \<le> k \<Longrightarrow> k < length (rb_tail (q_ring s)) \<Longrightarrow>
     head = rb_tail (q_ring s) ! k \<Longrightarrow>
     spsc_step s (Pop_return None) (Some (s\<lparr>q_pop := Pop_idle, q_tview := k\<rparr>))"
| pop_some:
    "q_pop s = Pop_loaded head \<Longrightarrow> q_tview s \<le> k \<Longrightarrow> k < length (rb_tail (q_ring s)) \<Longrightarrow>
     head \<noteq> rb_tail (q_ring s) ! k \<Longrightarrow>
     spsc_step s Pop_inner (Some (s\<lparr>q_pop := Pop_some head, q_tview := k\<rparr>))"
| pop_take:
    "q_pop s = Pop_some head \<Longrightarrow> rb_take (q_tview s) head (q_ring s) = Some (v, r') \<Longrightarrow>
     spsc_step s Pop_inner (Some (s\<lparr>q_ring := r', q_pop := Pop_taken v head\<rparr>))"
| pop_undefined:
    "q_pop s = Pop_some head \<Longrightarrow> rb_take (q_tview s) head (q_ring s) = None \<Longrightarrow>
     spsc_step s Pop_inner None"
| pop_publish:
    "q_pop s = Pop_taken v head \<Longrightarrow>
     spsc_step s (Pop_return (Some v))
       (Some (s\<lparr>q_ring := rb_publish_head head (q_ring s), q_pop := Pop_idle,
                q_got := q_got s @ [v]\<rparr>))"

inductive_cases push_callE: "spsc_step s (Push_call v) r"
inductive_cases push_returnE: "spsc_step s (Push_return v b) r"
inductive_cases push_innerE: "spsc_step s Push_inner r"
inductive_cases pop_callE: "spsc_step s Pop_call r"
inductive_cases pop_returnE: "spsc_step s (Pop_return res) r"
inductive_cases pop_innerE: "spsc_step s Pop_inner r"

text \<open>What the threads have constructed and taken, published or not.\<close>

fun push_slot :: "'a push_pc \<Rightarrow> 'a list" where
  "push_slot (Push_written v _) = [v]"
| "push_slot _ = []"

fun pop_slot :: "'a pop_pc \<Rightarrow> 'a list" where
  "pop_slot (Pop_taken v _) = [v]"
| "pop_slot _ = []"

definition q_written :: "'a spsc \<Rightarrow> 'a list" where
  "q_written s = q_sent s @ push_slot (q_push s)"

definition q_removed :: "'a spsc \<Rightarrow> 'a list" where
  "q_removed s = q_got s @ pop_slot (q_pop s)"

text \<open>
  The local variables, for \<open>T\<close> pushes with room up to \<open>lim\<close>, and for \<open>H\<close> pops of the \<open>avail\<close>
  values that were seen.
\<close>

fun push_pc_ok :: "nat \<Rightarrow> nat \<Rightarrow> 'a push_pc \<Rightarrow> bool" where
  "push_pc_ok T lim Push_idle \<longleftrightarrow> True"
| "push_pc_ok T lim (Push_loaded _ tail) \<longleftrightarrow> tail = of_nat T"
| "push_pc_ok T lim (Push_room _ tail) \<longleftrightarrow> tail = of_nat T \<and> T < lim"
| "push_pc_ok T lim (Push_written _ tail) \<longleftrightarrow> tail = of_nat T"

fun pop_pc_ok :: "nat \<Rightarrow> nat \<Rightarrow> 'a pop_pc \<Rightarrow> bool" where
  "pop_pc_ok H avail Pop_idle \<longleftrightarrow> True"
| "pop_pc_ok H avail (Pop_loaded head) \<longleftrightarrow> head = of_nat H"
| "pop_pc_ok H avail (Pop_some head) \<longleftrightarrow> head = of_nat H \<and> H < avail"
| "pop_pc_ok H avail (Pop_taken _ head) \<longleftrightarrow> head = of_nat H"

definition spsc_inv :: "'a spsc \<Rightarrow> bool" where
  "spsc_inv s \<longleftrightarrow>
     ring_rep (q_ring s) (length (q_sent s)) (length (q_got s)) (q_written s) (length (q_removed s)) \<and>
     prefix (q_removed s) (q_written s) \<and>
     q_hview s \<le> length (q_got s) \<and> length (q_written s) \<le> q_hview s + ring_cap (q_ring s) \<and>
     push_pc_ok (length (q_sent s)) (q_hview s + ring_cap (q_ring s)) (q_push s) \<and>
     length (q_removed s) \<le> q_tview s \<and> q_tview s \<le> length (q_sent s) \<and>
     pop_pc_ok (length (q_got s)) (q_tview s) (q_pop s)"

lemma spsc_invD:
  assumes "spsc_inv s"
  shows "ring_rep (q_ring s) (length (q_sent s)) (length (q_got s)) (q_written s) (length (q_removed s))"
    "prefix (q_removed s) (q_written s)" "ring_shape (q_ring s)"
    "push_pc_ok (length (q_sent s)) (q_hview s + ring_cap (q_ring s)) (q_push s)"
    "pop_pc_ok (length (q_got s)) (q_tview s) (q_pop s)"
  using assms ring_rep_shape by (auto simp: spsc_inv_def)

lemma spsc_counts:
  assumes "spsc_inv s"
  shows "length (q_removed s) \<le> length (q_sent s)" "length (q_got s) \<le> length (q_removed s)"
    "length (q_sent s) \<le> length (q_written s)" "q_hview s \<le> length (q_got s)"
    "length (q_written s) \<le> q_hview s + ring_cap (q_ring s)"
    "length (q_removed s) \<le> q_tview s" "q_tview s \<le> length (q_sent s)"
  using assms by (auto simp: spsc_inv_def q_removed_def q_written_def)

lemma spsc_invI:
  assumes "q_written s = ws" "q_removed s = rs"
    and "ring_rep (q_ring s) (length (q_sent s)) (length (q_got s)) ws (length rs)" "prefix rs ws"
    and "q_hview s \<le> length (q_got s)" "length ws \<le> q_hview s + ring_cap (q_ring s)"
    and "push_pc_ok (length (q_sent s)) (q_hview s + ring_cap (q_ring s)) (q_push s)"
    and "length rs \<le> q_tview s" "q_tview s \<le> length (q_sent s)"
    and "pop_pc_ok (length (q_got s)) (q_tview s) (q_pop s)"
  shows "spsc_inv s"
  using assms by (simp add: spsc_inv_def)

text \<open>An index that was loaded is the count it stands for.\<close>

lemma loaded_head: "spsc_inv s \<Longrightarrow> k < length (rb_head (q_ring s)) \<Longrightarrow> rb_head (q_ring s) ! k = of_nat k \<and> k \<le> length (q_got s)"
  using spsc_invD(1)[of s] by (simp add: ring_rep_def del: upt_Suc)

lemma loaded_tail: "spsc_inv s \<Longrightarrow> k < length (rb_tail (q_ring s)) \<Longrightarrow> rb_tail (q_ring s) ! k = of_nat k \<and> k \<le> length (q_sent s)"
  using spsc_invD(1)[of s] by (simp add: ring_rep_def del: upt_Suc)

text \<open>The producer's check on the value it has loaded, which may be out of date.\<close>

lemma push_check:
  assumes inv: "spsc_inv s" and pc: "q_push s = Push_loaded v tail"
    and k: "q_hview s \<le> k" "k < length (rb_head (q_ring s))"
  shows "rb_full tail (rb_head (q_ring s) ! k) (q_ring s) \<longleftrightarrow>
      length (q_sent s) = k + ring_cap (q_ring s)"
    and "length (q_sent s) \<le> k + ring_cap (q_ring s)" and "k \<le> length (q_got s)"
proof -
  note c = spsc_counts[OF inv] and h = loaded_head[OF inv k(2)]
  show k': "k \<le> length (q_got s)" using h by simp
  show le: "length (q_sent s) \<le> k + ring_cap (q_ring s)" using c(3,5) k(1) by linarith
  have "tail = of_nat (length (q_sent s))" using spsc_invD(4)[OF inv] pc by simp
  moreover have "k \<le> length (q_sent s)" using k' c(1,2) by linarith
  ultimately show "rb_full tail (rb_head (q_ring s) ! k) (q_ring s) \<longleftrightarrow>
      length (q_sent s) = k + ring_cap (q_ring s)"
    using rb_full_iff[OF spsc_invD(3)[OF inv] _ le] h by simp
qed

lemma pop_check:
  assumes inv: "spsc_inv s" and pc: "q_pop s = Pop_loaded head"
    and k: "q_tview s \<le> k" "k < length (rb_tail (q_ring s))"
  shows "head = rb_tail (q_ring s) ! k \<longleftrightarrow> k = length (q_got s)"
    and "length (q_got s) \<le> k" and "k \<le> length (q_sent s)"
proof -
  note c = spsc_counts[OF inv] and t = loaded_tail[OF inv k(2)]
  show k': "k \<le> length (q_sent s)" using t by simp
  show le: "length (q_got s) \<le> k" using c(2,6) k(1) by linarith
  have "head = of_nat (length (q_got s))" using spsc_invD(5)[OF inv] pc by simp
  moreover have "k \<le> length (q_got s) + ring_cap (q_ring s)" using c k' by linarith
  ultimately show "head = rb_tail (q_ring s) ! k \<longleftrightarrow> k = length (q_got s)"
    using index_eq_iff[OF spsc_invD(3)[OF inv] le] t by (metis)
qed

text \<open>The two threads keep the invariant and never reach undefined behaviour.\<close>

lemma push_write_inv:
  assumes inv: "spsc_inv s" and pc: "q_push s = Push_room v tail"
  obtains r' where "rb_construct (q_hview s) tail v (q_ring s) = Some r'"
    "spsc_inv (s\<lparr>q_ring := r', q_push := Push_written v tail\<rparr>)" "ring_cap r' = ring_cap (q_ring s)"
proof -
  note d = spsc_invD[OF inv] and c = spsc_counts[OF inv]
  have ws: "q_written s = q_sent s" using pc by (simp add: q_written_def)
  have p: "tail = of_nat (length (q_sent s))" "length (q_sent s) < q_hview s + ring_cap (q_ring s)"
    using d(4) pc by auto
  have len: "length (q_written s) = length (q_sent s)" by (simp only: ws)
  obtain r' where r': "rb_construct (q_hview s) (of_nat (length (q_sent s))) v (q_ring s) = Some r'"
    "ring_rep r' (length (q_sent s)) (length (q_got s)) (q_written s @ [v]) (length (q_removed s))"
    "ring_cap r' = ring_cap (q_ring s)"
    by (rule rb_construct_rep[OF d(1) len p(2) c(4)])
  have "spsc_inv (s\<lparr>q_ring := r', q_push := Push_written v tail\<rparr>)"
    by (rule spsc_invI[where ws = "q_written s @ [v]" and rs = "q_removed s"])
      (use r'(2,3) d(2,5) p c ws in \<open>simp_all add: q_written_def q_removed_def\<close>)
  then show thesis using that r'(1,3) p(1) by simp
qed

lemma pop_take_inv:
  assumes inv: "spsc_inv s" and pc: "q_pop s = Pop_some head"
  obtains r' where "rb_take (q_tview s) head (q_ring s) = Some (q_sent s ! length (q_got s), r')"
    "spsc_inv (s\<lparr>q_ring := r', q_pop := Pop_taken (q_sent s ! length (q_got s)) head\<rparr>)"
    "ring_cap r' = ring_cap (q_ring s)"
proof -
  note d = spsc_invD[OF inv] and c = spsc_counts[OF inv]
  let ?H = "length (q_got s)"
  have rs: "q_removed s = q_got s" using pc by (simp add: q_removed_def)
  have p: "head = of_nat ?H" "?H < q_tview s" using d(5) pc by auto
  have lt: "?H < length (q_written s)" using p c(3,7) by linarith
  have nth: "q_written s ! ?H = q_sent s ! ?H"
    using p c(7) by (simp add: q_written_def nth_append)
  have len: "length (q_removed s) = ?H" by (simp only: rs)
  obtain r' where r': "rb_take (q_tview s) (of_nat ?H) (q_ring s) = Some (q_written s ! ?H, r')"
    "ring_rep r' (length (q_sent s)) ?H (q_written s) (Suc ?H)" "ring_cap r' = ring_cap (q_ring s)"
    by (rule rb_take_rep[OF d(1) len lt, of "q_tview s"]) (use p(2) in simp)
  have pre: "prefix (q_got s @ [q_sent s ! ?H]) (q_written s)"
    using d(2) lt unfolding rs nth [symmetric]
    by (auto simp: prefix_def nth_append) (metis append_Nil2 hd_conv_nth list.exhaust_sel nth_append_length)
  have "spsc_inv (s\<lparr>q_ring := r', q_pop := Pop_taken (q_sent s ! ?H) head\<rparr>)"
    by (rule spsc_invI[where ws = "q_written s" and rs = "q_got s @ [q_sent s ! ?H]"])
      (use r'(2,3) d(4) p c pre in \<open>simp_all add: q_written_def q_removed_def\<close>)
  then show thesis using that r'(1,3) p(1) nth by simp
qed

lemma push_publish_inv:
  assumes inv: "spsc_inv s" and pc: "q_push s = Push_written v tail"
  shows "spsc_inv (s\<lparr>q_ring := rb_publish_tail tail (q_ring s), q_push := Push_idle,
    q_sent := q_sent s @ [v]\<rparr>)"
proof -
  note d = spsc_invD[OF inv] and c = spsc_counts[OF inv]
  have ws: "q_written s = q_sent s @ [v]" using pc by (simp add: q_written_def)
  have tail: "tail = of_nat (length (q_sent s))" using d(4) pc by simp
  have len: "length (q_written s) = Suc (length (q_sent s))" by (simp only: ws) simp
  note rep = rb_publish_tail_rep[OF d(1) len]
  show ?thesis
    by (rule spsc_invI[where ws = "q_written s" and rs = "q_removed s"])
      (use rep d(2,5) c ws tail in \<open>simp_all add: q_written_def q_removed_def\<close>)
qed

lemma pop_publish_inv:
  assumes inv: "spsc_inv s" and pc: "q_pop s = Pop_taken v head"
  shows "spsc_inv (s\<lparr>q_ring := rb_publish_head head (q_ring s), q_pop := Pop_idle,
    q_got := q_got s @ [v]\<rparr>)"
proof -
  note d = spsc_invD[OF inv] and c = spsc_counts[OF inv]
  have rs: "q_removed s = q_got s @ [v]" using pc by (simp add: q_removed_def)
  have head: "head = of_nat (length (q_got s))" using d(5) pc by simp
  have len: "length (q_removed s) = Suc (length (q_got s))" by (simp only: rs) simp
  note rep = rb_publish_head_rep[OF d(1) len]
  show ?thesis
    by (rule spsc_invI[where ws = "q_written s" and rs = "q_removed s"])
      (use rep d(2,4) c rs head in \<open>simp_all add: q_written_def q_removed_def\<close>)
qed

text \<open>Steps that change only the local variables and what has been acquired.\<close>

lemma push_local_inv:
  assumes inv: "spsc_inv s" and "push_slot (q_push s) = []" "push_slot pc = []"
    and "q_hview s \<le> k" "k \<le> length (q_got s)"
    and "push_pc_ok (length (q_sent s)) (k + ring_cap (q_ring s)) pc"
  shows "spsc_inv (s\<lparr>q_push := pc, q_hview := k\<rparr>)"
  by (rule spsc_invI[where ws = "q_written s" and rs = "q_removed s"])
    (use spsc_invD[OF inv] spsc_counts[OF inv] assms(2-) in
      \<open>simp_all add: q_written_def q_removed_def\<close>)

lemma pop_local_inv:
  assumes inv: "spsc_inv s" and "pop_slot (q_pop s) = []" "pop_slot pc = []"
    and "q_tview s \<le> k" "k \<le> length (q_sent s)" and "pop_pc_ok (length (q_got s)) k pc"
  shows "spsc_inv (s\<lparr>q_pop := pc, q_tview := k\<rparr>)"
  by (rule spsc_invI[where ws = "q_written s" and rs = "q_removed s"])
    (use spsc_invD[OF inv] spsc_counts[OF inv] assms(2-) in
      \<open>simp_all add: q_written_def q_removed_def\<close>)

text \<open>A step of either thread: no undefined behaviour, and what the event says of the queue.\<close>

definition event_effect :: "'a queue_event \<Rightarrow> 'a spsc \<Rightarrow> 'a spsc \<Rightarrow> bool" where
  "event_effect ev s s' \<longleftrightarrow>
     q_sent s' = q_sent s @ (case ev of Push_return v True \<Rightarrow> [v] | _ \<Rightarrow> []) \<and>
     q_got s' = q_got s @ (case ev of Pop_return (Some v) \<Rightarrow> [v] | _ \<Rightarrow> []) \<and>
     ring_cap (q_ring s') = ring_cap (q_ring s)"

lemma spsc_step_inv:
  assumes "spsc_step s ev res" "spsc_inv s"
  obtains s' where "res = Some s'" "spsc_inv s'" "event_effect ev s s'"
  using assms
proof (cases rule: spsc_step.cases)
  case (push_load v)
  have "spsc_inv (s\<lparr>q_push := Push_loaded v (last (rb_tail (q_ring s))), q_hview := q_hview s\<rparr>)"
    by (rule push_local_inv[OF assms(2)])
      (use ring_rep_last(1)[OF spsc_invD(1)[OF assms(2)]] spsc_counts[OF assms(2)] push_load(3) in simp_all)
  then show thesis using that push_load(1,2) by (simp add: event_effect_def)
next
  case (push_full v tail k)
  note c = push_check[OF assms(2) push_full(3-5)]
  have "spsc_inv (s\<lparr>q_push := Push_idle, q_hview := k\<rparr>)"
    by (rule push_local_inv[OF assms(2)]) (use c(3) push_full(3,4) in simp_all)
  then show thesis using that push_full(1,2) by (simp add: event_effect_def)
next
  case (push_room v tail k)
  note c = push_check[OF assms(2) push_room(3-5)]
  have "spsc_inv (s\<lparr>q_push := Push_room v tail, q_hview := k\<rparr>)"
    by (rule push_local_inv[OF assms(2)])
      (use c push_room(3,4,6) spsc_invD(4)[OF assms(2)] in simp_all)
  then show thesis using that push_room(1,2) by (simp add: event_effect_def)
next
  case (push_write v tail r')
  then show thesis
    using push_write_inv[OF assms(2) push_write(3)] that by (auto simp: event_effect_def)
next
  case (push_undefined v tail)
  then show thesis using push_write_inv[OF assms(2) push_undefined(3)] by auto
next
  case (push_publish v tail)
  then show thesis
    using push_publish_inv[OF assms(2) push_publish(3)] that by (simp add: event_effect_def)
next
  case pop_load
  have "spsc_inv (s\<lparr>q_pop := Pop_loaded (last (rb_head (q_ring s))), q_tview := q_tview s\<rparr>)"
    by (rule pop_local_inv[OF assms(2)])
      (use ring_rep_last(2)[OF spsc_invD(1)[OF assms(2)]] spsc_counts[OF assms(2)] pop_load(3) in simp_all)
  then show thesis using that pop_load(1,2) by (simp add: event_effect_def)
next
  case (pop_empty head k)
  note c = pop_check[OF assms(2) pop_empty(3-5)]
  have "spsc_inv (s\<lparr>q_pop := Pop_idle, q_tview := k\<rparr>)"
    by (rule pop_local_inv[OF assms(2)]) (use c(3) pop_empty(3,4) in simp_all)
  then show thesis using that pop_empty(1,2) by (simp add: event_effect_def)
next
  case (pop_some head k)
  note c = pop_check[OF assms(2) pop_some(3-5)]
  have "spsc_inv (s\<lparr>q_pop := Pop_some head, q_tview := k\<rparr>)"
    by (rule pop_local_inv[OF assms(2)])
      (use c pop_some(3,4,6) spsc_invD(5)[OF assms(2)] in simp_all)
  then show thesis using that pop_some(1,2) by (simp add: event_effect_def)
next
  case (pop_take head v r')
  then show thesis
    using pop_take_inv[OF assms(2) pop_take(3)] that by (auto simp: event_effect_def)
next
  case (pop_undefined head)
  then show thesis using pop_take_inv[OF assms(2) pop_undefined(3)] by auto
next
  case (pop_publish v head)
  then show thesis
    using pop_publish_inv[OF assms(2) pop_publish(3)] that by (simp add: event_effect_def)
qed

section \<open>Reachable states\<close>

inductive spsc_reach :: "64 word \<Rightarrow> 'a spsc \<Rightarrow> bool" for capacity where
  reach_new: "spsc_reach capacity (spsc_new capacity)"
| reach_step: "spsc_reach capacity s \<Longrightarrow> spsc_step s ev (Some s') \<Longrightarrow> spsc_reach capacity s'"

lemma spsc_new_inv: "unat capacity \<le> 2 ^ 63 \<Longrightarrow> spsc_inv (spsc_new capacity)"
  using rb_new_rep(1)[of capacity]
  by (intro spsc_invI[where ws = "[]" and rs = "[]"])
    (simp_all add: spsc_new_def q_written_def q_removed_def)

lemma spsc_reach_inv:
  assumes "spsc_reach capacity s" "unat capacity \<le> 2 ^ 63"
  shows "spsc_inv s \<and> ring_cap (q_ring s) = unat (rb_round_up_pow2 capacity)"
  using assms(1)
proof induction
  case reach_new
  show ?case
    using spsc_new_inv[OF assms(2)]
    by (simp add: spsc_new_def ring_cap_def rb_new_def Let_def)
next
  case (reach_step s ev s')
  obtain s'' where "Some s' = Some s''" "spsc_inv s''" "event_effect ev s s''"
    using spsc_step_inv[OF reach_step.hyps(2)] reach_step.IH by blast
  then show ?case using reach_step.IH by (simp add: event_effect_def)
qed

text \<open>What was popped is a prefix of what was pushed.\<close>

lemma spsc_inv_fifo:
  assumes "spsc_inv s"
  shows "prefix (q_got s) (q_sent s)" "length (q_sent s) \<le> length (q_got s) + ring_cap (q_ring s)"
proof -
  note c = spsc_counts[OF assms]
  have "prefix (q_got s) (q_written s)"
    using spsc_invD(2)[OF assms] by (auto simp: q_removed_def prefix_def)
  moreover have "prefix (q_sent s) (q_written s)" by (simp add: q_written_def)
  ultimately show "prefix (q_got s) (q_sent s)"
    using c(1,2) by (meson le_trans prefix_length_prefix)
  show "length (q_sent s) \<le> length (q_got s) + ring_cap (q_ring s)" using c(3-5) by linarith
qed

section \<open>Undisturbed operations\<close>

inductive spsc_steps :: "'a spsc \<Rightarrow> 'a queue_event list \<Rightarrow> 'a spsc \<Rightarrow> bool" where
  steps_refl: "spsc_steps s [] s"
| steps_step: "spsc_step s ev (Some s') \<Longrightarrow> spsc_steps s' evs s'' \<Longrightarrow> spsc_steps s (ev # evs) s''"

lemma spsc_steps_reach: "spsc_steps s evs s' \<Longrightarrow> spsc_reach capacity s \<Longrightarrow> spsc_reach capacity s'"
  by (induction rule: spsc_steps.induct) (auto intro: reach_step)

lemma spsc_steps_one: "spsc_step s ev (Some s') \<Longrightarrow> spsc_steps s [ev] s'"
  by (auto intro: spsc_steps.intros)

lemma spsc_steps_append: "spsc_steps s evs s' \<Longrightarrow> spsc_steps s' evs' s'' \<Longrightarrow> spsc_steps s (evs @ evs') s''"
  by (induction rule: spsc_steps.induct) (auto intro: spsc_steps.intros)

text \<open>A push runs to its end in at most three more accesses, whatever the other thread does.\<close>

lemma push_from_room:
  assumes inv: "spsc_inv s" and pc: "q_push s = Push_room v tail"
  obtains s' where "spsc_steps s [Push_inner, Push_return v True] s'" "q_push s' = Push_idle"
    "q_pop s' = q_pop s" "q_tview s' = q_tview s"
proof -
  obtain r' where w: "rb_construct (q_hview s) tail v (q_ring s) = Some r'"
    by (rule push_write_inv[OF inv pc])
  let ?s = "s\<lparr>q_ring := r', q_push := Push_written v tail\<rparr>"
  have pc': "q_push ?s = Push_written v tail" by simp
  have "spsc_steps s [Push_inner, Push_return v True] (?s\<lparr>q_ring := rb_publish_tail tail (q_ring ?s),
      q_push := Push_idle, q_sent := q_sent ?s @ [v]\<rparr>)"
    using spsc_steps_append[OF spsc_steps_one[OF push_write[OF pc w]]
      spsc_steps_one[OF push_publish[OF pc']]] by simp
  then show thesis using that by simp
qed

lemma push_from_loaded:
  assumes inv: "spsc_inv s" and pc: "q_push s = Push_loaded v tail"
  obtains evs s' where "spsc_steps s evs s'" "q_push s' = Push_idle" "q_pop s' = q_pop s"
    "q_tview s' = q_tview s"
    "evs = (if length (q_sent s) = length (q_got s) + ring_cap (q_ring s) then [Push_return v False]
      else [Push_inner, Push_inner, Push_return v True])"
proof -
  let ?k = "length (q_got s)"
  have k: "q_hview s \<le> ?k" "?k < length (rb_head (q_ring s))"
    using spsc_counts(4)[OF inv] ring_rep_last(4)[OF spsc_invD(1)[OF inv]] by simp_all
  note full = push_check(1)[OF inv pc k]
  show thesis
  proof (cases "length (q_sent s) = ?k + ring_cap (q_ring s)")
    case True
    then have "spsc_step s (Push_return v False) (Some (s\<lparr>q_push := Push_idle, q_hview := ?k\<rparr>))"
      using full by (intro push_full[OF pc k]) simp
    then show thesis using that[OF spsc_steps_one] True by simp
  next
    case False
    let ?s = "s\<lparr>q_push := Push_room v tail, q_hview := ?k\<rparr>"
    have step: "spsc_step s Push_inner (Some ?s)"
      using full False by (intro push_room[OF pc k]) simp
    then obtain s0 where "Some ?s = Some s0" "spsc_inv s0" by (rule spsc_step_inv[OF _ inv])
    then have inv': "spsc_inv ?s" by simp
    obtain s' where s': "spsc_steps ?s [Push_inner, Push_return v True] s'" "q_push s' = Push_idle"
      "q_pop s' = q_pop ?s" "q_tview s' = q_tview ?s"
      by (rule push_from_room[OF inv', of v tail]) simp
    show thesis
      using that[of "[Push_inner, Push_inner, Push_return v True]" s'] False s'
        spsc_steps_append[OF spsc_steps_one[OF step] s'(1)] by simp
  qed
qed

lemma pop_from_some:
  assumes inv: "spsc_inv s" and pc: "q_pop s = Pop_some head"
  obtains s' where "spsc_steps s [Pop_inner, Pop_return (Some (q_sent s ! length (q_got s)))] s'"
    "q_pop s' = Pop_idle" "q_push s' = q_push s"
proof -
  let ?v = "q_sent s ! length (q_got s)"
  obtain r' where t: "rb_take (q_tview s) head (q_ring s) = Some (?v, r')"
    by (rule pop_take_inv[OF inv pc])
  let ?s = "s\<lparr>q_ring := r', q_pop := Pop_taken ?v head\<rparr>"
  have pc': "q_pop ?s = Pop_taken ?v head" by simp
  have "spsc_steps s [Pop_inner, Pop_return (Some ?v)] (?s\<lparr>q_ring := rb_publish_head head (q_ring ?s),
      q_pop := Pop_idle, q_got := q_got ?s @ [?v]\<rparr>)"
    using spsc_steps_append[OF spsc_steps_one[OF pop_take[OF pc t]]
      spsc_steps_one[OF pop_publish[OF pc']]] by simp
  then show thesis using that by simp
qed

lemma pop_from_loaded:
  assumes inv: "spsc_inv s" and pc: "q_pop s = Pop_loaded head"
  obtains evs s' where "spsc_steps s evs s'" "q_pop s' = Pop_idle" "q_push s' = q_push s"
    "evs = (if q_sent s = q_got s then [Pop_return None]
      else [Pop_inner, Pop_inner, Pop_return (Some (q_sent s ! length (q_got s)))])"
proof -
  let ?k = "length (q_sent s)"
  have k: "q_tview s \<le> ?k" "?k < length (rb_tail (q_ring s))"
    using spsc_counts(7)[OF inv] ring_rep_last(3)[OF spsc_invD(1)[OF inv]] by simp_all
  note empty = pop_check(1)[OF inv pc k]
  have same: "q_sent s = q_got s \<longleftrightarrow> ?k = length (q_got s)"
    using spsc_inv_fifo(1)[OF inv] by (auto simp: prefix_def)
  show thesis
  proof (cases "q_sent s = q_got s")
    case True
    then have "spsc_step s (Pop_return None) (Some (s\<lparr>q_pop := Pop_idle, q_tview := ?k\<rparr>))"
      using empty same by (intro pop_empty[OF pc k]) simp
    then show thesis using that[OF spsc_steps_one] True by simp
  next
    case False
    let ?s = "s\<lparr>q_pop := Pop_some head, q_tview := ?k\<rparr>"
    have step: "spsc_step s Pop_inner (Some ?s)"
      using empty False same by (intro pop_some[OF pc k]) simp
    then obtain s0 where "Some ?s = Some s0" "spsc_inv s0" by (rule spsc_step_inv[OF _ inv])
    then have inv': "spsc_inv ?s" by simp
    obtain s' where s': "spsc_steps ?s [Pop_inner, Pop_return (Some (q_sent s ! length (q_got s)))] s'"
      "q_pop s' = Pop_idle" "q_push s' = q_push ?s"
      by (rule pop_from_some[OF inv', of head]) simp_all
    show thesis
      using that[of "[Pop_inner, Pop_inner, Pop_return (Some (q_sent s ! length (q_got s)))]" s'] False s'
        spsc_steps_append[OF spsc_steps_one[OF step] s'(1)] by simp
  qed
qed

text \<open>The effect of a run of steps.\<close>

definition pushed :: "'a queue_event list \<Rightarrow> 'a list" where
  "pushed evs = concat (map (\<lambda>ev. case ev of Push_return v True \<Rightarrow> [v] | _ \<Rightarrow> []) evs)"

definition popped :: "'a queue_event list \<Rightarrow> 'a list" where
  "popped evs = concat (map (\<lambda>ev. case ev of Pop_return (Some v) \<Rightarrow> [v] | _ \<Rightarrow> []) evs)"

lemma spsc_steps_effect:
  "spsc_steps s evs s' \<Longrightarrow> spsc_inv s \<Longrightarrow>
   spsc_inv s' \<and> q_sent s' = q_sent s @ pushed evs \<and> q_got s' = q_got s @ popped evs \<and>
   ring_cap (q_ring s') = ring_cap (q_ring s)"
proof (induction rule: spsc_steps.induct)
  case (steps_step s ev s' evs s'')
  obtain s0 where "Some s' = Some s0" "spsc_inv s0" "event_effect ev s s0"
    by (rule spsc_step_inv[OF steps_step.hyps(1) steps_step.prems])
  then show ?case using steps_step.IH by (simp add: event_effect_def pushed_def popped_def)
qed (simp add: pushed_def popped_def)

text \<open>A whole push, and a whole pop.\<close>

lemma push_completes:
  assumes inv: "spsc_inv s" and idle: "q_push s = Push_idle"
    and room: "length (q_sent s) < length (q_got s) + ring_cap (q_ring s)"
  obtains s' where "spsc_steps s [Push_call v, Push_inner, Push_inner, Push_return v True] s'"
    "q_push s' = Push_idle" "q_pop s' = q_pop s"
proof -
  let ?s = "s\<lparr>q_push := Push_loaded v (last (rb_tail (q_ring s)))\<rparr>"
  have step: "spsc_step s (Push_call v) (Some ?s)" by (rule push_load[OF idle])
  obtain s0 where "Some ?s = Some s0" "spsc_inv s0" by (rule spsc_step_inv[OF step inv])
  then have inv': "spsc_inv ?s" by simp
  obtain evs s' where s': "spsc_steps ?s evs s'" "q_push s' = Push_idle" "q_pop s' = q_pop ?s"
    "evs = (if length (q_sent ?s) = length (q_got ?s) + ring_cap (q_ring ?s) then [Push_return v False]
      else [Push_inner, Push_inner, Push_return v True])"
    by (rule push_from_loaded[OF inv', of v]) simp_all
  then show thesis using that[of s'] room steps_step[OF step s'(1)] by simp
qed

lemma pop_completes:
  assumes inv: "spsc_inv s" and idle: "q_pop s = Pop_idle" and "q_sent s \<noteq> q_got s"
  obtains s' where "spsc_steps s [Pop_call, Pop_inner, Pop_inner,
      Pop_return (Some (q_sent s ! length (q_got s)))] s'"
    "q_pop s' = Pop_idle" "q_push s' = q_push s"
proof -
  let ?s = "s\<lparr>q_pop := Pop_loaded (last (rb_head (q_ring s)))\<rparr>"
  have step: "spsc_step s Pop_call (Some ?s)" by (rule pop_load[OF idle])
  obtain s0 where "Some ?s = Some s0" "spsc_inv s0" by (rule spsc_step_inv[OF step inv])
  then have inv': "spsc_inv ?s" by simp
  obtain evs s' where s': "spsc_steps ?s evs s'" "q_pop s' = Pop_idle" "q_push s' = q_push ?s"
    "evs = (if q_sent ?s = q_got ?s then [Pop_return None]
      else [Pop_inner, Pop_inner, Pop_return (Some (q_sent ?s ! length (q_got ?s)))])"
    by (rule pop_from_loaded[OF inv']) simp_all
  then show thesis using that[of s'] assms(3) steps_step[OF step s'(1)] by simp
qed

section \<open>A sample\<close>

text \<open>A queue of two slots after two pushes and a pop.\<close>

lemma sample_spsc:
  obtains s :: "nat spsc" where "spsc_reach 2 s" "q_sent s = [7, 8]" "q_got s = [7]"
    "q_push s = Push_idle" "q_pop s = Pop_idle"
proof -
  have cap: "unat (2 :: 64 word) \<le> 2 ^ 63" by simp
  let ?s0 = "spsc_new 2 :: nat spsc"
  have new: "q_push ?s0 = Push_idle" "q_pop ?s0 = Pop_idle" "q_sent ?s0 = []" "q_got ?s0 = []"
    by (simp_all add: spsc_new_def)
  have inv: "spsc_inv s \<and> ring_cap (q_ring s) = 2" if "spsc_reach 2 s" for s :: "nat spsc"
    using spsc_reach_inv[OF that cap] rb_round_up_pow2_2 by simp
  have r0: "spsc_reach 2 ?s0" by (rule reach_new)
  obtain s1 where s1: "spsc_steps ?s0 [Push_call 7, Push_inner, Push_inner, Push_return 7 True] s1"
    "q_push s1 = Push_idle" "q_pop s1 = Pop_idle"
    using push_completes[of ?s0 7] inv[OF r0] new by auto
  have r1: "spsc_reach 2 s1" by (rule spsc_steps_reach[OF s1(1) r0])
  have e1: "q_sent s1 = [7]" "q_got s1 = []"
    using spsc_steps_effect[OF s1(1)] inv[OF r0] new by (simp_all add: pushed_def popped_def)
  obtain s2 where s2: "spsc_steps s1 [Push_call 8, Push_inner, Push_inner, Push_return 8 True] s2"
    "q_push s2 = Push_idle" "q_pop s2 = Pop_idle"
    using push_completes[of s1 8] inv[OF r1] s1 e1 by auto
  have r2: "spsc_reach 2 s2" by (rule spsc_steps_reach[OF s2(1) r1])
  have e2: "q_sent s2 = [7, 8]" "q_got s2 = []"
    using spsc_steps_effect[OF s2(1)] inv[OF r1] e1 by (simp_all add: pushed_def popped_def)
  obtain s3 where s3: "spsc_steps s2 [Pop_call, Pop_inner, Pop_inner, Pop_return (Some 7)] s3"
    "q_pop s3 = Pop_idle" "q_push s3 = Push_idle"
    using pop_completes[of s2] inv[OF r2] s2 e2 by auto
  have "q_sent s3 = [7, 8]" "q_got s3 = [7]"
    using spsc_steps_effect[OF s3(1)] inv[OF r2] e2 by (simp_all add: pushed_def popped_def)
  then show thesis using that spsc_steps_reach[OF s3(1) r2] s3(2,3) by blast
qed

section \<open>Properties\<close>

text \<open>
  C11: Race freedom: whatever the interleaving of the two threads and however stale the index values
  that they acquire, neither ever touches a slot that the other may still be using, reads a slot
  without an object, constructs over a live one or leaves the array.
\<close>

theorem ring_never_races:
  assumes "spsc_reach capacity s" and "unat capacity \<le> 2 ^ 63"
  shows "\<not> spsc_step s ev None"
  using spsc_step_inv[of s ev None] spsc_reach_inv[OF assms] by blast

theorem ring_never_races_witness:
  "\<exists>s :: nat spsc. spsc_reach 2 s \<and> q_push s = Push_room 9 2 \<and> \<not> spsc_step s Push_inner None"
proof -
  obtain s :: "nat spsc" where s: "spsc_reach 2 s" "q_sent s = [7, 8]" "q_got s = [7]"
    "q_push s = Push_idle" "q_pop s = Pop_idle"
    by (rule sample_spsc)
  have cap: "unat (2 :: 64 word) \<le> 2 ^ 63" by simp
  note inv = spsc_reach_inv[OF s(1) cap, unfolded rb_round_up_pow2_2]
  have tail: "last (rb_tail (q_ring s)) = 2"
    using ring_rep_last(1)[OF spsc_invD(1)] inv s(2) by fastforce
  let ?s = "s\<lparr>q_push := Push_loaded 9 (2 :: 64 word)\<rparr>"
  have r1: "spsc_reach 2 ?s" using reach_step[OF s(1) push_load[OF s(4), of 9]] tail by simp
  note inv1 = spsc_reach_inv[OF r1 cap, unfolded rb_round_up_pow2_2]
  have k: "q_hview ?s \<le> 1" "1 < length (rb_head (q_ring ?s))"
    using spsc_counts(4)[of ?s] ring_rep_last(4)[OF spsc_invD(1)[of ?s]] inv1 s(3) by simp_all
  have pc: "q_push ?s = Push_loaded 9 2" by simp
  have "\<not> rb_full 2 (rb_head (q_ring ?s) ! 1) (q_ring ?s)"
    using push_check(1)[OF _ pc k] inv1 s(2) by simp
  from reach_step[OF r1 push_room[OF pc k this]]
  have "spsc_reach 2 (?s\<lparr>q_push := Push_room 9 2, q_hview := 1\<rparr>)" .
  from ring_never_races[OF this cap] this show ?thesis by (intro exI conjI) (assumption | simp)+
qed

text \<open>
  C12: First in, first out: at every moment the values popped are a prefix of those pushed, in order,
  none lost and none twice, and at most the rounded capacity is in flight.
\<close>

theorem ring_fifo:
  assumes "spsc_reach capacity s" and "unat capacity \<le> 2 ^ 63"
  shows "prefix (q_got s) (q_sent s) \<and>
    length (q_sent s) - length (q_got s) \<le> unat (rb_round_up_pow2 capacity)"
  using spsc_inv_fifo[of s] spsc_reach_inv[OF assms] by auto

theorem ring_fifo_witness:
  "\<exists>s :: nat spsc. spsc_reach 2 s \<and> q_sent s = [7, 8] \<and> q_got s = [7] \<and> prefix (q_got s) (q_sent s)"
proof -
  obtain s :: "nat spsc" where "spsc_reach 2 s" "q_sent s = [7, 8]" "q_got s = [7]"
    by (rule sample_spsc)
  with ring_fifo[of 2 s] show ?thesis by auto
qed

lemma spsc_replies:
  assumes "spsc_reach capacity s" and "unat capacity \<le> 2 ^ 63" and "spsc_step s ev (Some s')"
  shows "ev = Push_return v False \<Longrightarrow>
      length (q_sent s) = q_hview s' + unat (rb_round_up_pow2 capacity) \<and>
      q_hview s \<le> q_hview s' \<and> q_hview s' \<le> length (q_got s)"
    and "ev = Pop_return None \<Longrightarrow>
      q_tview s' = length (q_got s) \<and> q_tview s \<le> q_tview s' \<and> q_tview s' \<le> length (q_sent s)"
proof -
  have inv: "spsc_inv s" "ring_cap (q_ring s) = unat (rb_round_up_pow2 capacity)"
    using spsc_reach_inv[OF assms(1,2)] by simp_all
  {
    assume "ev = Push_return v False"
    then obtain tail k where p: "q_push s = Push_loaded v tail" "q_hview s \<le> k"
      "k < length (rb_head (q_ring s))" "rb_full tail (rb_head (q_ring s) ! k) (q_ring s)"
      "q_hview s' = k"
      using assms(3) by (auto elim: push_returnE)
    show "length (q_sent s) = q_hview s' + unat (rb_round_up_pow2 capacity) \<and>
        q_hview s \<le> q_hview s' \<and> q_hview s' \<le> length (q_got s)"
      using push_check[OF inv(1) p(1-3)] p inv(2) by simp
  next
    assume "ev = Pop_return None"
    then obtain head m where c: "q_pop s = Pop_loaded head" "q_tview s \<le> m"
      "m < length (rb_tail (q_ring s))" "head = rb_tail (q_ring s) ! m" "q_tview s' = m"
      using assms(3) by (auto elim: pop_returnE)
    show "q_tview s' = length (q_got s) \<and> q_tview s \<le> q_tview s' \<and> q_tview s' \<le> length (q_sent s)"
      using pop_check[OF inv(1) c(1-3)] c by simp
  }
qed

text \<open>
  C35: Honest replies: a push is refused only when the pushes exceed the pops that the producer has
  just acquired by the whole capacity, and a pop finds nothing only when it has taken every push
  that it has just acquired; the values acquired never go back.
\<close>

theorem ring_replies_honest:
  assumes "spsc_reach capacity s" and "unat capacity \<le> 2 ^ 63" and "spsc_step s ev (Some s')"
  shows "(ev = Push_return v False \<longrightarrow>
      length (q_sent s) = q_hview s' + unat (rb_round_up_pow2 capacity) \<and>
      q_hview s \<le> q_hview s' \<and> q_hview s' \<le> length (q_got s)) \<and>
    (ev = Pop_return None \<longrightarrow>
      q_tview s' = length (q_got s) \<and> q_tview s \<le> q_tview s' \<and> q_tview s' \<le> length (q_sent s))"
  using spsc_replies[OF assms] by blast

theorem ring_replies_honest_witness:
  "\<exists>s s' :: nat spsc. spsc_reach 2 s \<and> spsc_step s (Pop_return None) (Some s') \<and>
     q_tview s' = length (q_got s)"
proof -
  let ?s = "(spsc_new 2 :: nat spsc)\<lparr>q_pop := Pop_loaded 0\<rparr>"
  have "spsc_step (spsc_new 2 :: nat spsc) Pop_call (Some ?s)"
    using pop_load[of "spsc_new 2 :: nat spsc"] by (simp add: spsc_new_def rb_new_def Let_def)
  then have r: "spsc_reach 2 ?s" by (rule reach_step[OF reach_new])
  have step: "spsc_step ?s (Pop_return None) (Some (?s\<lparr>q_pop := Pop_idle, q_tview := 0\<rparr>))"
    by (rule pop_empty[of _ 0]) (simp_all add: spsc_new_def rb_new_def Let_def)
  have cap: "unat (2 :: 64 word) \<le> 2 ^ 63" by simp
  show ?thesis using ring_replies_honest[OF r cap step] r step by blast
qed

end
