(* ===== verification/RiskControls.thy ===== *)
theory RiskControls
  imports Types
begin

text \<open>
  The pre-trade risk gate of \<open>include/obe/RiskControls.hpp\<close> and \<open>src/RiskControls.cpp\<close>.

  The atomics are plain fields: the matching thread is the only one that checks orders, and the
  admin thread's write to the kill switch is an event of its own between two checks.  \<open>None\<close> is
  the signed overflow of the collar's subtraction, which is undefined behaviour.
\<close>

section \<open>Data\<close>

datatype reject_reason =
  Accepted | MaxOrderSize | MaxNotional | PriceCollar | KillSwitch | DuplicateOrder

definition reject_reason_to_string :: "reject_reason \<Rightarrow> string" where
  "reject_reason_to_string r =
     (case r of
        Accepted \<Rightarrow> ''ACCEPTED''
      | MaxOrderSize \<Rightarrow> ''MAX_ORDER_SIZE''
      | MaxNotional \<Rightarrow> ''MAX_NOTIONAL''
      | PriceCollar \<Rightarrow> ''PRICE_COLLAR''
      | KillSwitch \<Rightarrow> ''KILL_SWITCH''
      | DuplicateOrder \<Rightarrow> ''DUPLICATE_ORDER'')"

record risk_config =
  max_order_size :: quantity
  max_notional :: "64 word"
  collar_bps :: "32 word"
  enforce_unique_ids :: bool

definition risk_config_default :: risk_config where
  "risk_config_default =
     \<lparr>max_order_size = 0, max_notional = 0, collar_bps = 0, enforce_unique_ids = True\<rparr>"

record risk_metrics =
  met_accepted :: "64 word"
  met_max_order_size :: "64 word"
  met_max_notional :: "64 word"
  met_price_collar :: "64 word"
  met_kill_switch :: "64 word"
  met_duplicate :: "64 word"

definition total_rejected :: "risk_metrics \<Rightarrow> 64 word" where
  "total_rejected s =
     met_max_order_size s + met_max_notional s + met_price_collar s + met_kill_switch s +
     met_duplicate s"

record risk_manager =
  rm_cfg :: risk_config
  rm_kill_switch :: bool
  rm_seen_ids :: "order_id set"
  rm_accepted :: "64 word"
  rm_rej_size :: "64 word"
  rm_rej_notional :: "64 word"
  rm_rej_collar :: "64 word"
  rm_rej_kill :: "64 word"
  rm_rej_dup :: "64 word"

definition risk_new :: "risk_config \<Rightarrow> risk_manager" where
  "risk_new cfg =
     \<lparr>rm_cfg = cfg, rm_kill_switch = False, rm_seen_ids = {}, rm_accepted = 0, rm_rej_size = 0,
      rm_rej_notional = 0, rm_rej_collar = 0, rm_rej_kill = 0, rm_rej_dup = 0\<rparr>"

definition engage_kill_switch :: "bool \<Rightarrow> risk_manager \<Rightarrow> risk_manager" where
  "engage_kill_switch on rm = rm\<lparr>rm_kill_switch := on\<rparr>"

definition kill_switch_engaged :: "risk_manager \<Rightarrow> bool" where
  "kill_switch_engaged rm = rm_kill_switch rm"

definition risk_metrics_of :: "risk_manager \<Rightarrow> risk_metrics" where
  "risk_metrics_of rm =
     \<lparr>met_accepted = rm_accepted rm, met_max_order_size = rm_rej_size rm,
      met_max_notional = rm_rej_notional rm, met_price_collar = rm_rej_collar rm,
      met_kill_switch = rm_rej_kill rm, met_duplicate = rm_rej_dup rm\<rparr>"

section \<open>The checks\<close>

definition notional_exceeded :: "risk_config \<Rightarrow> price \<Rightarrow> quantity \<Rightarrow> bool" where
  "notional_exceeded cfg price qty \<longleftrightarrow>
     max_notional cfg \<noteq> 0 \<and> (let notional = bits price * qty in notional > max_notional cfg)"

definition collar_exceeded :: "risk_config \<Rightarrow> price \<Rightarrow> price option \<Rightarrow> bool option" where
  "collar_exceeded cfg price reference =
     (case reference of
        None \<Rightarrow> Some False
      | Some ref \<Rightarrow>
          (if collar_bps cfg \<noteq> 0 \<and> ref > I64 0 then
             do {
               diff \<leftarrow> i64_exact (if price > ref then i64_val price - i64_val ref
                                else i64_val ref - i64_val price);
               let scaled = bits diff * 10000;
               let limit = ucast (collar_bps cfg) * bits ref;
               Some (scaled > limit)
             }
           else Some False))"

definition risk_check ::
    "order_id \<Rightarrow> side \<Rightarrow> price \<Rightarrow> quantity \<Rightarrow> price option \<Rightarrow> risk_manager \<Rightarrow>
     (reject_reason \<times> risk_manager) option" where
  "risk_check oid sd price qty reference rm =
     (let cfg = rm_cfg rm in
      if rm_kill_switch rm then Some (KillSwitch, rm\<lparr>rm_rej_kill := rm_rej_kill rm + 1\<rparr>)
      else if max_order_size cfg \<noteq> 0 \<and> qty > max_order_size cfg then
        Some (MaxOrderSize, rm\<lparr>rm_rej_size := rm_rej_size rm + 1\<rparr>)
      else if notional_exceeded cfg price qty then
        Some (MaxNotional, rm\<lparr>rm_rej_notional := rm_rej_notional rm + 1\<rparr>)
      else
        do {
          away \<leftarrow> collar_exceeded cfg price reference;
          if away then Some (PriceCollar, rm\<lparr>rm_rej_collar := rm_rej_collar rm + 1\<rparr>)
          else if enforce_unique_ids cfg \<and> oid \<in> rm_seen_ids rm then
            Some (DuplicateOrder, rm\<lparr>rm_rej_dup := rm_rej_dup rm + 1\<rparr>)
          else
            (let rm1 = (if enforce_unique_ids cfg then rm\<lparr>rm_seen_ids := insert oid (rm_seen_ids rm)\<rparr>
                        else rm)
             in Some (Accepted, rm1\<lparr>rm_accepted := rm_accepted rm1 + 1\<rparr>))
        })"

section \<open>The rules, in unbounded arithmetic\<close>

definition over_size :: "risk_config \<Rightarrow> quantity \<Rightarrow> bool" where
  "over_size cfg qty \<longleftrightarrow> max_order_size cfg \<noteq> 0 \<and> uint (max_order_size cfg) < uint qty"

definition over_notional :: "risk_config \<Rightarrow> price \<Rightarrow> quantity \<Rightarrow> bool" where
  "over_notional cfg price qty \<longleftrightarrow>
     max_notional cfg \<noteq> 0 \<and> uint (max_notional cfg) < i64_val price * uint qty"

text \<open>More than \<open>collar_bps\<close> hundredths of a percent away from a positive reference.\<close>

definition over_collar :: "risk_config \<Rightarrow> price \<Rightarrow> price option \<Rightarrow> bool" where
  "over_collar cfg price reference \<longleftrightarrow>
     (case reference of
        None \<Rightarrow> False
      | Some ref \<Rightarrow> collar_bps cfg \<noteq> 0 \<and> 0 < i64_val ref \<and>
          uint (collar_bps cfg) * i64_val ref < \<bar>i64_val price - i64_val ref\<bar> * 10000)"

definition risk_verdict ::
    "risk_manager \<Rightarrow> order_id \<Rightarrow> price \<Rightarrow> quantity \<Rightarrow> price option \<Rightarrow> reject_reason" where
  "risk_verdict rm oid price qty reference =
     (if rm_kill_switch rm then KillSwitch
      else if over_size (rm_cfg rm) qty then MaxOrderSize
      else if over_notional (rm_cfg rm) price qty then MaxNotional
      else if over_collar (rm_cfg rm) price reference then PriceCollar
      else if enforce_unique_ids (rm_cfg rm) \<and> oid \<in> rm_seen_ids rm then DuplicateOrder
      else Accepted)"

text \<open>What a verdict does to the manager: one counter, and the id of an accepted order.\<close>

definition record_verdict :: "order_id \<Rightarrow> reject_reason \<Rightarrow> risk_manager \<Rightarrow> risk_manager" where
  "record_verdict oid v rm =
     (case v of
        KillSwitch \<Rightarrow> rm\<lparr>rm_rej_kill := rm_rej_kill rm + 1\<rparr>
      | MaxOrderSize \<Rightarrow> rm\<lparr>rm_rej_size := rm_rej_size rm + 1\<rparr>
      | MaxNotional \<Rightarrow> rm\<lparr>rm_rej_notional := rm_rej_notional rm + 1\<rparr>
      | PriceCollar \<Rightarrow> rm\<lparr>rm_rej_collar := rm_rej_collar rm + 1\<rparr>
      | DuplicateOrder \<Rightarrow> rm\<lparr>rm_rej_dup := rm_rej_dup rm + 1\<rparr>
      | Accepted \<Rightarrow>
          rm\<lparr>rm_seen_ids := (if enforce_unique_ids (rm_cfg rm) then insert oid (rm_seen_ids rm)
               else rm_seen_ids rm),
             rm_accepted := rm_accepted rm + 1\<rparr>)"

text \<open>Where the products of the checks fit 64 bits.\<close>

definition in_range :: "risk_config \<Rightarrow> price \<Rightarrow> quantity \<Rightarrow> price option \<Rightarrow> bool" where
  "in_range cfg price qty reference \<longleftrightarrow>
     0 \<le> i64_val price \<and> i64_val price * uint qty < 2 ^ 64 \<and>
     (case reference of
        None \<Rightarrow> True
      | Some ref \<Rightarrow> 0 < i64_val ref \<longrightarrow>
          \<bar>i64_val price - i64_val ref\<bar> * 10000 < 2 ^ 64 \<and>
          uint (collar_bps cfg) * i64_val ref < 2 ^ 64)"

section \<open>The code follows the rules\<close>

lemma uint_mult_exact:
  fixes a b :: "64 word"
  shows "uint a * uint b < 2 ^ 64 \<Longrightarrow> uint (a * b) = uint a * uint b"
  by (simp add: uint_word_ariths)

lemma notional_exact:
  assumes "0 \<le> i64_val price" "i64_val price * uint qty < 2 ^ 64"
  shows "notional_exceeded cfg price qty \<longleftrightarrow> over_notional cfg price qty"
  using assms uint_mult_exact[of "bits price" qty]
  by (simp add: notional_exceeded_def over_notional_def Let_def word_less_def uint_bits)

lemma collar_exact:
  assumes "in_range cfg price qty reference"
  shows "collar_exceeded cfg price reference = Some (over_collar cfg price reference)"
proof (cases reference)
  case None
  then show ?thesis by (simp add: collar_exceeded_def over_collar_def)
next
  case (Some ref)
  have pos: "ref > I64 0 \<longleftrightarrow> 0 < i64_val ref" by (simp add: less_i64_def i64_val_def)
  show ?thesis
  proof (cases "collar_bps cfg \<noteq> 0 \<and> 0 < i64_val ref")
    case True
    let ?d = "\<bar>i64_val price - i64_val ref\<bar>"
    have r: "0 \<le> i64_val price" "?d * 10000 < 2 ^ 64" "uint (collar_bps cfg) * i64_val ref < 2 ^ 64"
      using assms Some True by (auto simp: in_range_def)
    have d: "(if price > ref then i64_val price - i64_val ref else i64_val ref - i64_val price) = ?d"
      by (simp add: less_i64_def)
    have "- (2 ^ 63) \<le> ?d" "?d < 2 ^ 63" using r(2) by simp_all
    then obtain diff where diff: "i64_exact ?d = Some diff" "i64_val diff = ?d"
      using i64_exact_Some by blast
    have "uint (bits diff * 10000) = ?d * 10000"
      using uint_mult_exact[of "bits diff" 10000] r(2) uint_bits[of diff] diff(2) by simp
    moreover have "uint (ucast (collar_bps cfg) * bits ref) = uint (collar_bps cfg) * i64_val ref"
      using uint_mult_exact[of "ucast (collar_bps cfg)" "bits ref"] r(3) True
      by (simp add: uint_bits uint_up_ucast is_up)
    ultimately show ?thesis
      using True Some diff(1) pos
      by (simp add: collar_exceeded_def over_collar_def d word_less_def del: i64_val_inject)
  next
    case False
    then show ?thesis using Some pos by (auto simp: collar_exceeded_def over_collar_def)
  qed
qed

lemma record_verdict_simps [simp]:
  "rm_cfg (record_verdict oid v rm) = rm_cfg rm"
  "rm_kill_switch (record_verdict oid v rm) = rm_kill_switch rm"
  by (cases v; simp add: record_verdict_def)+

text \<open>Whatever the verdict is, it is recorded as it should be.\<close>

lemma risk_check_records:
  "risk_check oid sd price qty reference rm = Some (v, rm') \<Longrightarrow> rm' = record_verdict oid v rm"
  by (auto simp: risk_check_def record_verdict_def Let_def bind_eq_Some_conv split: if_splits)

lemma risk_check_verdict:
  assumes "in_range (rm_cfg rm) price qty reference"
  shows "risk_check oid sd price qty reference rm =
    (let v = risk_verdict rm oid price qty reference in Some (v, record_verdict oid v rm))"
proof -
  have "notional_exceeded (rm_cfg rm) price qty \<longleftrightarrow> over_notional (rm_cfg rm) price qty"
    using assms by (intro notional_exact) (auto simp: in_range_def)
  then show ?thesis
    unfolding risk_check_def Let_def collar_exact[OF assms]
    by (simp add: risk_verdict_def record_verdict_def over_size_def word_less_def)
qed

text \<open>The only undefined behaviour is the overflow of the collar's subtraction.\<close>

lemma risk_check_defined:
  assumes "0 \<le> i64_val price"
  shows "risk_check oid sd price qty reference rm \<noteq> None"
proof -
  have "collar_exceeded (rm_cfg rm) price reference \<noteq> None"
  proof (cases reference)
    case (Some ref)
    have "i64_exact (if price > ref then i64_val price - i64_val ref
        else i64_val ref - i64_val price) \<noteq> None" if "ref > I64 0"
      using that assms i64_val_bounds[of price] i64_val_bounds[of ref]
      by (auto simp: i64_exact_def less_i64_def i64_val_def)
    then show ?thesis using Some by (auto simp: collar_exceeded_def)
  qed (simp add: collar_exceeded_def)
  then show ?thesis by (auto simp: risk_check_def Let_def)
qed

section \<open>Sessions\<close>

text \<open>A session: the orders that are checked, with the switch thrown in between.\<close>

datatype risk_event = Check order_id side price quantity "price option" | Throw bool

fun risk_session ::
    "risk_event list \<Rightarrow> risk_manager \<Rightarrow> ((order_id \<times> reject_reason) list \<times> risk_manager) option" where
  "risk_session [] rm = Some ([], rm)"
| "risk_session (Check oid sd price qty reference # es) rm =
     do {
       (v, rm1) \<leftarrow> risk_check oid sd price qty reference rm;
       (vs, rm2) \<leftarrow> risk_session es rm1;
       Some ((oid, v) # vs, rm2)
     }"
| "risk_session (Throw on # es) rm = risk_session es (engage_kill_switch on rm)"

definition accepted_ids :: "(order_id \<times> reject_reason) list \<Rightarrow> order_id list" where
  "accepted_ids vs = map fst (filter (\<lambda>(_, v). v = Accepted) vs)"

lemma accepted_ids_simps [simp]:
  "accepted_ids [] = []"
  "accepted_ids ((oid, v) # vs) = (if v = Accepted then oid # accepted_ids vs else accepted_ids vs)"
  by (simp_all add: accepted_ids_def)

lemma risk_check_unique:
  assumes "risk_check oid sd price qty reference rm = Some (v, rm')"
    and "enforce_unique_ids (rm_cfg rm)"
  shows "v = Accepted \<Longrightarrow> oid \<notin> rm_seen_ids rm"
    and "rm_seen_ids rm' = (if v = Accepted then insert oid (rm_seen_ids rm) else rm_seen_ids rm)"
  using assms by (auto simp: risk_check_def Let_def bind_eq_Some_conv split: if_splits)

lemma risk_session_unique:
  "risk_session es rm = Some (vs, rm') \<Longrightarrow> enforce_unique_ids (rm_cfg rm) \<Longrightarrow>
   distinct (accepted_ids vs) \<and> set (accepted_ids vs) \<inter> rm_seen_ids rm = {}"
proof (induction es rm arbitrary: vs rm' rule: risk_session.induct)
  case (2 oid sd price qty reference es rm)
  obtain v rm1 where c: "risk_check oid sd price qty reference rm = Some (v, rm1)"
    using "2.prems"(1) by (auto simp: bind_eq_Some_conv)
  then obtain us where u: "risk_session es rm1 = Some (us, rm')" "vs = (oid, v) # us"
    using "2.prems"(1) by (auto simp: bind_eq_Some_conv)
  have "enforce_unique_ids (rm_cfg rm1)"
    using risk_check_records[OF c] "2.prems"(2) by simp
  from "2.IH"[OF c refl u(1) this] show ?case
    using u(2) risk_check_unique[OF c "2.prems"(2)] by (auto split: if_splits)
qed (auto simp: engage_kill_switch_def)

text \<open>Every check is counted once.\<close>

definition checks_counted :: "risk_manager \<Rightarrow> 64 word" where
  "checks_counted rm = met_accepted (risk_metrics_of rm) + total_rejected (risk_metrics_of rm)"

lemma checks_counted_record: "checks_counted (record_verdict oid v rm) = checks_counted rm + 1"
  by (cases v) (simp_all add: checks_counted_def risk_metrics_of_def total_rejected_def record_verdict_def)

lemma risk_session_counts:
  "risk_session es rm = Some (vs, rm') \<Longrightarrow>
   checks_counted rm' = checks_counted rm + of_nat (length vs) \<and>
   rm_accepted rm' = rm_accepted rm + of_nat (length (accepted_ids vs))"
proof (induction es rm arbitrary: vs rm' rule: risk_session.induct)
  case (2 oid sd price qty reference es rm)
  obtain v rm1 where c: "risk_check oid sd price qty reference rm = Some (v, rm1)"
    using "2.prems"(1) by (auto simp: bind_eq_Some_conv)
  then obtain us where u: "risk_session es rm1 = Some (us, rm')" "vs = (oid, v) # us"
    using "2.prems"(1) by (auto simp: bind_eq_Some_conv)
  have rm1: "rm1 = record_verdict oid v rm" by (rule risk_check_records[OF c])
  have "rm_accepted rm1 = rm_accepted rm + (if v = Accepted then 1 else 0)"
    unfolding rm1 by (cases v) (simp_all add: record_verdict_def)
  then show ?case
    using "2.IH"[OF c refl u(1)] u(2) checks_counted_record[of oid v rm, folded rm1] by simp
qed (auto simp: engage_kill_switch_def checks_counted_def risk_metrics_of_def)

section \<open>Properties\<close>

text \<open>
  C28: Where its products fit 64 bits, the gate decides as the rules do in unbounded arithmetic - kill
  switch, size, notional, collar, duplicate id, in this order - and records exactly its verdict.
\<close>

theorem risk_check_follows_rules:
  assumes "in_range (rm_cfg rm) price qty reference"
  shows "risk_check oid sd price qty reference rm =
    Some (risk_verdict rm oid price qty reference,
      record_verdict oid (risk_verdict rm oid price qty reference) rm)"
  using risk_check_verdict[OF assms] by (simp add: Let_def)

definition sample_config :: risk_config where
  "sample_config =
     \<lparr>max_order_size = 100, max_notional = 5000, collar_bps = 500, enforce_unique_ids = True\<rparr>"

lemma i64_val_I64: "i64_val (I64 w) = sint w"
  by (simp add: i64_val_def)

theorem risk_check_follows_rules_witness:
  "risk_check 7 Buy (I64 104) 10 (Some (I64 100)) (risk_new sample_config) =
     Some (Accepted, record_verdict 7 Accepted (risk_new sample_config)) \<and>
   risk_check 7 Buy (I64 106) 10 (Some (I64 100)) (risk_new sample_config) =
     Some (PriceCollar, record_verdict 7 PriceCollar (risk_new sample_config))"
  using risk_check_follows_rules[of "risk_new sample_config" "I64 104" 10 "Some (I64 100)" 7 Buy]
    risk_check_follows_rules[of "risk_new sample_config" "I64 106" 10 "Some (I64 100)" 7 Buy]
  by (simp add: in_range_def risk_verdict_def over_size_def over_notional_def over_collar_def
      risk_new_def sample_config_def i64_val_I64)

text \<open>
  C36: When the configuration enforces unique ids, a session never accepts an order id twice, whatever
  else it checks and however the kill switch is thrown.
\<close>

theorem accepted_ids_unique:
  assumes "risk_session es (risk_new cfg) = Some (vs, rm)" and "enforce_unique_ids cfg"
  shows "distinct (accepted_ids vs)"
  using risk_session_unique[OF assms(1)] assms(2) by (simp add: risk_new_def)

definition sample_session :: "risk_event list" where
  "sample_session = [Check 1 Buy (I64 10) 5 None, Check 1 Sell (I64 11) 5 None]"

theorem accepted_ids_unique_witness:
  "\<exists>vs rm. risk_session sample_session (risk_new sample_config) = Some (vs, rm) \<and>
     distinct (accepted_ids vs)"
proof -
  obtain rm where "risk_session sample_session (risk_new sample_config) =
      Some ([(1, Accepted), (1, DuplicateOrder)], rm)"
    by (simp add: sample_session_def sample_config_def risk_new_def risk_check_def Let_def
        notional_exceeded_def collar_exceeded_def)
  then show ?thesis using accepted_ids_unique[of sample_session sample_config]
    by (auto simp: sample_config_def)
qed

text \<open>
  Every check is counted exactly once, as accepted or under its reason, modulo \<open>2 ^ 64\<close>.
\<close>

theorem risk_counters_total:
  assumes "risk_session es (risk_new cfg) = Some (vs, rm)"
  shows "met_accepted (risk_metrics_of rm) = of_nat (length (accepted_ids vs)) \<and>
    total_rejected (risk_metrics_of rm) = of_nat (length vs - length (accepted_ids vs))"
proof (intro conjI)
  have c: "checks_counted rm = of_nat (length vs)" "rm_accepted rm = of_nat (length (accepted_ids vs))"
    using risk_session_counts[OF assms]
    by (auto simp: risk_new_def checks_counted_def risk_metrics_of_def total_rejected_def)
  then show "met_accepted (risk_metrics_of rm) = of_nat (length (accepted_ids vs))"
    by (simp add: risk_metrics_of_def)
  have "length (accepted_ids vs) \<le> length vs" by (simp add: accepted_ids_def)
  then show "total_rejected (risk_metrics_of rm) = of_nat (length vs - length (accepted_ids vs))"
    using c by (auto simp: checks_counted_def risk_metrics_of_def of_nat_diff algebra_simps)
qed

theorem risk_counters_total_witness:
  "\<exists>vs rm. risk_session sample_session (risk_new sample_config) = Some (vs, rm) \<and>
     met_accepted (risk_metrics_of rm) = 1 \<and> total_rejected (risk_metrics_of rm) = 1"
proof -
  obtain rm where run: "risk_session sample_session (risk_new sample_config) =
      Some ([(1, Accepted), (1, DuplicateOrder)], rm)"
    by (simp add: sample_session_def sample_config_def risk_new_def risk_check_def Let_def
        notional_exceeded_def collar_exceeded_def)
  then show ?thesis using risk_counters_total[OF run] by auto
qed

text \<open>
  With the kill switch engaged nothing gets through: the order is refused, counted, and its id
  stays free.
\<close>

theorem kill_switch_halts:
  "risk_check oid sd price qty reference (engage_kill_switch True rm) =
     Some (KillSwitch, (engage_kill_switch True rm)\<lparr>rm_rej_kill := rm_rej_kill rm + 1\<rparr>)"
  by (simp add: risk_check_def engage_kill_switch_def)

text \<open>
  The notional cap can be bypassed: the product wraps, so that an order of \<open>2 ^ 32\<close> units at
  \<open>2 ^ 32\<close> ticks passes a cap of 1000 that it exceeds by far.
\<close>

theorem notional_cap_wraps:
  "over_notional (risk_config_default\<lparr>max_notional := 1000\<rparr>) (I64 4294967296) 4294967296 \<and>
   (\<exists>rm. risk_check 1 Buy (I64 4294967296) 4294967296 None
      (risk_new (risk_config_default\<lparr>max_notional := 1000\<rparr>)) = Some (Accepted, rm))"
  by (simp add: over_notional_def risk_config_default_def i64_val_I64 risk_check_def risk_new_def
      notional_exceeded_def collar_exceeded_def)

text \<open>
  The collar's subtraction is undefined for some inputs, and only for negative prices: any
  session whose prices are not negative runs to its end.
\<close>

theorem risk_session_defined:
  assumes "\<forall>e \<in> set es. case e of Check oid sd price qty reference \<Rightarrow> 0 \<le> i64_val price | _ \<Rightarrow> True"
  shows "risk_session es rm \<noteq> None \<and>
    risk_check 1 Buy (I64 (- (2 ^ 63))) 1 (Some (I64 1))
      (risk_new (risk_config_default\<lparr>collar_bps := 1\<rparr>)) = None"
proof (intro conjI)
  show "risk_session es rm \<noteq> None"
    using assms
  proof (induction es rm rule: risk_session.induct)
    case (2 oid sd price qty reference es rm)
    have "0 \<le> i64_val price" using "2.prems" by simp
    then obtain v rm1 where c: "risk_check oid sd price qty reference rm = Some (v, rm1)"
      using risk_check_defined by fastforce
    show ?case using "2.IH"[OF c refl] "2.prems" c by auto
  qed simp_all
  show "risk_check 1 Buy (I64 (- (2 ^ 63))) 1 (Some (I64 1))
      (risk_new (risk_config_default\<lparr>collar_bps := 1\<rparr>)) = None"
    by (simp add: risk_check_def risk_new_def risk_config_default_def notional_exceeded_def
        collar_exceeded_def i64_exact_def i64_val_I64 less_i64_def)
qed

theorem risk_session_defined_witness:
  "risk_session sample_session (risk_new sample_config) \<noteq> None"
  by (rule conjunct1[OF risk_session_defined]) (simp add: sample_session_def i64_val_I64)

end
