(* ===== verification/EventLog.thy ===== *)
theory EventLog
  imports Types "HOL-Library.Sublist"
begin

text \<open>
  The journal of \<open>include/obe/EventLog.hpp\<close> and \<open>src/EventLog.cpp\<close>: the fixed-width records,
  the writer, the reader.

  A file is the list of its bytes.  The integers are in the byte order of the host, a parameter
  of the model.  What the writer's stream holds is split into the bytes that have been flushed
  and the rest: after a crash, the file is any prefix that has at least the flushed bytes.
  Failing writes (a full disk) are not modelled; the code does not check for them.
\<close>

section \<open>Integers as bytes\<close>

type_synonym byte = "8 word"

datatype byte_order = LittleEndian | BigEndian

fun le_bytes :: "nat \<Rightarrow> 'a::len word \<Rightarrow> byte list" where
  "le_bytes 0 w = []"
| "le_bytes (Suc n) w = ucast w # le_bytes n (drop_bit 8 w)"

fun le_word :: "byte list \<Rightarrow> 'a::len word" where
  "le_word [] = 0"
| "le_word (b # bs) = ucast b OR push_bit 8 (le_word bs)"

text \<open>\<open>std::memcpy\<close> from and to an integer of \<open>n\<close> bytes.\<close>

definition to_bytes :: "byte_order \<Rightarrow> nat \<Rightarrow> 'a::len word \<Rightarrow> byte list" where
  "to_bytes bo n w = (case bo of LittleEndian \<Rightarrow> le_bytes n w | BigEndian \<Rightarrow> rev (le_bytes n w))"

definition of_bytes :: "byte_order \<Rightarrow> byte list \<Rightarrow> 'a::len word" where
  "of_bytes bo bs = (case bo of LittleEndian \<Rightarrow> le_word bs | BigEndian \<Rightarrow> le_word (rev bs))"

lemma length_le_bytes [simp]: "length (le_bytes n w) = n"
  by (induction n arbitrary: w) auto

lemma length_to_bytes [simp]: "length (to_bytes bo n w) = n"
  by (simp add: to_bytes_def split: byte_order.splits)

lemma le_word_le_bytes: "le_word (le_bytes n w) = take_bit (8 * n) (w :: 'a::len word)"
proof (induction n arbitrary: w)
  case (Suc n)
  show ?case
  proof (rule bit_word_eqI)
    fix i assume "i < LENGTH('a)"
    then show "bit (le_word (le_bytes (Suc n) w) :: 'a word) i \<longleftrightarrow> bit (take_bit (8 * Suc n) w) i"
      by (cases "i < 8")
        (auto simp: Suc.IH bit_or_iff bit_ucast_iff bit_push_bit_iff bit_take_bit_iff bit_drop_bit_eq)
  qed
qed simp

lemma of_to_bytes: "LENGTH('a) \<le> 8 * n \<Longrightarrow> of_bytes bo (to_bytes bo n w) = (w :: 'a::len word)"
  by (simp add: of_bytes_def to_bytes_def le_word_le_bytes take_bit_word_eq_self split: byte_order.splits)

lemma le_bytes_le_word:
  "8 * length bs \<le> LENGTH('a) \<Longrightarrow> le_bytes (length bs) (le_word bs :: 'a::len word) = bs"
proof (induction bs)
  case (Cons b bs)
  have "ucast (ucast b OR push_bit 8 (le_word bs) :: 'a word) = b"
    using Cons.prems
    by (intro bit_word_eqI) (auto simp: bit_ucast_iff bit_or_iff bit_push_bit_iff)
  moreover have "le_bytes (length bs) (drop_bit 8 (ucast b OR push_bit 8 (le_word bs)) :: 'a word) = bs"
  proof -
    have eq: "drop_bit 8 (ucast b OR push_bit 8 (le_word bs)) = take_bit (LENGTH('a) - 8) (le_word bs :: 'a word)"
      by (rule bit_word_eqI)
        (auto simp: bit_drop_bit_eq bit_or_iff bit_ucast_iff bit_push_bit_iff bit_take_bit_iff
          dest: bit_imp_le_length)
    have "le_bytes n (take_bit k w) = le_bytes n w" if "8 * n \<le> k" for n k and w :: "'a word"
      using that
    proof (induction n arbitrary: k w)
      case (Suc n)
      have "ucast (take_bit k w) = (ucast w :: byte)"
        using Suc.prems by (intro bit_word_eqI) (auto simp: bit_ucast_iff bit_take_bit_iff)
      moreover have "drop_bit 8 (take_bit k w) = take_bit (k - 8) (drop_bit 8 w)"
        by (simp add: drop_bit_take_bit)
      ultimately show ?case using Suc.IH[of "k - 8"] Suc.prems by simp
    qed simp
    then show ?thesis unfolding eq using Cons by simp
  qed
  ultimately show ?case by simp
qed simp

lemma to_of_bytes:
  "length bs = n \<Longrightarrow> 8 * n \<le> LENGTH('a) \<Longrightarrow> to_bytes bo n (of_bytes bo bs :: 'a::len word) = bs"
  using le_bytes_le_word[where 'a = 'a, of bs] le_bytes_le_word[where 'a = 'a, of "rev bs"]
  by (auto simp: of_bytes_def to_bytes_def split: byte_order.splits)

section \<open>Enumerators as bytes\<close>

text \<open>\<open>static_cast\<close> between the enumerations and \<open>std::uint8_t\<close>.\<close>

fun side_byte :: "side \<Rightarrow> byte" where
  "side_byte Buy = 0" | "side_byte Sell = 1" | "side_byte (Side_unnamed b) = b"

definition byte_side :: "byte \<Rightarrow> side" where
  "byte_side b = (if b = 0 then Buy else if b = 1 then Sell else Side_unnamed b)"

fun order_type_byte :: "order_type \<Rightarrow> byte" where
  "order_type_byte Limit = 0" | "order_type_byte IOC = 1" | "order_type_byte FOK = 2"
| "order_type_byte Stop = 3" | "order_type_byte (OrderType_unnamed b) = b"

definition byte_order_type :: "byte \<Rightarrow> order_type" where
  "byte_order_type b =
     (if b = 0 then Limit else if b = 1 then IOC else if b = 2 then FOK else if b = 3 then Stop
      else OrderType_unnamed b)"

fun command_type_byte :: "command_type \<Rightarrow> byte" where
  "command_type_byte Submit = 0" | "command_type_byte Cancel = 1"
| "command_type_byte Shutdown = 2" | "command_type_byte (CommandType_unnamed b) = b"

definition byte_command_type :: "byte \<Rightarrow> command_type" where
  "byte_command_type b =
     (if b = 0 then Submit else if b = 1 then Cancel else if b = 2 then Shutdown
      else CommandType_unnamed b)"

lemma byte_enum_inverse [simp]:
  "side_byte (byte_side b) = b" "order_type_byte (byte_order_type b) = b"
  "command_type_byte (byte_command_type b) = b"
  by (simp_all add: byte_side_def byte_order_type_def byte_command_type_def)

text \<open>
  A value of an enumeration is its byte: the constructors for unnamed bytes hold no byte that
  has an enumerator.
\<close>

definition command_canonical :: "command \<Rightarrow> bool" where
  "command_canonical c \<longleftrightarrow>
     byte_command_type (command_type_byte (c_type c)) = c_type c \<and>
     byte_order_type (order_type_byte (c_order_type c)) = c_order_type c \<and>
     byte_side (side_byte (c_side c)) = c_side c"

section \<open>Records\<close>

definition kMagic :: "byte list" where
  "kMagic = [0x4F, 0x42, 0x45, 0x4C]"

definition kVersion :: "32 word" where
  "kVersion = 1"

definition kRecordSize :: nat where
  "kRecordSize = 40"

text \<open>Writing and reading a field of a buffer.\<close>

definition blit :: "nat \<Rightarrow> byte list \<Rightarrow> byte list \<Rightarrow> byte list" where
  "blit off bs buf = take off buf @ bs @ drop (off + length bs) buf"

definition slice :: "nat \<Rightarrow> nat \<Rightarrow> byte list \<Rightarrow> byte list" where
  "slice off n buf = take n (drop off buf)"

definition encode :: "byte_order \<Rightarrow> command \<Rightarrow> byte list" where
  "encode bo c =
     (let buf0 = replicate kRecordSize 0;
          buf1 = buf0[0 := command_type_byte (c_type c)];
          buf2 = buf1[1 := order_type_byte (c_order_type c)];
          buf3 = buf2[2 := side_byte (c_side c)];
          buf4 = blit 4 (to_bytes bo 4 (c_trader c)) buf3;
          buf5 = blit 8 (to_bytes bo 8 (c_id c)) buf4;
          buf6 = blit 16 (to_bytes bo 8 (bits (c_price c))) buf5;
          buf7 = blit 24 (to_bytes bo 8 (c_quantity c)) buf6
      in blit 32 (to_bytes bo 8 (bits (c_trigger_price c))) buf7)"

definition decode :: "byte_order \<Rightarrow> byte list \<Rightarrow> command" where
  "decode bo buf =
     \<lparr>c_type = byte_command_type (buf ! 0), c_order_type = byte_order_type (buf ! 1),
      c_id = of_bytes bo (slice 8 8 buf), c_trader = of_bytes bo (slice 4 4 buf),
      c_side = byte_side (buf ! 2), c_price = I64 (of_bytes bo (slice 16 8 buf)),
      c_quantity = of_bytes bo (slice 24 8 buf), c_trigger_price = I64 (of_bytes bo (slice 32 8 buf))\<rparr>"

lemma blit_at:
  "off = length xs \<Longrightarrow> blit off bs (xs @ replicate n 0) = (xs @ bs) @ replicate (n - length bs) 0"
  by (simp add: blit_def)

lemma encode_layout:
  "encode bo c =
     [command_type_byte (c_type c), order_type_byte (c_order_type c), side_byte (c_side c), 0] @
     to_bytes bo 4 (c_trader c) @ to_bytes bo 8 (c_id c) @ to_bytes bo 8 (bits (c_price c)) @
     to_bytes bo 8 (c_quantity c) @ to_bytes bo 8 (bits (c_trigger_price c))"
proof -
  let ?h = "[command_type_byte (c_type c), order_type_byte (c_order_type c), side_byte (c_side c), 0]"
  have head: "(replicate kRecordSize 0)[0 := command_type_byte (c_type c),
      1 := order_type_byte (c_order_type c), 2 := side_byte (c_side c)] = ?h @ replicate 36 0"
    by (simp add: kRecordSize_def numeral_eq_Suc)
  have "encode bo c = ((((?h @ to_bytes bo 4 (c_trader c)) @ to_bytes bo 8 (c_id c)) @
      to_bytes bo 8 (bits (c_price c))) @ to_bytes bo 8 (c_quantity c)) @
      to_bytes bo 8 (bits (c_trigger_price c)) @ replicate 0 0"
    unfolding encode_def Let_def head
    by (simp add: blit_at del: append_assoc append_Cons append_Nil append.simps)
  then show ?thesis by simp
qed

lemma length_encode [simp]: "length (encode bo c) = kRecordSize"
  by (simp add: encode_layout kRecordSize_def)

lemma decode_encode:
  assumes "command_canonical c"
  shows "decode bo (encode bo c) = c"
proof -
  have "I64 (bits p) = p" for p by (cases p) simp
  then show ?thesis
    using assms
    by (cases c) (simp add: decode_def encode_layout slice_def of_to_bytes command_canonical_def)
qed

text \<open>Every record is one that a command has, up to the padding byte.\<close>

lemma encode_decode:
  assumes len: "length buf = kRecordSize" and pad: "buf ! 3 = 0"
  shows "encode bo (decode bo buf) = buf"
proof -
  have s: "length (slice off n buf) = n" if "off + n \<le> 40" for off n
    using that len by (simp add: slice_def kRecordSize_def)
  have "take 4 buf = [buf ! 0, buf ! 1, buf ! 2, buf ! 3]"
    using len by (intro nth_equalityI) (auto simp: kRecordSize_def less_Suc_eq numeral_eq_Suc)
  moreover have "buf = take 4 buf @ slice 4 4 buf @ slice 8 8 buf @ slice 16 8 buf @
      slice 24 8 buf @ slice 32 8 buf"
  proof -
    have "drop off buf = slice off n buf @ drop (off + n) buf" for off n
      by (simp add: slice_def flip: drop_drop add.commute)
    from this[of 4 4] this[of 8 8] this[of 16 8] this[of 24 8] this[of 32 8] show ?thesis
      using len append_take_drop_id[of 4 buf] by (simp add: kRecordSize_def)
  qed
  ultimately have "buf = [buf ! 0, buf ! 1, buf ! 2, buf ! 3] @ slice 4 4 buf @ slice 8 8 buf @
      slice 16 8 buf @ slice 24 8 buf @ slice 32 8 buf" by simp
  then show ?thesis
    using pad s by (simp add: encode_layout decode_def to_of_bytes)
qed

lemma decode_canonical: "command_canonical (decode bo buf)"
  by (simp add: command_canonical_def decode_def)

section \<open>The writer\<close>

datatype log_error = CannotOpen | BadMagic | UnsupportedVersion

record log_writer =
  lw_bytes :: "byte list"
  lw_flushed :: nat
  lw_count :: "64 word"

text \<open>The constructor; \<open>opened\<close> is whether the file system lets the file be opened.\<close>

definition log_open :: "byte_order \<Rightarrow> bool \<Rightarrow> log_error + log_writer" where
  "log_open bo opened =
     (if opened then
        Inr \<lparr>lw_bytes = kMagic @ to_bytes bo 4 kVersion, lw_flushed = 0, lw_count = 0\<rparr>
      else Inl CannotOpen)"

definition log_append :: "byte_order \<Rightarrow> command \<Rightarrow> log_writer \<Rightarrow> log_writer" where
  "log_append bo cmd w =
     (if c_type cmd = Shutdown then w
      else w\<lparr>lw_bytes := lw_bytes w @ encode bo cmd, lw_count := lw_count w + 1\<rparr>)"

definition log_flush :: "log_writer \<Rightarrow> log_writer" where
  "log_flush w = w\<lparr>lw_flushed := length (lw_bytes w)\<rparr>"

text \<open>The destructor flushes and closes; what is left is the file.\<close>

definition log_close :: "log_writer \<Rightarrow> byte list" where
  "log_close w = lw_bytes (log_flush w)"

text \<open>The files that a crash may leave.\<close>

definition may_survive :: "log_writer \<Rightarrow> byte list \<Rightarrow> bool" where
  "may_survive w file \<longleftrightarrow> prefix file (lw_bytes w) \<and> lw_flushed w \<le> length file"

section \<open>The reader\<close>

text \<open>The loop \<open>while (in.read(buf, kRecordSize))\<close>: a short read ends it.\<close>

function read_records :: "byte_order \<Rightarrow> byte list \<Rightarrow> command list" where
  "read_records bo buf =
     (if length buf < kRecordSize then []
      else decode bo (take kRecordSize buf) # read_records bo (drop kRecordSize buf))"
  by pat_completeness auto
termination
  by (relation "measure (\<lambda>(_, buf). length buf)") (auto simp: kRecordSize_def)

declare read_records.simps [simp del]

text \<open>A file that cannot be opened is \<open>None\<close>.\<close>

definition read_event_log :: "byte_order \<Rightarrow> byte list option \<Rightarrow> log_error + command list" where
  "read_event_log bo path =
     (case path of
        None \<Rightarrow> Inl CannotOpen
      | Some file \<Rightarrow>
          (let magic = take 4 file; version = take 4 (drop 4 file) in
           if length version < 4 \<or> magic \<noteq> kMagic then Inl BadMagic
           else if (of_bytes bo version :: 32 word) \<noteq> kVersion then Inl UnsupportedVersion
           else Inr (read_records bo (drop 8 file))))"

section \<open>What is written is read back\<close>

text \<open>The domain events among the commands.\<close>

definition events :: "command list \<Rightarrow> command list" where
  "events cs = filter (\<lambda>c. c_type c \<noteq> Shutdown) cs"

definition journal :: "byte_order \<Rightarrow> command list \<Rightarrow> byte list" where
  "journal bo cs = kMagic @ to_bytes bo 4 kVersion @ concat (map (encode bo) (events cs))"

lemma events_simps [simp]:
  "events [] = []" "events (c # cs) = (if c_type c = Shutdown then events cs else c # events cs)"
  "events (cs @ cs') = events cs @ events cs'"
  by (simp_all add: events_def)

lemma log_appends:
  "fold (log_append bo) cs w =
     w\<lparr>lw_bytes := lw_bytes w @ concat (map (encode bo) (events cs)),
       lw_count := lw_count w + of_nat (length (events cs))\<rparr>"
  by (induction cs arbitrary: w) (simp_all add: log_append_def)

lemma length_records [simp]: "length (concat (map (encode bo) cs)) = kRecordSize * length cs"
  by (induction cs) simp_all

lemma read_records_torn:
  assumes "\<forall>c \<in> set cs. command_canonical c" "length torn < kRecordSize"
  shows "read_records bo (concat (map (encode bo) cs) @ torn) = cs"
  using assms(1)
proof (induction cs)
  case Nil
  then show ?case using assms(2) by (simp add: read_records.simps)
next
  case (Cons c cs)
  then show ?case by (subst read_records.simps) (simp add: decode_encode)
qed

lemma read_journal_header:
  "read_event_log bo (Some (kMagic @ to_bytes bo 4 kVersion @ rest)) = Inr (read_records bo rest)"
proof -
  have len: "length kMagic = 4" by (simp add: kMagic_def)
  then show ?thesis by (simp add: read_event_log_def Let_def of_to_bytes)
qed

lemma read_journal:
  assumes "\<forall>c \<in> set cs. command_canonical c"
  shows "read_event_log bo (Some (journal bo cs)) = Inr (events cs)"
  using read_records_torn[of "events cs" "[]" bo] assms
  by (simp add: journal_def read_journal_header events_def kRecordSize_def)

text \<open>A prefix of a journal that has its header yields a prefix of the events.\<close>

lemma take_records:
  "take n (concat (map (encode bo) cs)) =
   concat (map (encode bo) (take (n div kRecordSize) cs)) @
   take (n mod kRecordSize) (concat (map (encode bo) (drop (n div kRecordSize) cs)))"
proof -
  let ?k = "n div kRecordSize"
  have split: "concat (map (encode bo) cs) =
      concat (map (encode bo) (take ?k cs)) @ concat (map (encode bo) (drop ?k cs))"
    by (metis append_take_drop_id concat_append map_append)
  show ?thesis
  proof (cases "?k \<le> length cs")
    case True
    then have "length (concat (map (encode bo) (take ?k cs))) = kRecordSize * ?k"
      by (simp add: min.absorb2)
    moreover have "kRecordSize * ?k \<le> n" by simp
    moreover have "n - kRecordSize * ?k = n mod kRecordSize" by (rule minus_mult_div_eq_mod)
    ultimately show ?thesis by (subst split) (simp only: take_append take_all)
  next
    case False
    then have "kRecordSize * length cs \<le> n"
      by (metis div_le_mono div_mult_self_is_m linear kRecordSize_def nat_le_linear zero_less_numeral mult.commute)
    then show ?thesis using False by simp
  qed
qed

lemma read_prefix:
  assumes "\<forall>c \<in> set cs. command_canonical c" "prefix file (journal bo cs)" "8 \<le> length file"
  shows "read_event_log bo (Some file) = Inr (take ((length file - 8) div kRecordSize) (events cs))"
proof -
  let ?n = "length file - 8"
  have hdr: "length (kMagic @ to_bytes bo 4 kVersion) = 8" by (simp add: kMagic_def)
  have "file = take (length file) (journal bo cs)"
    using assms(2) by (metis append_eq_conv_conj prefixE)
  also have "\<dots> = kMagic @ to_bytes bo 4 kVersion @ take ?n (concat (map (encode bo) (events cs)))"
    using hdr assms(3) by (simp add: journal_def take_append)
  finally have eq: "file = \<dots>" .
  have "\<forall>c \<in> set (take k (events cs)). command_canonical c" for k
    using assms(1) by (auto simp: events_def dest: in_set_takeD)
  moreover have "length (take (?n mod kRecordSize) xs) < kRecordSize" for xs :: "byte list"
    using mod_less_divisor[of kRecordSize ?n] by (simp add: kRecordSize_def min.strict_coboundedI2)
  ultimately have "read_records bo (take ?n (concat (map (encode bo) (events cs)))) =
      take (?n div kRecordSize) (events cs)"
    by (subst take_records, intro read_records_torn) blast+
  then show ?thesis using eq read_journal_header by metis
qed

text \<open>A file that is too short for the header.\<close>

lemma read_short: "length file < 8 \<Longrightarrow> read_event_log bo (Some file) = Inl BadMagic"
  by (auto simp: read_event_log_def Let_def min_def)

text \<open>A journal of a host of the other byte order is refused by its version.\<close>

lemma read_foreign:
  assumes "bo \<noteq> bo'"
  shows "read_event_log bo' (Some (journal bo cs)) = Inl UnsupportedVersion"
proof -
  have "(of_bytes bo' (to_bytes bo 4 kVersion) :: 32 word) \<noteq> kVersion"
    using assms by (cases bo; cases bo') (simp; code_simp)+
  then show ?thesis
    by (simp add: read_event_log_def Let_def journal_def kMagic_def numeral_eq_Suc)
qed

text \<open>The record of event \<open>n\<close> is at \<open>8 + n * 40\<close>.\<close>

lemma journal_offset:
  assumes "n < length (events cs)"
  shows "slice (8 + n * kRecordSize) kRecordSize (journal bo cs) = encode bo (events cs ! n)"
proof -
  have "length (kMagic @ to_bytes bo 4 kVersion) = 8" by (simp add: kMagic_def)
  moreover have "events cs = take n (events cs) @ events cs ! n # drop (Suc n) (events cs)"
    using assms by (simp add: id_take_nth_drop)
  then have "concat (map (encode bo) (events cs)) = concat (map (encode bo) (take n (events cs))) @
      encode bo (events cs ! n) @ concat (map (encode bo) (drop (Suc n) (events cs)))"
    by (metis concat.simps(2) concat_append list.simps(9) map_append)
  moreover have "length (concat (map (encode bo) (take n (events cs)))) = n * kRecordSize"
    using assms by (simp add: min.absorb2)
  ultimately show ?thesis by (simp add: slice_def journal_def del: length_records)
qed

section \<open>Journals and crashes\<close>

lemma log_opened:
  "log_open bo True = Inr w \<Longrightarrow> lw_bytes (fold (log_append bo) cs w) = journal bo cs \<and>
     lw_count (fold (log_append bo) cs w) = of_nat (length (events cs))"
  by (auto simp: log_open_def log_appends journal_def)

lemma length_journal: "length (journal bo cs) = 8 + kRecordSize * length (events cs)"
  by (simp add: journal_def kMagic_def)

lemma crash_prefix:
  assumes "\<forall>c \<in> set (cs @ cs'). command_canonical c" and "log_open bo True = Inr w"
    and "may_survive (fold (log_append bo) cs' (log_flush (fold (log_append bo) cs w))) survivor"
  shows "8 \<le> length survivor"
    and "length (events cs) \<le> (length survivor - 8) div kRecordSize"
    and "read_event_log bo (Some survivor) =
      Inr (take ((length survivor - 8) div kRecordSize) (events (cs @ cs')))"
proof -
  let ?w = "fold (log_append bo) cs w"
  have bytes: "lw_bytes ?w = journal bo cs" using log_opened[OF assms(2)] by simp
  have "lw_bytes (fold (log_append bo) cs' (log_flush ?w)) = journal bo (cs @ cs')"
    unfolding log_appends[of bo cs'] by (simp add: log_flush_def bytes journal_def)
  then have pre: "prefix survivor (journal bo (cs @ cs'))"
    using assms(3) by (simp add: may_survive_def)
  have "lw_flushed (fold (log_append bo) cs' (log_flush ?w)) = length (journal bo cs)"
    unfolding log_appends[of bo cs'] by (simp add: log_flush_def bytes)
  then have "length (journal bo cs) \<le> length survivor"
    using assms(3) by (simp add: may_survive_def)
  moreover have "length (journal bo cs) = 8 + kRecordSize * length (events cs)"
    by (rule length_journal)
  ultimately have len: "8 + kRecordSize * length (events cs) \<le> length survivor" by simp
  then show l8: "8 \<le> length survivor" by simp
  have "kRecordSize * length (events cs) div kRecordSize \<le> (length survivor - 8) div kRecordSize"
    using len by (intro div_le_mono) simp
  then show "length (events cs) \<le> (length survivor - 8) div kRecordSize"
    by (simp add: kRecordSize_def)
  show "read_event_log bo (Some survivor) =
      Inr (take ((length survivor - 8) div kRecordSize) (events (cs @ cs')))"
    by (rule read_prefix[OF assms(1) pre l8])
qed

section \<open>Properties\<close>

text \<open>
  What the writer has written is read back: opening a journal, appending any commands and closing
  it leaves a file that reads as these commands in order, without the shutdown sentinels; the
  record count is their number.
\<close>

theorem journal_reads_back:
  assumes "\<forall>c \<in> set cs. command_canonical c"
  shows "\<exists>w. log_open bo True = Inr w \<and>
    read_event_log bo (Some (log_close (fold (log_append bo) cs w))) = Inr (events cs) \<and>
    lw_count (fold (log_append bo) cs w) = of_nat (length (events cs))"
proof -
  obtain w where w: "log_open bo True = Inr w" by (simp add: log_open_def)
  then show ?thesis
    using read_journal[OF assms] log_opened[OF w, of cs] by (simp add: log_close_def log_flush_def)
qed

definition sample_commands :: "command list" where
  "sample_commands =
     [make_submit 1 7 Buy (I64 100) 5, make_cancel 1, make_shutdown, make_submit 2 8 Sell (I64 99) 1]"

lemma sample_canonical: "\<forall>c \<in> set sample_commands. command_canonical c"
  by (simp add: sample_commands_def command_canonical_def command_defs byte_command_type_def
      byte_order_type_def byte_side_def)

theorem journal_reads_back_witness:
  "\<exists>w. log_open LittleEndian True = Inr w \<and>
    read_event_log LittleEndian (Some (log_close (fold (log_append LittleEndian) sample_commands w))) =
      Inr [make_submit 1 7 Buy (I64 100) 5, make_cancel 1, make_submit 2 8 Sell (I64 99) 1]"
  using journal_reads_back[OF sample_canonical, of LittleEndian]
  by (auto simp: sample_commands_def command_defs)

text \<open>
  Crash recovery: whatever prefix of the journal survives a crash after some commands were
  flushed, reading it fails cleanly when even the header is cut, and otherwise gives a prefix of
  the events that has all the flushed ones; a torn last record is dropped.
\<close>

theorem crash_leaves_prefix:
  assumes "\<forall>c \<in> set (cs @ cs'). command_canonical c" and "log_open bo True = Inr w"
    and "may_survive (fold (log_append bo) cs' (log_flush (fold (log_append bo) cs w))) survivor"
  shows "8 \<le> length survivor \<and>
    length (events cs) \<le> (length survivor - 8) div kRecordSize \<and>
    read_event_log bo (Some survivor) =
      Inr (take ((length survivor - 8) div kRecordSize) (events (cs @ cs')))"
  using crash_prefix[OF assms] by blast

definition sample_writer :: log_writer where
  "sample_writer =
     \<lparr>lw_bytes = kMagic @ to_bytes BigEndian 4 kVersion, lw_flushed = 0, lw_count = 0\<rparr>"

theorem crash_leaves_prefix_witness:
  "\<exists>survivor. may_survive (fold (log_append BigEndian) sample_commands (log_flush sample_writer)) survivor \<and>
     read_event_log BigEndian (Some survivor) = Inr (take 1 (events sample_commands))"
proof -
  let ?w = "fold (log_append BigEndian) sample_commands (log_flush sample_writer)"
  have w: "log_open BigEndian True = Inr sample_writer" by (simp add: log_open_def sample_writer_def)
  have all: "\<forall>c \<in> set ([] @ sample_commands). command_canonical c" using sample_canonical by simp
  have bytes: "lw_bytes ?w = journal BigEndian sample_commands" "lw_flushed ?w = 8"
    unfolding log_appends by (simp_all add: log_flush_def sample_writer_def journal_def kMagic_def)
  have len: "length (lw_bytes ?w) = 128"
    unfolding bytes length_journal
    by (simp add: kRecordSize_def sample_commands_def command_defs)
  have s: "may_survive ?w (take 70 (lw_bytes ?w))"
    using len bytes(2) by (simp add: may_survive_def take_is_prefix)
  then have "may_survive (fold (log_append BigEndian) sample_commands
      (log_flush (fold (log_append BigEndian) [] sample_writer))) (take 70 (lw_bytes ?w))" by simp
  from crash_leaves_prefix[OF all w this] s show ?thesis
    using len by (intro exI[of _ "take 70 (lw_bytes ?w)"]) (simp add: kRecordSize_def)
qed

text \<open>
  C38: A record decodes to the command that it was encoded from, and any 40 bytes with zero padding
  are the encoding of the command they decode to.
\<close>

theorem record_round_trip:
  assumes "command_canonical c" and "length buf = kRecordSize" and "buf ! 3 = 0"
  shows "decode bo (encode bo c) = c \<and>
    encode bo (decode bo buf) = buf"
  by (simp add: decode_encode encode_decode assms)

theorem record_round_trip_witness:
  "decode LittleEndian (encode LittleEndian (make_cancel 258)) = make_cancel 258 \<and>
   encode LittleEndian (decode LittleEndian ([1, 3, 1, 0] @ replicate 36 255)) =
     [1, 3, 1, 0] @ replicate 36 255"
proof -
  have c: "command_canonical (make_cancel 258)"
    by (simp add: command_canonical_def command_defs byte_command_type_def byte_order_type_def
        byte_side_def)
  show ?thesis
    using record_round_trip[OF c, of "[1, 3, 1, 0] @ replicate 36 255" LittleEndian]
    by (simp add: kRecordSize_def)
qed

text \<open>
  A journal written on a host of the other byte order is refused by its version, never misread.
\<close>

theorem foreign_journal_refused:
  assumes "bo \<noteq> bo'" "log_open bo True = Inr w"
  shows "read_event_log bo' (Some (log_close (fold (log_append bo) cs w))) = Inl UnsupportedVersion"
  using read_foreign[OF assms(1), of cs] log_opened[OF assms(2), of cs]
  by (simp add: log_close_def log_flush_def)

theorem foreign_journal_refused_witness:
  "read_event_log LittleEndian
     (Some (log_close (fold (log_append BigEndian) sample_commands sample_writer))) =
   Inl UnsupportedVersion"
  by (rule foreign_journal_refused) (simp_all add: log_open_def sample_writer_def)

text \<open>The record of event \<open>n\<close> of a journal is at the byte offset \<open>8 + n * 40\<close>.\<close>

lemma event_offset:
  assumes "n < length (events cs)" "log_open bo True = Inr w"
  shows "take 40 (drop (8 + n * 40) (log_close (fold (log_append bo) cs w))) =
    encode bo (events cs ! n)"
  using journal_offset[OF assms(1), of bo] log_opened[OF assms(2), of cs]
  by (simp add: slice_def kRecordSize_def log_close_def log_flush_def)

end
