(* ===== verification/MatchingEngine.thy ===== *)
theory MatchingEngine
  imports BookSession RiskControls EventLog
begin

text \<open>
  The engine of \<open>include/obe/MatchingEngine.hpp\<close> and \<open>src/MatchingEngine.cpp\<close> without its queue
  and thread, which the \<open>Pipeline\<close> theory adds: journaling, the risk gate, the dispatch of a
  command and the counters; and the replay of \<open>src/EventLog.cpp\<close>.
\<close>

section \<open>State\<close>

record engine_stats =
  st_commands :: "64 word"
  st_submits :: "64 word"
  st_cancels :: "64 word"
  st_trades :: "64 word"

text \<open>The type of the book is a parameter, for the engine over the specification below.\<close>

record 'b engine =
  en_book :: 'b
  en_risk :: "risk_manager option"
  en_log :: "log_writer option"
  en_commands :: "64 word"
  en_submits :: "64 word"
  en_cancels :: "64 word"
  en_trades :: "64 word"

definition engine_init :: "'b \<Rightarrow> 'b engine" where
  "engine_init b =
     \<lparr>en_book = b, en_risk = None, en_log = None, en_commands = 0, en_submits = 0,
      en_cancels = 0, en_trades = 0\<rparr>"

definition engine_new :: "self_trade_policy \<Rightarrow> 64 word \<Rightarrow> book engine option" where
  "engine_new stp pool_capacity = do { b \<leftarrow> book_new stp pool_capacity; Some (engine_init b) }"

definition enable_risk :: "risk_config \<Rightarrow> 'b engine \<Rightarrow> 'b engine" where
  "enable_risk cfg e = e\<lparr>en_risk := Some (risk_new cfg)\<rparr>"

text \<open>The operator's kill switch, through the accessor \<open>risk\<close>.\<close>

definition engine_kill :: "bool \<Rightarrow> 'b engine \<Rightarrow> 'b engine" where
  "engine_kill on e = e\<lparr>en_risk := map_option (engage_kill_switch on) (en_risk e)\<rparr>"

definition enable_logging :: "byte_order \<Rightarrow> bool \<Rightarrow> 'b engine \<Rightarrow> log_error + 'b engine" where
  "enable_logging bo opened e =
     (case log_open bo opened of
        Inl err \<Rightarrow> Inl err
      | Inr w \<Rightarrow> Inr (e\<lparr>en_log := Some w\<rparr>))"

definition flush_log :: "'b engine \<Rightarrow> 'b engine" where
  "flush_log e =
     (case en_log e of
        None \<Rightarrow> e
      | Some w \<Rightarrow> e\<lparr>en_log := Some (log_flush w)\<rparr>)"

definition engine_stats_of :: "'b engine \<Rightarrow> engine_stats" where
  "engine_stats_of e =
     \<lparr>st_commands = en_commands e, st_submits = en_submits e, st_cancels = en_cancels e,
      st_trades = en_trades e\<rparr>"

section \<open>Applying a command\<close>

text \<open>The journal entry at the top of \<open>apply\<close>.\<close>

definition engine_journal :: "byte_order \<Rightarrow> command \<Rightarrow> 'b engine \<Rightarrow> 'b engine" where
  "engine_journal bo cmd e =
     (case en_log e of
        None \<Rightarrow> e
      | Some w \<Rightarrow>
          (if c_type cmd \<noteq> Shutdown then e\<lparr>en_log := Some (log_append bo cmd w)\<rparr> else e))"

text \<open>The risk gate: whether the command may go on, and the engine after the check.\<close>

definition engine_gate :: "command \<Rightarrow> book engine \<Rightarrow> (bool \<times> book engine) option" where
  "engine_gate cmd e =
     (case en_risk e of
        None \<Rightarrow> Some (True, e)
      | Some rm \<Rightarrow>
          (let reference = (if c_side cmd = Buy then best_ask (en_book e) else best_bid (en_book e))
           in do {
             (v, rm') \<leftarrow> risk_check (c_id cmd) (c_side cmd) (c_price cmd) (c_quantity cmd) reference rm;
             Some (v = Accepted, e\<lparr>en_risk := Some rm'\<rparr>)
           }))"

text \<open>\<open>apply\<close>: the result is the number of trades.\<close>

definition engine_apply :: "byte_order \<Rightarrow> command \<Rightarrow> book engine \<Rightarrow> (64 word \<times> book engine) option" where
  "engine_apply bo cmd e0 =
     (let e = engine_journal bo cmd e0 in
      case c_type cmd of
        Submit \<Rightarrow>
          do {
            (pass, e1) \<leftarrow> engine_gate cmd e;
            if \<not> pass then Some (0, e1\<lparr>en_commands := en_commands e1 + 1\<rparr>)
            else
              do {
                (r, b) \<leftarrow> book_submit (c_id cmd) (c_trader cmd) (c_side cmd) (c_price cmd)
                            (c_quantity cmd) (en_book e1);
                Some (r_trade_count r,
                  e1\<lparr>en_book := b, en_submits := en_submits e1 + 1,
                     en_trades := en_trades e1 + r_trade_count r,
                     en_commands := en_commands e1 + 1\<rparr>)
              }
          }
      | Cancel \<Rightarrow>
          do {
            (_, b) \<leftarrow> book_cancel (c_id cmd) (en_book e);
            Some (0, e\<lparr>en_book := b, en_cancels := en_cancels e + 1,
                       en_commands := en_commands e + 1\<rparr>)
          }
      | Shutdown \<Rightarrow> Some (0, e)
      | CommandType_unnamed _ \<Rightarrow> Some (0, e))"

text \<open>\<open>replay\<close>, and any other loop that applies commands in order.\<close>

fun engine_run :: "byte_order \<Rightarrow> command list \<Rightarrow> book engine \<Rightarrow> book engine option" where
  "engine_run bo [] e = Some e"
| "engine_run bo (cmd # cmds) e =
     do {
       (_, e1) \<leftarrow> engine_apply bo cmd e;
       engine_run bo cmds e1
     }"

definition replay_log ::
    "byte_order \<Rightarrow> byte list option \<Rightarrow> book engine \<Rightarrow> (log_error + book engine) option" where
  "replay_log bo path e =
     (case read_event_log bo path of
        Inl err \<Rightarrow> Some (Inl err)
      | Inr evs \<Rightarrow> do { e' \<leftarrow> engine_run bo evs e; Some (Inr e') })"

section \<open>The engine over the specification of the book\<close>

definition spec_gate :: "command \<Rightarrow> book_spec engine \<Rightarrow> (bool \<times> book_spec engine) option" where
  "spec_gate cmd e =
     (case en_risk e of
        None \<Rightarrow> Some (True, e)
      | Some rm \<Rightarrow>
          do {
            (v, rm') \<leftarrow> risk_check (c_id cmd) (c_side cmd) (c_price cmd) (c_quantity cmd)
              (spec_best (side_of (other_side (own_side (c_side cmd))) (en_book e))) rm;
            Some (v = Accepted, e\<lparr>en_risk := Some rm'\<rparr>)
          })"

definition spec_apply ::
    "self_trade_policy \<Rightarrow> byte_order \<Rightarrow> command \<Rightarrow> book_spec engine \<Rightarrow>
     (64 word \<times> book_spec engine) option" where
  "spec_apply pol bo cmd e0 =
     (let e = engine_journal bo cmd e0 in
      case c_type cmd of
        Submit \<Rightarrow>
          do {
            (pass, e1) \<leftarrow> spec_gate cmd e;
            if \<not> pass then Some (0, e1\<lparr>en_commands := en_commands e1 + 1\<rparr>)
            else
              (let (r, A) = spec_submit pol (c_id cmd) (c_trader cmd) (c_side cmd) (c_price cmd)
                              (c_quantity cmd) (en_book e1)
               in Some (r_trade_count r,
                    e1\<lparr>en_book := A, en_submits := en_submits e1 + 1,
                       en_trades := en_trades e1 + r_trade_count r,
                       en_commands := en_commands e1 + 1\<rparr>))
          }
      | Cancel \<Rightarrow>
          Some (0, e\<lparr>en_book := snd (spec_cancel (c_id cmd) (en_book e)),
                     en_cancels := en_cancels e + 1, en_commands := en_commands e + 1\<rparr>)
      | _ \<Rightarrow> Some (0, e))"

fun spec_run_commands ::
    "self_trade_policy \<Rightarrow> byte_order \<Rightarrow> command list \<Rightarrow> book_spec engine \<Rightarrow> book_spec engine option" where
  "spec_run_commands pol bo [] e = Some e"
| "spec_run_commands pol bo (cmd # cmds) e =
     do {
       (_, e1) \<leftarrow> spec_apply pol bo cmd e;
       spec_run_commands pol bo cmds e1
     }"

text \<open>The same engine but for its book.\<close>

definition engine_with :: "'c \<Rightarrow> 'b engine \<Rightarrow> 'c engine" where
  "engine_with b e =
     \<lparr>en_book = b, en_risk = en_risk e, en_log = en_log e, en_commands = en_commands e,
      en_submits = en_submits e, en_cancels = en_cancels e, en_trades = en_trades e\<rparr>"

definition engine_rep :: "self_trade_policy \<Rightarrow> book engine \<Rightarrow> book_spec engine \<Rightarrow> bool" where
  "engine_rep pol e E \<longleftrightarrow>
     bk_stp (en_book e) = pol \<and> book_rep (en_book e) (en_book E) \<and> e = engine_with (en_book e) E"

lemma engine_with_simps [simp]:
  "en_book (engine_with b e) = b" "en_risk (engine_with b e) = en_risk e"
  "en_log (engine_with b e) = en_log e" "en_commands (engine_with b e) = en_commands e"
  "en_submits (engine_with b e) = en_submits e" "en_cancels (engine_with b e) = en_cancels e"
  "en_trades (engine_with b e) = en_trades e"
  by (simp_all add: engine_with_def)

lemma engine_repD:
  assumes "engine_rep pol e E"
  shows "bk_stp (en_book e) = pol" "book_rep (en_book e) (en_book E)" "en_risk e = en_risk E"
    "en_log e = en_log E" "en_commands e = en_commands E" "en_submits e = en_submits E"
    "en_cancels e = en_cancels E" "en_trades e = en_trades E"
  using assms unfolding engine_rep_def by (metis engine_with_simps)+

lemma engine_repI:
  fixes e :: "book engine" and E :: "book_spec engine"
  assumes "bk_stp (en_book e) = pol" "book_rep (en_book e) (en_book E)" "en_risk e = en_risk E"
    "en_log e = en_log E" "en_commands e = en_commands E" "en_submits e = en_submits E"
    "en_cancels e = en_cancels E" "en_trades e = en_trades E"
  shows "engine_rep pol e E"
  using assms by (cases e) (simp add: engine_rep_def engine_with_def)

lemma engine_journal_rep: "engine_rep pol e E \<Longrightarrow> engine_rep pol (engine_journal bo cmd e) (engine_journal bo cmd E)"
  by (rule engine_repI) (auto simp: engine_journal_def engine_repD split: option.splits)

lemma engine_gate_rep:
  assumes "engine_rep pol e E"
  shows "rel_option (\<lambda>(p, e') (q, E'). p = q \<and> engine_rep pol e' E') (engine_gate cmd e) (spec_gate cmd E)"
proof -
  note r = engine_repD[OF assms]
  have ref: "(if c_side cmd = Buy then best_ask (en_book e) else best_bid (en_book e)) =
      spec_best (side_of (other_side (own_side (c_side cmd))) (en_book E))"
    using book_best_ok[OF r(2)] by (simp add: own_side_def other_side_def)
  have keep: "engine_rep pol (e\<lparr>en_risk := x\<rparr>) (E\<lparr>en_risk := x\<rparr>)" for x
    using r by (intro engine_repI) simp_all
  show ?thesis
    unfolding engine_gate_def spec_gate_def ref r(3)
    using assms keep by (auto simp: split_def split: option.splits bind_splits)
qed

lemma engine_apply_rep:
  assumes "engine_rep pol e E"
  shows "rel_option (\<lambda>(n, e') (m, E'). n = m \<and> engine_rep pol e' E')
    (engine_apply bo cmd e) (spec_apply pol bo cmd E)"
proof -
  let ?e = "engine_journal bo cmd e" and ?E = "engine_journal bo cmd E"
  have rep: "engine_rep pol ?e ?E" by (rule engine_journal_rep[OF assms])
  note r = engine_repD[OF rep]
  show ?thesis
  proof (cases "c_type cmd")
    case Submit
    note gate = engine_gate_rep[OF rep, of cmd]
    show ?thesis
    proof (cases "engine_gate cmd ?e")
      case None
      then show ?thesis using gate Submit by (simp add: engine_apply_def spec_apply_def)
    next
      case (Some pe)
      then obtain p e1 E1 where g: "engine_gate cmd ?e = Some (p, e1)" "spec_gate cmd ?E = Some (p, E1)"
        "engine_rep pol e1 E1"
        using gate by (cases pe) (auto elim: option.rel_cases)
      note r1 = engine_repD[OF g(3)]
      obtain res b A where s: "book_submit (c_id cmd) (c_trader cmd) (c_side cmd) (c_price cmd)
          (c_quantity cmd) (en_book e1) = Some (res, b)"
        "spec_submit (bk_stp (en_book e1)) (c_id cmd) (c_trader cmd) (c_side cmd) (c_price cmd)
          (c_quantity cmd) (en_book E1) = (res, A)" "book_rep b A" "bk_stp b = bk_stp (en_book e1)"
        by (rule book_submit_ok[OF r1(2)])
      show ?thesis
        using Submit g(1,2) s r1
        by (auto simp: engine_apply_def spec_apply_def Let_def intro!: engine_repI)
    qed
  next
    case Cancel
    obtain b where c: "book_cancel (c_id cmd) (en_book ?e) = Some (fst (spec_cancel (c_id cmd) (en_book ?E)), b)"
      "book_rep b (snd (spec_cancel (c_id cmd) (en_book ?E)))" "bk_stp b = bk_stp (en_book ?e)"
      by (rule book_cancel_ok[OF r(2)])
    show ?thesis
      using Cancel c r by (auto simp: engine_apply_def spec_apply_def Let_def intro!: engine_repI)
  qed (use rep in \<open>simp_all add: engine_apply_def spec_apply_def Let_def\<close>)
qed

lemma engine_run_rep:
  assumes "engine_rep pol e E"
  shows "rel_option (engine_rep pol) (engine_run bo cmds e) (spec_run_commands pol bo cmds E)"
  using assms
proof (induction cmds arbitrary: e E)
  case (Cons cmd cmds)
  show ?case
    using engine_apply_rep[OF Cons.prems, of bo cmd] Cons.IH
    by (auto elim!: option.rel_cases)
qed simp

lemma engine_run_realizes:
  assumes "engine_rep pol e E" "spec_run_commands pol bo cmds E = Some E'"
  obtains e' where "engine_run bo cmds e = Some e'" "engine_rep pol e' E'"
  using engine_run_rep[OF assms(1), of bo cmds] assms(2) by (auto elim: option.rel_cases)

lemma engine_new_ok:
  obtains e where "engine_new pol cap = Some e" "engine_rep pol e (engine_init spec_new)"
    "en_risk e = None" "en_log e = None"
proof -
  obtain b where "book_new pol cap = Some b" "book_rep b spec_new" "bk_stp b = pol"
    by (rule book_new_ok)
  then show thesis
    using that[of "engine_init b"]
    by (simp add: engine_new_def engine_init_def engine_rep_def engine_with_def)
qed

section \<open>Journaling does not influence the engine\<close>

definition unlogged :: "'b engine \<Rightarrow> 'b engine" where
  "unlogged e = e\<lparr>en_log := None\<rparr>"

lemma unlogged_simps [simp]:
  "en_book (unlogged e) = en_book e" "en_risk (unlogged e) = en_risk e" "en_log (unlogged e) = None"
  "en_commands (unlogged e) = en_commands e" "en_submits (unlogged e) = en_submits e"
  "en_cancels (unlogged e) = en_cancels e" "en_trades (unlogged e) = en_trades e"
  "unlogged (unlogged e) = unlogged e" "unlogged (e\<lparr>en_log := l\<rparr>) = unlogged e"
  by (simp_all add: unlogged_def)

lemma unlogged_updates:
  "unlogged (e\<lparr>en_book := x\<rparr>) = (unlogged e)\<lparr>en_book := x\<rparr>"
  "unlogged (e\<lparr>en_risk := r\<rparr>) = (unlogged e)\<lparr>en_risk := r\<rparr>"
  "unlogged (e\<lparr>en_commands := n\<rparr>) = (unlogged e)\<lparr>en_commands := n\<rparr>"
  "unlogged (e\<lparr>en_submits := n\<rparr>) = (unlogged e)\<lparr>en_submits := n\<rparr>"
  "unlogged (e\<lparr>en_cancels := n\<rparr>) = (unlogged e)\<lparr>en_cancels := n\<rparr>"
  "unlogged (e\<lparr>en_trades := n\<rparr>) = (unlogged e)\<lparr>en_trades := n\<rparr>"
  by (simp_all add: unlogged_def)

lemma engine_journal_facts [simp]:
  "unlogged (engine_journal bo cmd e) = unlogged e"
  "en_log (engine_journal bo cmd e) = map_option (log_append bo cmd) (en_log e)"
  "engine_journal bo cmd (unlogged e) = unlogged e"
  by (auto simp: engine_journal_def log_append_def split: option.splits)

lemma engine_gate_unlogged:
  "engine_gate cmd (unlogged e) = map_option (\<lambda>(p, e'). (p, unlogged e')) (engine_gate cmd e)"
  by (auto simp: engine_gate_def Let_def unlogged_updates map_option_case split: option.splits bind_splits)

lemma engine_gate_log: "engine_gate cmd e = Some (p, e') \<Longrightarrow> en_log e' = en_log e"
  by (auto simp: engine_gate_def Let_def bind_eq_Some_conv split: option.splits)

lemma engine_apply_logged:
  assumes "engine_apply bo cmd e = Some (n, e')"
  shows "engine_apply bo cmd (unlogged e) = Some (n, unlogged e')"
    and "en_log e' = map_option (log_append bo cmd) (en_log e)"
proof -
  have gate: "engine_gate cmd (unlogged e) =
      map_option (\<lambda>(p, e'). (p, unlogged e')) (engine_gate cmd (engine_journal bo cmd e))"
    using engine_gate_unlogged[of cmd "engine_journal bo cmd e"] by simp
  have book: "en_book (engine_journal bo cmd e) = en_book e"
    "en_cancels (engine_journal bo cmd e) = en_cancels e"
    "en_commands (engine_journal bo cmd e) = en_commands e"
    by (metis engine_journal_facts(1) unlogged_simps)+
  show "engine_apply bo cmd (unlogged e) = Some (n, unlogged e')"
  proof (cases "c_type cmd")
    case Submit
    obtain p e1 where g: "engine_gate cmd (engine_journal bo cmd e) = Some (p, e1)"
      using assms Submit by (auto simp: engine_apply_def Let_def bind_eq_Some_conv)
    then have "engine_gate cmd (unlogged e) = Some (p, unlogged e1)" using gate by simp
    then show ?thesis
      using assms g Submit
      by (cases p) (auto simp: engine_apply_def Let_def bind_eq_Some_conv unlogged_updates)
  qed (use assms book in \<open>auto simp: engine_apply_def Let_def bind_eq_Some_conv unlogged_updates\<close>)
  show "en_log e' = map_option (log_append bo cmd) (en_log e)"
    using assms
    by (auto simp: engine_apply_def Let_def bind_eq_Some_conv dest: engine_gate_log
        split: command_type.splits if_splits)
qed

lemma engine_run_logged:
  "engine_run bo cmds e = Some e' \<Longrightarrow>
   engine_run bo cmds (unlogged e) = Some (unlogged e') \<and>
   en_log e' = map_option (fold (log_append bo) cmds) (en_log e)"
proof (induction cmds arbitrary: e)
  case (Cons cmd cmds)
  obtain n e1 where a: "engine_apply bo cmd e = Some (n, e1)" "engine_run bo cmds e1 = Some e'"
    using Cons.prems by (auto simp: bind_eq_Some_conv)
  then show ?case
    using Cons.IH[OF a(2)] engine_apply_logged[OF a(1)] by (simp add: option.map_comp o_def)
qed (simp add: option.map_id)

text \<open>Sentinels do nothing to an engine without a journal.\<close>

lemma engine_run_events: "engine_run bo (events cmds) (unlogged e) = engine_run bo cmds (unlogged e)"
proof (induction cmds arbitrary: e)
  case (Cons cmd cmds)
  have step: "\<exists>e1. p = (fst p, unlogged e1)" if "engine_apply bo cmd (unlogged e) = Some p" for p
  proof -
    obtain n e' where p: "p = (n, e')" by fastforce
    have "en_log e' = None" using engine_apply_logged(2)[of bo cmd "unlogged e" n e'] that p by simp
    then have "e' = unlogged e'" by (simp add: unlogged_def)
    then show ?thesis using p by (metis fst_conv)
  qed
  show ?case
  proof (cases "c_type cmd = Shutdown")
    case True
    then show ?thesis using Cons by (simp add: engine_apply_def)
  next
    case False
    show ?thesis
    proof (cases "engine_apply bo cmd (unlogged e)")
      case (Some p)
      then obtain e1 where "p = (fst p, unlogged e1)" using step by blast
      then show ?thesis using Some False Cons.IH[of e1] by (metis (no_types, lifting) bind.bind_lunit
        case_prod_conv engine_run.simps(2) events_simps(2))
    qed (use False in simp)
  qed
qed simp

lemma engine_run_append:
  "engine_run bo (cmds @ cmds') e = do { e1 \<leftarrow> engine_run bo cmds e; engine_run bo cmds' e1 }"
  by (induction cmds arbitrary: e) (auto simp: Option.bind_assoc split_def)

text \<open>The configuration of an engine before its session.\<close>

definition engine_setup :: "self_trade_policy \<Rightarrow> 64 word \<Rightarrow> risk_config option \<Rightarrow> book engine option" where
  "engine_setup pol cap cfg =
     do {
       e \<leftarrow> engine_new pol cap;
       Some (case cfg of None \<Rightarrow> e | Some c \<Rightarrow> enable_risk c e)
     }"

lemma engine_setup_unlogged: "engine_setup pol cap cfg = Some e \<Longrightarrow> unlogged e = e"
  by (auto simp: engine_setup_def engine_new_def engine_init_def enable_risk_def unlogged_def
      bind_eq_Some_conv split: option.splits)

lemma engine_replay:
  assumes plain: "unlogged e0 = e0" and log: "enable_logging bo True e0 = Inr live"
    and run: "engine_run bo cmds live = Some e1" and canon: "\<forall>c \<in> set cmds. command_canonical c"
  obtains w where "en_log e1 = Some w" "lw_bytes w = journal bo cmds"
    "replay_log bo (Some (log_close w)) e0 = Some (Inr (unlogged e1))"
proof -
  obtain w0 where w0: "log_open bo True = Inr w0" "live = e0\<lparr>en_log := Some w0\<rparr>"
    using log by (auto simp: enable_logging_def split: sum.splits)
  have live: "unlogged live = e0" using w0(2) plain by simp
  note r = engine_run_logged[OF run, unfolded live]
  let ?w = "fold (log_append bo) cmds w0"
  have "en_log e1 = Some ?w" using r w0(2) by simp
  moreover have bytes: "lw_bytes ?w = journal bo cmds" using log_opened[OF w0(1)] by simp
  moreover have "replay_log bo (Some (log_close ?w)) e0 = Some (Inr (unlogged e1))"
    using read_journal[OF canon] r bytes engine_run_events[of bo cmds e0] plain
    by (simp add: replay_log_def log_close_def log_flush_def)
  ultimately show thesis by (rule that)
qed

section \<open>Counters\<close>

definition is_order_command :: "command \<Rightarrow> bool" where
  "is_order_command c \<longleftrightarrow> c_type c = Submit \<or> c_type c = Cancel"

lemma engine_gate_counters:
  assumes "engine_gate cmd e = Some (p, e')"
  shows "en_commands e' = en_commands e" "en_submits e' = en_submits e"
    "en_cancels e' = en_cancels e" "en_trades e' = en_trades e" "en_book e' = en_book e"
  using assms by (auto simp: engine_gate_def Let_def bind_eq_Some_conv split: option.splits)

lemma engine_journal_counters [simp]:
  "en_commands (engine_journal bo cmd e) = en_commands e"
  "en_submits (engine_journal bo cmd e) = en_submits e"
  "en_cancels (engine_journal bo cmd e) = en_cancels e"
  "en_trades (engine_journal bo cmd e) = en_trades e" "en_book (engine_journal bo cmd e) = en_book e"
  "en_risk (engine_journal bo cmd e) = en_risk e"
  by (simp_all add: engine_journal_def split: option.splits)

lemma engine_apply_counters:
  assumes "engine_apply bo cmd e = Some (n, e')"
  shows "en_commands e' = en_commands e + (if is_order_command cmd then 1 else 0)"
    and "en_cancels e' = en_cancels e + (if c_type cmd = Cancel then 1 else 0)"
    and "en_trades e' = en_trades e + n"
  using assms
  by (auto simp: engine_apply_def Let_def bind_eq_Some_conv is_order_command_def
      engine_gate_counters split: command_type.splits if_splits)

lemma engine_run_counters:
  "engine_run bo cmds e = Some e' \<Longrightarrow>
   en_commands e' = en_commands e + of_nat (length (filter is_order_command cmds)) \<and>
   en_cancels e' = en_cancels e + of_nat (length (filter (\<lambda>c. c_type c = Cancel) cmds))"
proof (induction cmds arbitrary: e)
  case (Cons cmd cmds)
  then obtain n e1 where a: "engine_apply bo cmd e = Some (n, e1)" "engine_run bo cmds e1 = Some e'"
    by (auto simp: bind_eq_Some_conv)
  show ?case
    using Cons.IH[OF a(2)] engine_apply_counters(1,2)[OF a(1)] by auto
qed simp

section \<open>Rejections\<close>

definition engine_rejected :: "'b engine \<Rightarrow> 64 word" where
  "engine_rejected e =
     (case en_risk e of None \<Rightarrow> 0 | Some rm \<Rightarrow> total_rejected (risk_metrics_of rm))"

lemma rejected_record:
  "total_rejected (risk_metrics_of (record_verdict oid v rm)) =
     total_rejected (risk_metrics_of rm) + (if v = Accepted then 0 else 1)"
  by (cases v) (simp_all add: record_verdict_def risk_metrics_of_def total_rejected_def)

lemma engine_gate_rejected:
  assumes "engine_gate cmd e = Some (p, e')"
  shows "engine_rejected e' = engine_rejected e + (if p then 0 else 1)"
proof (cases "en_risk e")
  case None
  then show ?thesis using assms by (simp add: engine_gate_def)
next
  case (Some rm)
  obtain v rm' where c: "p = (v = Accepted)" "e' = e\<lparr>en_risk := Some rm'\<rparr>"
    "rm' = record_verdict (c_id cmd) v rm"
    using assms Some risk_check_records by (auto simp: engine_gate_def Let_def bind_eq_Some_conv)
  then show ?thesis using Some by (simp add: engine_rejected_def rejected_record)
qed

lemma engine_rejected_cong [simp]:
  "engine_rejected (e\<lparr>en_book := x\<rparr>) = engine_rejected e"
  "engine_rejected (e\<lparr>en_commands := n\<rparr>) = engine_rejected e"
  "engine_rejected (e\<lparr>en_submits := n\<rparr>) = engine_rejected e"
  "engine_rejected (e\<lparr>en_cancels := n\<rparr>) = engine_rejected e"
  "engine_rejected (e\<lparr>en_trades := n\<rparr>) = engine_rejected e"
  "engine_rejected (engine_journal bo cmd e) = engine_rejected e"
  by (simp_all add: engine_rejected_def)

text \<open>Every command is a submission that went through, a cancellation or a rejection.\<close>

definition tallies_agree :: "'b engine \<Rightarrow> bool" where
  "tallies_agree e \<longleftrightarrow> en_commands e = en_submits e + en_cancels e + engine_rejected e"

lemma engine_apply_tallies:
  assumes "engine_apply bo cmd e = Some (n, e')" "tallies_agree e"
  shows "tallies_agree e'"
proof (cases "c_type cmd")
  case Submit
  obtain p e1 where g: "engine_gate cmd (engine_journal bo cmd e) = Some (p, e1)"
    using assms(1) Submit by (auto simp: engine_apply_def Let_def bind_eq_Some_conv)
  show ?thesis
    using assms Submit g engine_gate_counters[OF g] engine_gate_rejected[OF g]
    by (cases p) (auto simp: engine_apply_def Let_def bind_eq_Some_conv tallies_agree_def)
qed (use assms in \<open>auto simp: engine_apply_def Let_def bind_eq_Some_conv tallies_agree_def\<close>)

lemma engine_run_tallies: "engine_run bo cmds e = Some e' \<Longrightarrow> tallies_agree e \<Longrightarrow> tallies_agree e'"
  by (induction cmds arbitrary: e) (auto simp: bind_eq_Some_conv dest: engine_apply_tallies)

section \<open>Sessions of the engine\<close>

definition spec_setup :: "risk_config option \<Rightarrow> book_spec engine" where
  "spec_setup cfg =
     (case cfg of None \<Rightarrow> engine_init spec_new | Some c \<Rightarrow> enable_risk c (engine_init spec_new))"

lemma engine_setup_ok:
  obtains e where "engine_setup pol cap cfg = Some e" "engine_rep pol e (spec_setup cfg)"
proof -
  obtain e where e: "engine_new pol cap = Some e" "engine_rep pol e (engine_init spec_new)"
    by (rule engine_new_ok)
  have "engine_rep pol (enable_risk c e) (enable_risk c (engine_init spec_new))" for c
    using engine_repD[OF e(2)] by (intro engine_repI) (simp_all add: enable_risk_def)
  then show thesis
    using that e by (cases cfg) (simp_all add: engine_setup_def spec_setup_def)
qed

text \<open>Without a risk gate nothing is undefined.\<close>

lemma spec_apply_defined:
  assumes "en_risk E = None"
  shows "\<exists>n E'. spec_apply pol bo cmd E = Some (n, E') \<and> en_risk E' = None"
  using assms by (auto simp: spec_apply_def spec_gate_def Let_def split_def split: command_type.splits)

lemma engine_run_defined:
  "engine_rep pol e E \<Longrightarrow> en_risk E = None \<Longrightarrow>
   \<exists>e' E'. engine_run bo cmds e = Some e' \<and> engine_rep pol e' E' \<and> en_risk E' = None"
proof (induction cmds arbitrary: e E)
  case (Cons cmd cmds)
  obtain n E1 where s: "spec_apply pol bo cmd E = Some (n, E1)" "en_risk E1 = None"
    using spec_apply_defined[OF Cons.prems(2)] by blast
  then obtain e1 where "engine_apply bo cmd e = Some (n, e1)" "engine_rep pol e1 E1"
    using engine_apply_rep[OF Cons.prems(1), of bo cmd] by (auto elim: option.rel_cases)
  then show ?case using Cons.IH[of e1 E1] s(2) by simp
qed auto

lemma engine_logged_rep:
  assumes "enable_logging bo opened e = Inr live" "engine_rep pol e E"
  obtains E' where "engine_rep pol live E'" "en_risk E' = en_risk E"
proof -
  obtain w where "live = e\<lparr>en_log := Some w\<rparr>"
    using assms(1) by (auto simp: enable_logging_def split: sum.splits)
  then have "engine_rep pol live (E\<lparr>en_log := Some w\<rparr>)"
    using engine_repD[OF assms(2)] by (intro engine_repI) simp_all
  then show thesis by (rule that) simp
qed

text \<open>A journaled session for the witnesses.\<close>

lemma flush_log_rep: "engine_rep pol e E \<Longrightarrow> engine_rep pol (flush_log e) (flush_log E)"
  by (rule engine_repI) (auto simp: flush_log_def engine_repD split: option.splits)

lemma flush_log_risk [simp]: "en_risk (flush_log e) = en_risk e"
  by (simp add: flush_log_def split: option.splits)

lemma sample_session_runs:
  obtains e0 live e1 E1 where "engine_setup CancelResting 16 None = Some e0"
    "enable_logging BigEndian True e0 = Inr live" "engine_run BigEndian cmds live = Some e1"
    "engine_rep CancelResting e1 E1" "en_risk E1 = None"
proof -
  obtain e0 where e0: "engine_setup CancelResting 16 None = Some e0"
    "engine_rep CancelResting e0 (spec_setup None)"
    by (rule engine_setup_ok)
  obtain live where live: "enable_logging BigEndian True e0 = Inr live"
    by (simp add: enable_logging_def log_open_def)
  obtain E where "engine_rep CancelResting live E" "en_risk E = en_risk (spec_setup None)"
    by (rule engine_logged_rep[OF live e0(2)])
  then obtain e1 E1 where "engine_run BigEndian cmds live = Some e1" "engine_rep CancelResting e1 E1"
    "en_risk E1 = None"
    using engine_run_defined[of CancelResting live E BigEndian cmds]
    by (auto simp: spec_setup_def engine_init_def)
  then show thesis using that e0 live by blast
qed

section \<open>The order type\<close>

lemma engine_gate_order_type:
  "engine_gate (c\<lparr>c_order_type := t, c_trigger_price := p\<rparr>) e = engine_gate c e"
  by (simp add: engine_gate_def cong: if_cong option.case_cong)

lemma engine_apply_order_type:
  assumes "unlogged e = e"
  shows "engine_apply bo (c\<lparr>c_order_type := t, c_trigger_price := p\<rparr>) e = engine_apply bo c e"
proof -
  have "engine_journal bo x e = e" for x using engine_journal_facts(3)[of bo x e] assms by simp
  then show ?thesis
    by (simp add: engine_apply_def engine_gate_order_type cong: command_type.case_cong if_cong)
qed

text \<open>The byte order only shows in the journal.\<close>

lemma engine_apply_byte_order:
  "engine_apply bo cmd (unlogged e) = engine_apply bo' cmd (unlogged e)"
  unfolding engine_apply_def engine_journal_facts(3) by (rule refl)

lemma engine_run_byte_order:
  "unlogged e = e \<Longrightarrow> engine_run bo cmds e = engine_run bo' cmds e"
proof (induction cmds arbitrary: e)
  case (Cons cmd cmds)
  have "engine_apply bo cmd e = engine_apply bo' cmd e"
    using engine_apply_byte_order[of bo cmd e bo'] Cons.prems by simp
  moreover have "unlogged e1 = e1" if "engine_apply bo' cmd e = Some (n, e1)" for n e1
    using engine_apply_logged(1)[OF that] Cons.prems that by simp
  ultimately show ?case
    using Cons.IH by (cases "engine_apply bo' cmd e") auto
qed simp

section \<open>When nothing is undefined\<close>

text \<open>Orders with a price of at least zero.\<close>

definition plain_orders :: "command list \<Rightarrow> bool" where
  "plain_orders cmds \<longleftrightarrow> (\<forall>c \<in> set cmds. c_type c = Submit \<longrightarrow> 0 \<le> i64_val (c_price c))"

lemma plain_orders_simps [simp]:
  "plain_orders []"
  "plain_orders (c # cs) \<longleftrightarrow> (c_type c = Submit \<longrightarrow> 0 \<le> i64_val (c_price c)) \<and> plain_orders cs"
  by (simp_all add: plain_orders_def)

lemma spec_apply_plain:
  assumes "c_type cmd = Submit \<Longrightarrow> 0 \<le> i64_val (c_price cmd)"
  shows "spec_apply pol bo cmd E \<noteq> None"
proof (cases "c_type cmd")
  case Submit
  have "spec_gate cmd e \<noteq> None" for e
  proof (cases "en_risk e")
    case (Some rm)
    obtain v rm' where "risk_check (c_id cmd) (c_side cmd) (c_price cmd) (c_quantity cmd)
        (spec_best (side_of (other_side (own_side (c_side cmd))) (en_book e))) rm = Some (v, rm')"
      using risk_check_defined[OF assms[OF Submit]] by fastforce
    then show ?thesis using Some by (simp add: spec_gate_def)
  qed (simp add: spec_gate_def)
  then obtain p e where "spec_gate cmd (engine_journal bo cmd E) = Some (p, e)" by fastforce
  then show ?thesis using Submit by (simp add: spec_apply_def split_def Let_def)
qed (simp_all add: spec_apply_def Let_def)

lemma engine_run_plain:
  "engine_rep pol e E \<Longrightarrow> plain_orders cmds \<Longrightarrow>
   \<exists>e' E'. engine_run bo cmds e = Some e' \<and> engine_rep pol e' E'"
proof (induction cmds arbitrary: e E)
  case (Cons cmd cmds)
  obtain n E1 where s: "spec_apply pol bo cmd E = Some (n, E1)"
    using spec_apply_plain[of cmd pol bo E] Cons.prems(2) by auto
  then obtain e1 where "engine_apply bo cmd e = Some (n, e1)" "engine_rep pol e1 E1"
    using engine_apply_rep[OF Cons.prems(1), of bo cmd] by (auto elim: option.rel_cases)
  then show ?case using Cons.IH[of e1 E1] Cons.prems(2) by simp
qed auto

section \<open>Refused orders\<close>

lemma refused_order:
  assumes "c_type cmd = Submit" and "en_risk e = Some rm" and "v \<noteq> Accepted"
    and "risk_check (c_id cmd) (c_side cmd) (c_price cmd) (c_quantity cmd)
      (if c_side cmd = Buy then best_ask (en_book e) else best_bid (en_book e)) rm = Some (v, rm')"
  shows "\<exists>e'. engine_apply bo cmd e = Some (0, e') \<and> en_book e' = en_book e \<and>
    en_risk e' = Some rm' \<and> en_submits e' = en_submits e \<and> en_trades e' = en_trades e \<and>
    en_commands e' = en_commands e + 1"
proof -
  have "engine_gate cmd (engine_journal bo cmd e) =
      Some (False, (engine_journal bo cmd e)\<lparr>en_risk := Some rm'\<rparr>)"
    using assms(2-4) by (cases "c_side cmd = Buy") (simp_all add: engine_gate_def)
  then show ?thesis using assms(1) by (simp add: engine_apply_def Let_def)
qed

section \<open>Crashes\<close>

lemma take_events:
  "n \<le> length (events ys) \<Longrightarrow> \<exists>us. prefix us ys \<and> take n (events ys) = events us"
proof (induction ys arbitrary: n)
  case (Cons y ys)
  show ?case
  proof (cases "c_type y = Shutdown")
    case True
    then obtain us where "prefix us ys" "take n (events ys) = events us" using Cons by auto
    then show ?thesis using True by (intro exI[of _ "y # us"]) simp
  next
    case False
    show ?thesis
    proof (cases n)
      case 0
      then show ?thesis by (intro exI[of _ "[]"]) simp
    next
      case (Suc k)
      then obtain us where "prefix us ys" "take k (events ys) = events us"
        using Cons.IH[of k] Cons.prems False by auto
      then show ?thesis using False Suc by (intro exI[of _ "y # us"]) simp
    qed
  qed
qed simp

lemma events_take:
  assumes "length (events xs) \<le> n" "n \<le> length (events (xs @ ys))"
  obtains us where "prefix us ys" "take n (events (xs @ ys)) = events (xs @ us)"
proof -
  have "n - length (events xs) \<le> length (events ys)" using assms(2) by (simp add: events_def)
  then obtain us where "prefix us ys" "take (n - length (events xs)) (events ys) = events us"
    using take_events by blast
  then show thesis using that[of us] assms(1) by (simp add: events_def)
qed

lemma flush_unlogged [simp]: "unlogged (flush_log e) = unlogged e"
  by (simp add: flush_log_def split: option.splits)

section \<open>Properties\<close>

text \<open>
  C17: The engine - journal, risk gate, dispatch and counters around the pointer-level book - refines
  the engine over the list specification: for every configuration and every commands, both are
  undefined together (a signed overflow in the price collar), or end in related states.
\<close>

theorem engine_refines:
  "\<exists>e. engine_setup pol cap cfg = Some e \<and>
     rel_option (engine_rep pol) (engine_run bo cmds e) (spec_run_commands pol bo cmds (spec_setup cfg))"
  using engine_setup_ok[of pol cap cfg] engine_run_rep by metis

text \<open>
  C8: Replay is exact: a fresh engine of the same configuration that replays the journal of a session
  ends in the very state of the live engine - book, pool, index, risk gate and counters.
\<close>

theorem replay_reconstructs:
  assumes "engine_setup pol cap cfg = Some e0" and "enable_logging bo True e0 = Inr live"
    and "engine_run bo cmds live = Some e1" and "\<forall>c \<in> set cmds. command_canonical c"
  shows "\<exists>w. en_log e1 = Some w \<and> replay_log bo (Some (log_close w)) e0 = Some (Inr (unlogged e1))"
  by (rule engine_replay[OF engine_setup_unlogged[OF assms(1)] assms(2,3,4)]) blast

theorem replay_reconstructs_witness:
  "\<exists>e0 live e1 w. engine_setup CancelResting 16 None = Some e0 \<and>
     enable_logging BigEndian True e0 = Inr live \<and>
     engine_run BigEndian sample_commands live = Some e1 \<and> en_log e1 = Some w \<and>
     replay_log BigEndian (Some (log_close w)) e0 = Some (Inr (unlogged e1))"
proof -
  obtain e0 live e1 E1 where s: "engine_setup CancelResting 16 None = Some e0"
    "enable_logging BigEndian True e0 = Inr live" "engine_run BigEndian sample_commands live = Some e1"
    "engine_rep CancelResting e1 E1" "en_risk E1 = None"
    by (rule sample_session_runs)
  show ?thesis using replay_reconstructs[OF s(1,2,3) sample_canonical] s by blast
qed

lemma engine_counts:
  assumes "engine_setup pol cap cfg = Some e0" and "engine_run bo cmds e0 = Some e1"
  shows "st_commands (engine_stats_of e1) = of_nat (length (filter is_order_command cmds))"
    and "st_commands (engine_stats_of e1) =
      st_submits (engine_stats_of e1) + st_cancels (engine_stats_of e1) + engine_rejected e1"
proof -
  have init: "en_commands e0 = 0" "tallies_agree e0"
    using assms(1)
    by (auto simp: engine_setup_def engine_new_def engine_init_def enable_risk_def tallies_agree_def
        engine_rejected_def risk_new_def risk_metrics_of_def total_rejected_def bind_eq_Some_conv
        split: option.splits)
  show "st_commands (engine_stats_of e1) = of_nat (length (filter is_order_command cmds))"
    using engine_run_counters[OF assms(2)] init(1) by (simp add: engine_stats_of_def)
  show "st_commands (engine_stats_of e1) =
      st_submits (engine_stats_of e1) + st_cancels (engine_stats_of e1) + engine_rejected e1"
    using engine_run_tallies[OF assms(2) init(2)] by (simp add: engine_stats_of_def tallies_agree_def)
qed

text \<open>
  The counters agree: every submission or cancellation counts as a command, and the commands are
  those submitted to the book, the cancellations and those the risk gate rejected.
\<close>

theorem engine_counts_commands:
  assumes "engine_setup pol cap cfg = Some e0" and "engine_run bo cmds e0 = Some e1"
  shows "st_commands (engine_stats_of e1) = of_nat (length (filter is_order_command cmds)) \<and>
    st_commands (engine_stats_of e1) =
      st_submits (engine_stats_of e1) + st_cancels (engine_stats_of e1) + engine_rejected e1"
  using engine_counts[OF assms] by blast

theorem engine_counts_commands_witness:
  "\<exists>e0 e1. engine_setup CancelResting 16 None = Some e0 \<and>
     engine_run BigEndian sample_commands e0 = Some e1 \<and> st_commands (engine_stats_of e1) = 3"
proof -
  obtain e0 where e0: "engine_setup CancelResting 16 None = Some e0"
    "engine_rep CancelResting e0 (spec_setup None)"
    by (rule engine_setup_ok)
  obtain e1 where e1: "engine_run BigEndian sample_commands e0 = Some e1"
    using engine_run_defined[OF e0(2), of BigEndian sample_commands]
    by (auto simp: spec_setup_def engine_init_def)
  have "length (filter is_order_command sample_commands) = 3"
    by (simp add: sample_commands_def command_defs is_order_command_def)
  then show ?thesis using engine_counts_commands[OF e0(1) e1] e0(1) e1 by auto
qed

text \<open>
  C37: An order that the risk gate refuses never reaches the book: the book, the submissions and the
  trades stay as they were, and the command counts as received.
\<close>

theorem refused_order_leaves_book:
  assumes "c_type cmd = Submit" and "en_risk e = Some rm" and "v \<noteq> Accepted"
    and "risk_check (c_id cmd) (c_side cmd) (c_price cmd) (c_quantity cmd)
      (if c_side cmd = Buy then best_ask (en_book e) else best_bid (en_book e)) rm = Some (v, rm')"
  shows "\<exists>e'. engine_apply bo cmd e = Some (0, e') \<and> en_book e' = en_book e \<and>
    en_risk e' = Some rm' \<and> en_submits e' = en_submits e \<and> en_trades e' = en_trades e \<and>
    en_commands e' = en_commands e + 1"
  by (rule refused_order[OF assms])

theorem refused_order_leaves_book_witness:
  "\<exists>e0 e'. engine_setup CancelResting 16 (Some risk_config_default) = Some e0 \<and>
     engine_apply BigEndian (make_submit 1 7 Buy (I64 100) 5) (engine_kill True e0) = Some (0, e') \<and>
     en_book e' = en_book e0"
proof -
  obtain e0 where e0: "engine_setup CancelResting 16 (Some risk_config_default) = Some e0"
    "engine_rep CancelResting e0 (spec_setup (Some risk_config_default))"
    by (rule engine_setup_ok)
  have "en_risk (engine_kill True e0) = Some (engage_kill_switch True (risk_new risk_config_default))"
    using engine_repD(3)[OF e0(2)]
    by (simp add: engine_kill_def spec_setup_def enable_risk_def)
  from refused_order_leaves_book[OF _ this, of "make_submit 1 7 Buy (I64 100) 5" KillSwitch]
  show ?thesis using e0(1)
    by (auto simp: risk_check_def engage_kill_switch_def command_defs engine_kill_def)
qed

text \<open>A crash after a flush.\<close>

lemma engine_crash:
  assumes "engine_setup pol cap cfg = Some e0" and "enable_logging bo True e0 = Inr live"
    and "engine_run bo cmds live = Some e1" and "engine_run bo cmds' (flush_log e1) = Some e2"
    and "\<forall>c \<in> set (cmds @ cmds'). command_canonical c"
    and "en_log e2 = Some w" and "may_survive w survivor"
  shows "\<exists>us e. prefix us cmds' \<and> engine_run bo us (flush_log e1) = Some e \<and>
    replay_log bo (Some survivor) e0 = Some (Inr (unlogged e))"
proof -
  have plain: "unlogged e0 = e0" by (rule engine_setup_unlogged[OF assms(1)])
  obtain w0 where w0: "log_open bo True = Inr w0" "live = e0\<lparr>en_log := Some w0\<rparr>"
    using assms(2) by (auto simp: enable_logging_def split: sum.splits)
  have live: "unlogged live = e0" using w0(2) plain by simp
  note r1 = engine_run_logged[OF assms(3), unfolded live]
  note r2 = engine_run_logged[OF assms(4), unfolded flush_unlogged]
  have "w = fold (log_append bo) cmds' (log_flush (fold (log_append bo) cmds w0))"
    using r1 r2 w0(2) assms(6) by (simp add: flush_log_def)
  note cut = crash_prefix[OF assms(5) w0(1) assms(7)[unfolded this]]
  let ?n = "min ((length survivor - 8) div kRecordSize) (length (events (cmds @ cmds')))"
  obtain us where us: "prefix us cmds'" "take ?n (events (cmds @ cmds')) = events (cmds @ us)"
    by (rule events_take[of cmds ?n cmds']) (use cut(2) in \<open>simp_all add: events_def\<close>)
  obtain vs where vs: "cmds' = us @ vs" using us(1) by (auto simp: prefix_def)
  obtain e where e: "engine_run bo us (flush_log e1) = Some e"
    using assms(4) unfolding vs engine_run_append by (auto simp: bind_eq_Some_conv)
  have "engine_run bo (cmds @ us) e0 = Some (unlogged e)"
    using r1 engine_run_logged[OF e] by (simp add: engine_run_append)
  then have "engine_run bo (events (cmds @ us)) e0 = Some (unlogged e)"
    using engine_run_events[of bo "cmds @ us" e0] plain by simp
  moreover have "take ((length survivor - 8) div kRecordSize) (events (cmds @ cmds')) =
      events (cmds @ us)"
    using us(2) by (metis length_take take_take take_all_iff min.commute le_refl)
  ultimately have "replay_log bo (Some survivor) e0 = Some (Inr (unlogged e))"
    using cut(3) by (simp add: replay_log_def)
  then show ?thesis using us(1) e by blast
qed

text \<open>
  C9: Crash recovery of the engine: after a flush, whatever part of the journal survives a crash
  replays to the state that the live engine had after some of its commands, all the flushed ones
  among them.
\<close>

theorem crash_recovery:
  assumes "engine_setup pol cap cfg = Some e0" and "enable_logging bo True e0 = Inr live"
    and "engine_run bo cmds live = Some e1" and "engine_run bo cmds' (flush_log e1) = Some e2"
    and "\<forall>c \<in> set (cmds @ cmds'). command_canonical c"
    and "en_log e2 = Some w" and "may_survive w survivor"
  shows "\<exists>us e. prefix us cmds' \<and> engine_run bo us (flush_log e1) = Some e \<and>
    replay_log bo (Some survivor) e0 = Some (Inr (unlogged e))"
  by (rule engine_crash[OF assms])

theorem crash_recovery_witness:
  "\<exists>e0 live e1 e2 w us e. engine_setup CancelResting 16 None = Some e0 \<and>
     enable_logging BigEndian True e0 = Inr live \<and>
     engine_run BigEndian sample_commands live = Some e1 \<and>
     engine_run BigEndian sample_commands (flush_log e1) = Some e2 \<and> en_log e2 = Some w \<and>
     prefix us sample_commands \<and> engine_run BigEndian us (flush_log e1) = Some e \<and>
     replay_log BigEndian (Some (take 200 (lw_bytes w))) e0 = Some (Inr (unlogged e))"
proof -
  obtain e0 live e1 E1 where s: "engine_setup CancelResting 16 None = Some e0"
    "enable_logging BigEndian True e0 = Inr live" "engine_run BigEndian sample_commands live = Some e1"
    "engine_rep CancelResting e1 E1" "en_risk E1 = None"
    by (rule sample_session_runs)
  obtain e2 where e2: "engine_run BigEndian sample_commands (flush_log e1) = Some e2"
    using engine_run_defined[OF flush_log_rep[OF s(4)]] s(5) by auto
  obtain w0 where w0: "log_open BigEndian True = Inr w0" "live = e0\<lparr>en_log := Some w0\<rparr>"
    using s(2) by (auto simp: enable_logging_def split: sum.splits)
  let ?w1 = "fold (log_append BigEndian) sample_commands w0"
  let ?w = "fold (log_append BigEndian) sample_commands (log_flush ?w1)"
  have log: "en_log e2 = Some ?w"
    using engine_run_logged[OF s(3)] engine_run_logged[OF e2] w0(2) by (simp add: flush_log_def)
  have w1: "lw_bytes ?w1 = journal BigEndian sample_commands" using log_opened[OF w0(1)] by simp
  have len: "length (lw_bytes ?w1) = 128"
    unfolding w1 length_journal by (simp add: kRecordSize_def sample_commands_def command_defs)
  have "lw_bytes ?w = journal BigEndian (sample_commands @ sample_commands)"
    unfolding log_appends[of BigEndian sample_commands "log_flush ?w1"]
    by (simp add: log_flush_def w1 journal_def)
  then have "length (lw_bytes ?w) = 248"
    by (simp only: length_journal) (simp add: kRecordSize_def sample_commands_def command_defs)
  moreover have "lw_flushed ?w = 128"
    unfolding log_appends[of BigEndian sample_commands "log_flush ?w1"]
    by (simp add: log_flush_def len)
  ultimately have cut: "may_survive ?w (take 200 (lw_bytes ?w))"
    by (simp add: may_survive_def take_is_prefix)
  have "\<forall>c \<in> set (sample_commands @ sample_commands). command_canonical c"
    using sample_canonical by auto
  from crash_recovery[OF s(1,2,3) e2 this log cut] show ?thesis
    using s(1,2,3) e2 log by blast
qed

lemma stop_sample_trades:
  "map_option en_trades (spec_run_commands CancelResting BigEndian
     [make_submit 1 7 Buy (I64 100) 5, make_stop 2 8 Sell (I64 50) 3] (spec_setup None)) = Some 1"
  by code_simp

text \<open>
  The order type and the trigger price of a command have no influence on the engine: a stop order
  is applied at once like a limit order at price zero, so a stop to sell sweeps the bids even when
  they are far above its trigger.
\<close>

theorem order_type_ignored:
  "engine_apply bo (c\<lparr>c_order_type := t, c_trigger_price := p\<rparr>) (unlogged e) =
     engine_apply bo c (unlogged e) \<and>
   engine_apply bo (make_stop oid trader sd p quantity) (unlogged e) =
     engine_apply bo (make_submit oid trader sd (I64 0) quantity) (unlogged e) \<and>
   (\<exists>e0 e1. engine_setup CancelResting 16 None = Some e0 \<and>
     engine_run bo [make_submit 1 7 Buy (I64 100) 5, make_stop 2 8 Sell (I64 50) 3] e0 = Some e1 \<and>
     st_trades (engine_stats_of e1) = 1)"
proof (intro conjI)
  show plain: "engine_apply bo (c\<lparr>c_order_type := t, c_trigger_price := p\<rparr>) (unlogged e) =
      engine_apply bo c (unlogged e)" for c t p
    by (rule engine_apply_order_type) simp
  have "make_stop oid trader sd p quantity =
      (make_submit oid trader sd (I64 0) quantity)\<lparr>c_order_type := Stop, c_trigger_price := p\<rparr>"
    by (simp add: command_defs)
  then show "engine_apply bo (make_stop oid trader sd p quantity) (unlogged e) =
      engine_apply bo (make_submit oid trader sd (I64 0) quantity) (unlogged e)"
    using plain by simp
  let ?cmds = "[make_submit 1 7 Buy (I64 100) 5, make_stop 2 8 Sell (I64 50) 3]"
  obtain e0 where e0: "engine_setup CancelResting 16 None = Some e0" "unlogged e0 = e0"
    "engine_rep CancelResting e0 (spec_setup None)"
    by (metis engine_setup_ok engine_setup_unlogged)
  obtain E1 where E1: "spec_run_commands CancelResting BigEndian ?cmds (spec_setup None) = Some E1"
    "en_trades E1 = 1"
    using stop_sample_trades by auto
  obtain e1 where "engine_run BigEndian ?cmds e0 = Some e1" "engine_rep CancelResting e1 E1"
    by (rule engine_run_realizes[OF e0(3) E1(1)])
  then have "engine_run BigEndian ?cmds e0 = Some e1" "en_trades e1 = 1"
    using E1(2) by (simp_all add: engine_repD(8))
  then show "\<exists>e0 e1. engine_setup CancelResting 16 None = Some e0 \<and>
      engine_run bo ?cmds e0 = Some e1 \<and> st_trades (engine_stats_of e1) = 1"
    using e0(1) engine_run_byte_order[OF e0(2), of BigEndian ?cmds bo]
    by (intro exI[of _ e0] exI[of _ e1])
      (simp add: engine_stats_of_def del: engine_run.simps)
qed

lemma kill_sample_accepted:
  "map_option en_submits (spec_run_commands CancelResting BigEndian
     [make_submit 1 7 Buy (I64 100) 5] (spec_setup (Some risk_config_default))) = Some 1"
  by code_simp

text \<open>
  The kill switch is not journaled: a session that was halted by it replays into an engine that
  accepts the orders the live engine refused.
\<close>

theorem kill_switch_not_replayed:
  "\<exists>e0 live e1 w e2. engine_setup CancelResting 16 (Some risk_config_default) = Some e0 \<and>
     enable_logging BigEndian True e0 = Inr live \<and>
     engine_run BigEndian [make_submit 1 7 Buy (I64 100) 5] (engine_kill True live) = Some e1 \<and>
     en_log e1 = Some w \<and> replay_log BigEndian (Some (log_close w)) e0 = Some (Inr e2) \<and>
     st_submits (engine_stats_of e1) = 0 \<and> st_submits (engine_stats_of e2) = 1"
proof -
  let ?cmds = "[make_submit 1 7 Buy (I64 100) 5]"
  obtain e0 where e0: "engine_setup CancelResting 16 (Some risk_config_default) = Some e0"
    "engine_rep CancelResting e0 (spec_setup (Some risk_config_default))"
    by (rule engine_setup_ok)
  obtain w0 live where w0: "log_open BigEndian True = Inr w0" "live = e0\<lparr>en_log := Some w0\<rparr>"
    by (simp add: log_open_def)
  have live: "enable_logging BigEndian True e0 = Inr live" using w0 by (simp add: enable_logging_def)
  have risk: "en_risk (engine_kill True live) = Some (engage_kill_switch True (risk_new risk_config_default))"
    using engine_repD(3)[OF e0(2)] w0(2) by (simp add: engine_kill_def spec_setup_def enable_risk_def)
  obtain E1 where E1: "spec_run_commands CancelResting BigEndian ?cmds
      (spec_setup (Some risk_config_default)) = Some E1" "en_submits E1 = 1"
    using kill_sample_accepted by auto
  obtain e2 where r2: "engine_run BigEndian ?cmds e0 = Some e2" "engine_rep CancelResting e2 E1"
    by (rule engine_run_realizes[OF e0(2) E1(1)])
  have e2: "engine_run BigEndian ?cmds e0 = Some e2" "en_submits e2 = 1"
    using r2 E1(2) by (simp_all add: engine_repD(6))
  obtain e1 where e1: "engine_apply BigEndian (hd ?cmds) (engine_kill True live) = Some (0, e1)"
    "en_submits e1 = en_submits e0"
    using refused_order[OF _ risk, of "hd ?cmds" KillSwitch] w0(2)
    by (auto simp: risk_check_def engage_kill_switch_def command_defs engine_kill_def)
  have zero: "en_submits e0 = 0"
    using engine_repD(6)[OF e0(2)] by (simp add: spec_setup_def enable_risk_def engine_init_def)
  have log: "en_log e1 = Some (log_append BigEndian (hd ?cmds) w0)"
    using engine_apply_logged(2)[OF e1(1)] w0(2) by (simp add: engine_kill_def)
  have canon: "\<forall>c \<in> set ?cmds. command_canonical c"
    using sample_canonical by (simp add: sample_commands_def)
  have bytes: "lw_bytes (log_append BigEndian (hd ?cmds) w0) = journal BigEndian ?cmds"
    using log_opened[OF w0(1), of ?cmds] by simp
  have "events ?cmds = ?cmds" by (simp add: command_defs)
  then have "replay_log BigEndian (Some (log_close (log_append BigEndian (hd ?cmds) w0))) e0 = Some (Inr e2)"
    using read_journal[OF canon, of BigEndian] e2(1) bytes
    by (simp add: replay_log_def log_close_def log_flush_def)
  then show ?thesis
    using e0(1) live e1 zero log e2(2) by (auto simp: engine_stats_of_def)
qed

end
