(* ===== verification/Pipeline.thy ===== *)
theory Pipeline
  imports RingThreads MatchingEngine
begin

text \<open>
  The threaded engine: the producer that pushes commands into the queue of
  \<open>include/obe/RingBuffer.hpp\<close> and then calls \<open>drain_and_join\<close>, and the consumer thread that
  \<open>start\<close> launches on \<open>consume_loop\<close> (\<open>src/MatchingEngine.cpp\<close>).
\<close>

section \<open>State and steps\<close>

text \<open>
  \<open>pl_todo\<close> is what the producer still has to push: it retries a command until the queue takes it.
  \<open>pl_cmd\<close> is the command in the local variable of the consumer between its pop and its handling;
  \<open>pl_running\<close> says that the consumer is in its loop, so the thread can be joined when it is false.
\<close>

record pipeline =
  pl_queue :: "command spsc"
  pl_todo :: "command list"
  pl_cmd :: "command option"
  pl_engine :: "book engine"
  pl_running :: bool

text \<open>\<open>drain_and_join\<close> pushes the sentinel after the last command of the producer.\<close>

definition drain :: "command list \<Rightarrow> command list" where
  "drain cmds = cmds @ [make_shutdown]"

definition pipeline_start :: "64 word \<Rightarrow> book engine \<Rightarrow> command list \<Rightarrow> pipeline" where
  "pipeline_start queue_capacity e cmds =
     \<lparr>pl_queue = spsc_new queue_capacity, pl_todo = drain cmds, pl_cmd = None, pl_engine = e,
      pl_running = True\<rparr>"

text \<open>
  One access of the queue by either thread, or the handling of one command; \<open>None\<close> is undefined
  behaviour.
\<close>

inductive pipeline_step :: "byte_order \<Rightarrow> pipeline \<Rightarrow> pipeline option \<Rightarrow> bool" for bo where
  produce_call:
    "pl_todo p = c # cs \<Longrightarrow> spsc_step (pl_queue p) (Push_call c) (Some q) \<Longrightarrow>
     pipeline_step bo p (Some (p\<lparr>pl_queue := q\<rparr>))"
| produce_inner:
    "spsc_step (pl_queue p) Push_inner (Some q) \<Longrightarrow> pipeline_step bo p (Some (p\<lparr>pl_queue := q\<rparr>))"
| produce_full:
    "spsc_step (pl_queue p) (Push_return c False) (Some q) \<Longrightarrow>
     pipeline_step bo p (Some (p\<lparr>pl_queue := q\<rparr>))"
| produce_accepted:
    "pl_todo p = c # cs \<Longrightarrow> spsc_step (pl_queue p) (Push_return c True) (Some q) \<Longrightarrow>
     pipeline_step bo p (Some (p\<lparr>pl_queue := q, pl_todo := cs\<rparr>))"
| consume_call:
    "pl_running p \<Longrightarrow> pl_cmd p = None \<Longrightarrow> spsc_step (pl_queue p) Pop_call (Some q) \<Longrightarrow>
     pipeline_step bo p (Some (p\<lparr>pl_queue := q\<rparr>))"
| consume_inner:
    "spsc_step (pl_queue p) Pop_inner (Some q) \<Longrightarrow> pipeline_step bo p (Some (p\<lparr>pl_queue := q\<rparr>))"
| consume_empty:
    "spsc_step (pl_queue p) (Pop_return None) (Some q) \<Longrightarrow>
     pipeline_step bo p (Some (p\<lparr>pl_queue := q\<rparr>))"
| consume_got:
    "spsc_step (pl_queue p) (Pop_return (Some c)) (Some q) \<Longrightarrow>
     pipeline_step bo p (Some (p\<lparr>pl_queue := q, pl_cmd := Some c\<rparr>))"
| consume_stop:
    "pl_cmd p = Some c \<Longrightarrow> c_type c = Shutdown \<Longrightarrow>
     pipeline_step bo p (Some (p\<lparr>pl_cmd := None, pl_running := False\<rparr>))"
| consume_apply:
    "pl_cmd p = Some c \<Longrightarrow> c_type c \<noteq> Shutdown \<Longrightarrow> engine_apply bo c (pl_engine p) = Some (n, e) \<Longrightarrow>
     pipeline_step bo p (Some (p\<lparr>pl_cmd := None, pl_engine := e\<rparr>))"
| apply_undefined:
    "pl_cmd p = Some c \<Longrightarrow> c_type c \<noteq> Shutdown \<Longrightarrow> engine_apply bo c (pl_engine p) = None \<Longrightarrow>
     pipeline_step bo p None"
| queue_undefined:
    "spsc_step (pl_queue p) ev None \<Longrightarrow> pipeline_step bo p None"

inductive pipeline_reach ::
    "byte_order \<Rightarrow> pipeline \<Rightarrow> pipeline \<Rightarrow> bool" for bo p0 where
  pipeline_refl: "pipeline_reach bo p0 p0"
| pipeline_more:
    "pipeline_reach bo p0 p \<Longrightarrow> pipeline_step bo p (Some p') \<Longrightarrow> pipeline_reach bo p0 p'"

section \<open>The invariant\<close>

definition is_sentinel :: "command \<Rightarrow> bool" where
  "is_sentinel c \<longleftrightarrow> c_type c = Shutdown"

text \<open>The commands before the first sentinel, which the loop applies.\<close>

definition work :: "command list \<Rightarrow> command list" where
  "work cs = takeWhile (\<lambda>c. \<not> is_sentinel c) cs"

fun pending :: "command option \<Rightarrow> command list" where
  "pending None = []"
| "pending (Some c) = [c]"

fun push_value :: "'a push_pc \<Rightarrow> 'a option" where
  "push_value Push_idle = None"
| "push_value (Push_loaded v _) = Some v"
| "push_value (Push_room v _) = Some v"
| "push_value (Push_written v _) = Some v"

definition producer_ok :: "command option \<Rightarrow> command list \<Rightarrow> bool" where
  "producer_ok v todo \<longleftrightarrow> (\<forall>c. v = Some c \<longrightarrow> (\<exists>cs. todo = c # cs))"

lemma producer_ok_simps [simp]: "producer_ok None todo" "producer_ok (Some c) (c # cs)"
  by (simp_all add: producer_ok_def)

definition consumer_ok :: "bool \<Rightarrow> command option \<Rightarrow> bool \<Rightarrow> command list \<Rightarrow> bool" where
  "consumer_ok idle cmd running hs \<longleftrightarrow>
     (cmd \<noteq> None \<or> \<not> running \<longrightarrow> idle) \<and> (cmd \<noteq> None \<longrightarrow> running) \<and>
     (running \<longleftrightarrow> \<not> (\<exists>c \<in> set hs. is_sentinel c))"

lemma consumer_ok_simps [simp]:
  "consumer_ok False cmd running hs \<longleftrightarrow> cmd = None \<and> running \<and> (\<forall>c \<in> set hs. \<not> is_sentinel c)"
  "consumer_ok idle None True hs \<longleftrightarrow> (\<forall>c \<in> set hs. \<not> is_sentinel c)"
  "consumer_ok True (Some c) running hs \<longleftrightarrow> running \<and> (\<forall>c \<in> set hs. \<not> is_sentinel c)"
  by (auto simp: consumer_ok_def)

text \<open>
  \<open>hs\<close> are the commands that were handled, of \<open>all\<close> that the producer has to push.
\<close>

definition pipeline_shape :: "command list \<Rightarrow> command list \<Rightarrow> pipeline \<Rightarrow> bool" where
  "pipeline_shape all hs p \<longleftrightarrow>
     spsc_inv (pl_queue p) \<and> all = q_sent (pl_queue p) @ pl_todo p \<and>
     q_got (pl_queue p) = hs @ pending (pl_cmd p) \<and>
     producer_ok (push_value (q_push (pl_queue p))) (pl_todo p) \<and>
     consumer_ok (q_pop (pl_queue p) = Pop_idle) (pl_cmd p) (pl_running p) hs"

definition pipeline_inv_at ::
    "byte_order \<Rightarrow> book engine \<Rightarrow> command list \<Rightarrow> command list \<Rightarrow> pipeline \<Rightarrow> bool" where
  "pipeline_inv_at bo e0 all hs p \<longleftrightarrow>
     pipeline_shape all hs p \<and> engine_run bo (work hs) e0 = Some (pl_engine p)"

lemmas pipeline_inv_defs = pipeline_inv_at_def pipeline_shape_def

definition pipeline_inv :: "byte_order \<Rightarrow> book engine \<Rightarrow> command list \<Rightarrow> pipeline \<Rightarrow> bool" where
  "pipeline_inv bo e0 all p \<longleftrightarrow> (\<exists>hs. pipeline_inv_at bo e0 all hs p)"

lemma work_append [simp]:
  "work (hs @ cs) = (if \<exists>c \<in> set hs. is_sentinel c then work hs else hs @ work cs)"
  by (auto simp: work_def takeWhile_append)

lemma work_id: "\<not> (\<exists>c \<in> set hs. is_sentinel c) \<Longrightarrow> work hs = hs"
  by (auto simp: work_def takeWhile_eq_all_conv)

lemma pipeline_start_inv:
  assumes "unat cap \<le> 2 ^ 63"
  shows "pipeline_inv bo e0 (drain cmds) (pipeline_start cap e0 cmds)"
proof -
  have "pipeline_inv_at bo e0 (drain cmds) [] (pipeline_start cap e0 cmds)"
    using spsc_new_inv[OF assms]
    by (simp add: pipeline_inv_defs pipeline_start_def work_def spsc_new_def producer_ok_def
        consumer_ok_def)
  then show ?thesis unfolding pipeline_inv_def by blast
qed

text \<open>A step of the queue keeps the invariant, as far as it is about the queue.\<close>

lemma queue_step:
  assumes "pipeline_shape all hs p" "spsc_step (pl_queue p) ev res"
  obtains q where "res = Some q" "spsc_inv q" "event_effect ev (pl_queue p) q"
  using assms spsc_step_inv by (metis pipeline_shape_def)

text \<open>What an event says of the operation that each thread is in.\<close>

definition event_pcs :: "'a queue_event \<Rightarrow> 'a spsc \<Rightarrow> 'a spsc \<Rightarrow> bool" where
  "event_pcs ev q q' \<longleftrightarrow>
     (case ev of
        Push_call v \<Rightarrow> push_value (q_push q') = Some v \<and> q_pop q' = q_pop q
      | Push_inner \<Rightarrow> push_value (q_push q') = push_value (q_push q) \<and> q_pop q' = q_pop q
      | Push_return v b \<Rightarrow>
          push_value (q_push q) = Some v \<and> push_value (q_push q') = None \<and> q_pop q' = q_pop q
      | Pop_call \<Rightarrow> q_push q' = q_push q
      | Pop_inner \<Rightarrow> q_push q' = q_push q \<and> q_pop q \<noteq> Pop_idle
      | Pop_return _ \<Rightarrow> q_push q' = q_push q \<and> q_pop q \<noteq> Pop_idle \<and> q_pop q' = Pop_idle)"

lemma step_pcs: "spsc_step q ev (Some q') \<Longrightarrow> event_pcs ev q q'"
  by (cases rule: spsc_step.cases, assumption) (simp_all add: event_pcs_def)

lemma queue_stepE:
  assumes "pipeline_shape all hs p" "spsc_step (pl_queue p) ev (Some q)"
  obtains "spsc_inv q" "event_effect ev (pl_queue p) q" "event_pcs ev (pl_queue p) q"
  using queue_step[OF assms] step_pcs[OF assms(2)] by auto

lemmas queue_facts = pipeline_shape_def event_effect_def event_pcs_def

lemma pipeline_queue_shape:
  assumes inv: "pipeline_shape all hs p" and step: "spsc_step (pl_queue p) ev (Some q)"
  shows "ev = Push_call c \<Longrightarrow> pl_todo p = c # cs \<Longrightarrow> pipeline_shape all hs (p\<lparr>pl_queue := q\<rparr>)"
    and "ev = Push_inner \<Longrightarrow> pipeline_shape all hs (p\<lparr>pl_queue := q\<rparr>)"
    and "ev = Push_return c False \<Longrightarrow> pipeline_shape all hs (p\<lparr>pl_queue := q\<rparr>)"
    and "ev = Push_return c True \<Longrightarrow> pl_todo p = c # cs \<Longrightarrow>
      pipeline_shape all hs (p\<lparr>pl_queue := q, pl_todo := cs\<rparr>)"
    and "ev = Pop_call \<Longrightarrow> pl_running p \<Longrightarrow> pl_cmd p = None \<Longrightarrow>
      pipeline_shape all hs (p\<lparr>pl_queue := q\<rparr>)"
    and "ev = Pop_inner \<Longrightarrow> pipeline_shape all hs (p\<lparr>pl_queue := q\<rparr>)"
    and "ev = Pop_return None \<Longrightarrow> pipeline_shape all hs (p\<lparr>pl_queue := q\<rparr>)"
    and "ev = Pop_return (Some c) \<Longrightarrow>
      pipeline_shape all hs (p\<lparr>pl_queue := q, pl_cmd := Some c\<rparr>)"
proof -
  note i = inv[unfolded pipeline_shape_def]
  have f: "spsc_inv q" "event_effect ev (pl_queue p) q" "event_pcs ev (pl_queue p) q"
    by (rule queue_stepE[OF inv step], assumption)+
  show "ev = Push_call c \<Longrightarrow> pl_todo p = c # cs \<Longrightarrow> pipeline_shape all hs (p\<lparr>pl_queue := q\<rparr>)"
    using i f by (simp add: queue_facts)
  show "ev = Push_inner \<Longrightarrow> pipeline_shape all hs (p\<lparr>pl_queue := q\<rparr>)"
    using i f by (simp add: queue_facts)
  show "ev = Push_return c False \<Longrightarrow> pipeline_shape all hs (p\<lparr>pl_queue := q\<rparr>)"
    using i f by (simp add: queue_facts)
  show "ev = Push_return c True \<Longrightarrow> pl_todo p = c # cs \<Longrightarrow>
      pipeline_shape all hs (p\<lparr>pl_queue := q, pl_todo := cs\<rparr>)"
    using i f by (simp add: queue_facts)
  show "ev = Pop_call \<Longrightarrow> pl_running p \<Longrightarrow> pl_cmd p = None \<Longrightarrow>
      pipeline_shape all hs (p\<lparr>pl_queue := q\<rparr>)"
    using i f by (auto simp: queue_facts consumer_ok_def)
  show "ev = Pop_inner \<Longrightarrow> pipeline_shape all hs (p\<lparr>pl_queue := q\<rparr>)"
    using i f by (simp add: queue_facts)
  show "ev = Pop_return None \<Longrightarrow> pipeline_shape all hs (p\<lparr>pl_queue := q\<rparr>)"
    using i f by (simp add: queue_facts)
  show "ev = Pop_return (Some c) \<Longrightarrow>
      pipeline_shape all hs (p\<lparr>pl_queue := q, pl_cmd := Some c\<rparr>)"
    using i f by (cases "pl_cmd p") (simp_all add: queue_facts)
qed

text \<open>
  A step keeps the shape; either it leaves the engine and what was handled alone, or it handles the
  next command.  Nothing is undefined but the handling of a command.
\<close>

definition step_effect ::
    "byte_order \<Rightarrow> command list \<Rightarrow> pipeline \<Rightarrow> command list \<Rightarrow> pipeline option \<Rightarrow> bool" where
  "step_effect bo hs p hs' res \<longleftrightarrow>
     (case res of
        Some p' \<Rightarrow>
          (hs' = hs \<and> pl_engine p' = pl_engine p) \<or>
          (\<exists>c. pl_cmd p = Some c \<and> hs' = hs @ [c] \<and> is_sentinel c \<and> pl_engine p' = pl_engine p) \<or>
          (\<exists>c n. pl_cmd p = Some c \<and> hs' = hs @ [c] \<and> \<not> is_sentinel c \<and>
             engine_apply bo c (pl_engine p) = Some (n, pl_engine p'))
      | None \<Rightarrow>
          (\<exists>c. pl_cmd p = Some c \<and> hs' = hs @ [c] \<and> \<not> is_sentinel c \<and>
             engine_apply bo c (pl_engine p) = None))"

lemma pipeline_shape_step:
  assumes step: "pipeline_step bo p res" and shape: "pipeline_shape all hs p"
  obtains hs' where "step_effect bo hs p hs' res" "\<forall>p'. res = Some p' \<longrightarrow> pipeline_shape all hs' p'"
proof -
  note goal = that
  have same: thesis if "res = Some p'" "pipeline_shape all hs p'" "pl_engine p' = pl_engine p" for p'
    by (rule goal[of hs]) (use that in \<open>simp_all add: step_effect_def\<close>)
  from step show thesis
  proof (cases rule: pipeline_step.cases)
    case (produce_call c cs q)
    then show thesis using pipeline_queue_shape(1)[OF shape] by (intro same[OF produce_call(1)]) simp_all
  next
    case (produce_inner q)
    then show thesis using pipeline_queue_shape(2)[OF shape] by (intro same[OF produce_inner(1)]) simp_all
  next
    case (produce_full c q)
    then show thesis using pipeline_queue_shape(3)[OF shape] by (intro same[OF produce_full(1)]) simp_all
  next
    case (produce_accepted c cs q)
    then show thesis using pipeline_queue_shape(4)[OF shape] by (intro same[OF produce_accepted(1)]) simp_all
  next
    case (consume_call q)
    then show thesis using pipeline_queue_shape(5)[OF shape] by (intro same[OF consume_call(1)]) simp_all
  next
    case (consume_inner q)
    then show thesis using pipeline_queue_shape(6)[OF shape] by (intro same[OF consume_inner(1)]) simp_all
  next
    case (consume_empty q)
    then show thesis using pipeline_queue_shape(7)[OF shape] by (intro same[OF consume_empty(1)]) simp_all
  next
    case (consume_got c q)
    then show thesis using pipeline_queue_shape(8)[OF shape] by (intro same[OF consume_got(1)]) simp_all
  next
    case (consume_stop c)
    have "pipeline_shape all (hs @ [c]) (p\<lparr>pl_cmd := None, pl_running := False\<rparr>)"
      using consume_stop shape by (auto simp: pipeline_shape_def is_sentinel_def consumer_ok_def)
    then show thesis
      using consume_stop by (intro goal[of "hs @ [c]"]) (simp_all add: step_effect_def is_sentinel_def)
  next
    case (consume_apply c n e)
    have "pipeline_shape all (hs @ [c]) (p\<lparr>pl_cmd := None, pl_engine := e\<rparr>)"
      using consume_apply shape by (auto simp: pipeline_shape_def is_sentinel_def consumer_ok_def)
    then show thesis
      using consume_apply by (intro goal[of "hs @ [c]"]) (simp_all add: step_effect_def is_sentinel_def)
  next
    case (apply_undefined c)
    then show thesis by (intro goal[of "hs @ [c]"]) (simp_all add: step_effect_def is_sentinel_def)
  next
    case (queue_undefined ev)
    then show thesis using queue_step[OF shape] by blast
  qed
qed

text \<open>What is in hand comes right after what was handled.\<close>

lemma shape_next:
  assumes "pipeline_shape all hs p" "pl_cmd p = Some c"
  shows "\<not> (\<exists>c \<in> set hs. is_sentinel c)" "\<exists>rest. all = hs @ c # rest"
proof -
  have got: "q_got (pl_queue p) = hs @ [c]" "spsc_inv (pl_queue p)"
    "all = q_sent (pl_queue p) @ pl_todo p"
    using assms by (simp_all add: pipeline_shape_def)
  show "\<not> (\<exists>c \<in> set hs. is_sentinel c)"
    using assms by (auto simp: pipeline_shape_def consumer_ok_def)
  show "\<exists>rest. all = hs @ c # rest"
    using spsc_inv_fifo(1)[OF got(2)] got(1,3) by (auto simp: prefix_def)
qed

lemma work_snoc:
  "\<not> (\<exists>c \<in> set hs. is_sentinel c) \<Longrightarrow> work (hs @ [c]) = (if is_sentinel c then hs else hs @ [c])"
  by (simp add: work_id) (simp add: work_def)

lemma pipeline_inv_step:
  assumes step: "pipeline_step bo p res" and inv: "pipeline_inv_at bo e0 all hs p"
  shows "(\<exists>p' hs'. res = Some p' \<and> pipeline_inv_at bo e0 all hs' p') \<or>
    res = None \<and> engine_run bo (work all) e0 = None"
proof -
  have shape: "pipeline_shape all hs p" and run: "engine_run bo (work hs) e0 = Some (pl_engine p)"
    using inv by (simp_all add: pipeline_inv_at_def)
  obtain hs' where eff: "step_effect bo hs p hs' res"
    and shape': "\<forall>p'. res = Some p' \<longrightarrow> pipeline_shape all hs' p'"
    by (rule pipeline_shape_step[OF step shape])
  note next_hs = shape_next[OF shape]
  show ?thesis
  proof (cases res)
    case None
    then obtain c where c: "pl_cmd p = Some c" "\<not> is_sentinel c" "engine_apply bo c (pl_engine p) = None"
      using eff by (auto simp: step_effect_def)
    obtain rest where rest: "all = hs @ c # rest" using next_hs(2)[OF c(1)] by blast
    have "work all = hs @ c # work rest"
      using next_hs(1)[OF c(1)] c(2) unfolding rest by simp (simp add: work_def)
    then show ?thesis
      using run c next_hs(1)[OF c(1)] None by (simp add: engine_run_append work_id)
  next
    case (Some p')
    then have "engine_run bo (work hs') e0 = Some (pl_engine p')"
      using eff run next_hs(1) by (auto simp: step_effect_def work_snoc work_id engine_run_append
        simp del: work_append)
    then show ?thesis using shape' Some by (auto simp: pipeline_inv_at_def)
  qed
qed

lemma pipeline_reach_inv:
  assumes "pipeline_reach bo p0 p" "pipeline_inv bo e0 all p0"
  shows "pipeline_inv bo e0 all p"
  using assms
proof (induction rule: pipeline_reach.induct)
  case (pipeline_more p p')
  then obtain hs where "pipeline_inv_at bo e0 all hs p" by (auto simp: pipeline_inv_def)
  from pipeline_inv_step[OF pipeline_more.hyps(2) this] show ?case
    unfolding pipeline_inv_def by blast
qed

lemma pipeline_reach_trans:
  assumes "pipeline_reach bo p1 p2" "pipeline_reach bo p0 p1"
  shows "pipeline_reach bo p0 p2"
  using assms by induction (auto intro: pipeline_more)

section \<open>Progress\<close>

text \<open>Runs of one thread of the queue are runs of the pipeline.\<close>

lemma lift_inner:
  assumes "spsc_steps q evs q'" "set evs \<subseteq> {Push_inner, Pop_inner}" "q = pl_queue p"
  shows "pipeline_reach bo p (p\<lparr>pl_queue := q'\<rparr>)"
  using assms
proof (induction arbitrary: p rule: spsc_steps.induct)
  case (steps_refl q)
  then show ?case by (simp add: pipeline_refl)
next
  case (steps_step q ev q1 evs q')
  have "pipeline_step bo p (Some (p\<lparr>pl_queue := q1\<rparr>))"
    using steps_step.hyps(1) steps_step.prems by (auto intro: produce_inner consume_inner)
  then have "pipeline_reach bo p (p\<lparr>pl_queue := q1\<rparr>)" by (rule pipeline_more[OF pipeline_refl])
  moreover have "pipeline_reach bo (p\<lparr>pl_queue := q1\<rparr>) (p\<lparr>pl_queue := q'\<rparr>)"
    using steps_step.IH[of "p\<lparr>pl_queue := q1\<rparr>"] steps_step.prems(1) by simp
  ultimately show ?case by (rule pipeline_reach_trans[rotated])
qed

lemma spsc_steps_snoc:
  assumes "spsc_steps q (evs @ [ev]) q'"
  obtains q1 where "spsc_steps q evs q1" "spsc_step q1 ev (Some q')"
  using assms
proof (induction evs arbitrary: q thesis)
  case Nil
  then show ?case by (auto elim: spsc_steps.cases intro: steps_refl)
next
  case (Cons e evs)
  from Cons.prems(2) obtain q0 where "spsc_step q e (Some q0)" "spsc_steps q0 (evs @ [ev]) q'"
    by (auto elim: spsc_steps.cases)
  then show ?case using Cons.IH[of q0] Cons.prems(1) by (metis steps_step)
qed

lemma lift_push:
  assumes "spsc_steps (pl_queue p) (evs @ [Push_return c True]) q'" "set evs \<subseteq> {Push_inner, Pop_inner}"
    "pl_todo p = c # cs"
  shows "pipeline_reach bo p (p\<lparr>pl_queue := q', pl_todo := cs\<rparr>)"
proof -
  obtain q1 where q1: "spsc_steps (pl_queue p) evs q1" "spsc_step q1 (Push_return c True) (Some q')"
    by (rule spsc_steps_snoc[OF assms(1)])
  have "pipeline_reach bo p (p\<lparr>pl_queue := q1\<rparr>)" by (rule lift_inner[OF q1(1) assms(2) refl])
  moreover have "pipeline_step bo (p\<lparr>pl_queue := q1\<rparr>) (Some (p\<lparr>pl_queue := q', pl_todo := cs\<rparr>))"
    using produce_accepted[of "p\<lparr>pl_queue := q1\<rparr>"] q1(2) assms(3) by simp
  ultimately show ?thesis by (rule pipeline_more)
qed

lemma lift_pop:
  assumes "spsc_steps (pl_queue p) (evs @ [Pop_return (Some c)]) q'" "set evs \<subseteq> {Push_inner, Pop_inner}"
  shows "pipeline_reach bo p (p\<lparr>pl_queue := q', pl_cmd := Some c\<rparr>)"
proof -
  obtain q1 where q1: "spsc_steps (pl_queue p) evs q1" "spsc_step q1 (Pop_return (Some c)) (Some q')"
    by (rule spsc_steps_snoc[OF assms(1)])
  have "pipeline_reach bo p (p\<lparr>pl_queue := q1\<rparr>)" by (rule lift_inner[OF q1(1) assms(2) refl])
  moreover have "pipeline_step bo (p\<lparr>pl_queue := q1\<rparr>) (Some (p\<lparr>pl_queue := q', pl_cmd := Some c\<rparr>))"
    using consume_got[of "p\<lparr>pl_queue := q1\<rparr>"] q1(2) by simp
  ultimately show ?thesis by (rule pipeline_more)
qed

text \<open>With room in the queue the producer gets its next command in.\<close>

lemma producer_progress:
  assumes inv: "pipeline_inv_at bo e0 all hs p" and todo: "pl_todo p = c # cs"
    and empty: "q_sent (pl_queue p) = q_got (pl_queue p)"
  obtains q' where "pipeline_reach bo p (p\<lparr>pl_queue := q', pl_todo := cs\<rparr>)"
    "q_got q' = q_got (pl_queue p)"
proof -
  note goal = that
  let ?q = "pl_queue p"
  have qi: "spsc_inv ?q" and val: "\<And>v. push_value (q_push ?q) = Some v \<Longrightarrow> v = c"
    using inv todo by (auto simp: pipeline_inv_defs producer_ok_def)
  have cap: "0 < ring_cap (q_ring ?q)" by (rule ring_shape_bounds(1)[OF spsc_invD(3)[OF qi]])
  have loaded: thesis if pc: "q_push (pl_queue p1) = Push_loaded c tail" and qi1: "spsc_inv (pl_queue p1)"
    and e1: "q_sent (pl_queue p1) = q_got (pl_queue p1)" and t1: "pl_todo p1 = c # cs"
    and got1: "q_got (pl_queue p1) = q_got ?q" and r: "pipeline_reach bo p p1"
    and p1: "\<And>q'. p1\<lparr>pl_queue := q', pl_todo := cs\<rparr> = p\<lparr>pl_queue := q', pl_todo := cs\<rparr>" for p1 tail
  proof -
    have "0 < ring_cap (q_ring (pl_queue p1))" by (rule ring_shape_bounds(1)[OF spsc_invD(3)[OF qi1]])
    then obtain q' where q': "spsc_steps (pl_queue p1) ([Push_inner, Push_inner] @ [Push_return c True]) q'"
      using push_from_loaded[OF qi1 pc] e1 by (metis append_Cons append_Nil less_add_same_cancel1 less_irrefl)
    have "pipeline_reach bo p1 (p1\<lparr>pl_queue := q', pl_todo := cs\<rparr>)"
      by (rule lift_push[OF q' _ t1]) simp
    then show thesis
      using goal[of q'] pipeline_reach_trans[OF _ r] p1[of q'] spsc_steps_effect[OF q' qi1] got1
      by (simp add: popped_def)
  qed
  show thesis
  proof (cases "q_push ?q")
    case Push_idle
    let ?q1 = "?q\<lparr>q_push := Push_loaded c (last (rb_tail (q_ring ?q)))\<rparr>"
    have step: "spsc_step ?q (Push_call c) (Some ?q1)" by (rule push_load[OF Push_idle])
    obtain s0 where "Some ?q1 = Some s0" "spsc_inv s0" by (rule spsc_step_inv[OF step qi])
    then have "spsc_inv ?q1" by simp
    moreover have "pipeline_reach bo p (p\<lparr>pl_queue := ?q1\<rparr>)"
      by (rule pipeline_more[OF pipeline_refl produce_call[OF todo step]])
    ultimately show thesis using loaded[of "p\<lparr>pl_queue := ?q1\<rparr>"] empty todo by simp
  next
    case (Push_loaded v tail)
    then show thesis using loaded[of p tail] val[of v] qi empty todo pipeline_refl by simp
  next
    case (Push_room v tail)
    then have pc: "q_push ?q = Push_room c tail" using val[of v] by simp
    obtain q' where q': "spsc_steps ?q ([Push_inner] @ [Push_return c True]) q'"
      by (rule push_from_room[OF qi pc]) simp
    show thesis
      using goal[OF lift_push[OF q' _ todo]] spsc_steps_effect[OF q' qi] by (simp add: popped_def)
  next
    case (Push_written v tail)
    then have pc: "q_push ?q = Push_written c tail" using val[of v] by simp
    show thesis
      using produce_accepted[OF todo push_publish[OF pc]] pipeline_more[OF pipeline_refl] goal by fastforce
  qed
qed

text \<open>When there is something in the queue the consumer gets a command out.\<close>

lemma consumer_progress:
  assumes inv: "pipeline_inv_at bo e0 all hs p" and idle: "pl_running p" "pl_cmd p = None"
    and some: "q_sent (pl_queue p) \<noteq> q_got (pl_queue p)"
  obtains q' c where "pipeline_reach bo p (p\<lparr>pl_queue := q', pl_cmd := Some c\<rparr>)"
    "length (q_got q') = Suc (length (q_got (pl_queue p)))"
proof -
  note goal = that
  let ?q = "pl_queue p"
  have qi: "spsc_inv ?q" using inv by (simp add: pipeline_inv_defs)
  have loaded: thesis if pc: "q_pop (pl_queue p1) = Pop_loaded head" and qi1: "spsc_inv (pl_queue p1)"
    and s1: "q_sent (pl_queue p1) \<noteq> q_got (pl_queue p1)" and r: "pipeline_reach bo p p1"
    and got1: "q_got (pl_queue p1) = q_got ?q"
    and p1: "\<And>q' c. p1\<lparr>pl_queue := q', pl_cmd := Some c\<rparr> = p\<lparr>pl_queue := q', pl_cmd := Some c\<rparr>"
    for p1 head
  proof -
    obtain q' where q': "spsc_steps (pl_queue p1) ([Pop_inner, Pop_inner] @
        [Pop_return (Some (q_sent (pl_queue p1) ! length (q_got (pl_queue p1))))]) q'"
      by (rule pop_from_loaded[OF qi1 pc]) (use s1 in simp)
    have "pipeline_reach bo p1 (p1\<lparr>pl_queue := q',
        pl_cmd := Some (q_sent (pl_queue p1) ! length (q_got (pl_queue p1)))\<rparr>)"
      by (rule lift_pop[OF q']) simp
    from pipeline_reach_trans[OF this r] show thesis
      unfolding p1 by (rule goal) (use spsc_steps_effect[OF q' qi1] got1 in \<open>simp add: popped_def\<close>)
  qed
  show thesis
  proof (cases "q_pop ?q")
    case Pop_idle
    let ?q1 = "?q\<lparr>q_pop := Pop_loaded (last (rb_head (q_ring ?q)))\<rparr>"
    have step: "spsc_step ?q Pop_call (Some ?q1)" by (rule pop_load[OF Pop_idle])
    obtain s0 where "Some ?q1 = Some s0" "spsc_inv s0" by (rule spsc_step_inv[OF step qi])
    then have "spsc_inv ?q1" by simp
    moreover have "pipeline_reach bo p (p\<lparr>pl_queue := ?q1\<rparr>)"
      by (rule pipeline_more[OF pipeline_refl consume_call[OF idle step]])
    ultimately show thesis using loaded[of "p\<lparr>pl_queue := ?q1\<rparr>"] some by simp
  next
    case (Pop_loaded head)
    then show thesis using loaded[of p head] qi some pipeline_refl by simp
  next
    case (Pop_some head)
    obtain q' where q': "spsc_steps ?q ([Pop_inner] @
        [Pop_return (Some (q_sent ?q ! length (q_got ?q)))]) q'"
      by (rule pop_from_some[OF qi Pop_some]) simp
    show thesis
      using goal[OF lift_pop[OF q']] spsc_steps_effect[OF q' qi] by (simp add: popped_def)
  next
    case (Pop_taken v head)
    show thesis
      by (rule goal[OF pipeline_more[OF pipeline_refl consume_got[OF pop_publish[OF Pop_taken]]]]) simp
  qed
qed

text \<open>What is left to do.\<close>

definition pipeline_left :: "command list \<Rightarrow> pipeline \<Rightarrow> nat" where
  "pipeline_left all p = 2 * (length all - length (q_got (pl_queue p))) + length (pending (pl_cmd p))"

lemma pipeline_inv_got:
  assumes "pipeline_inv_at bo e0 all hs p"
  shows "prefix (hs @ pending (pl_cmd p)) all" "pl_running p \<longleftrightarrow> \<not> (\<exists>c \<in> set hs. is_sentinel c)"
    "q_got (pl_queue p) = hs @ pending (pl_cmd p)" "all = q_sent (pl_queue p) @ pl_todo p"
    "spsc_inv (pl_queue p)" "engine_run bo (work hs) e0 = Some (pl_engine p)"
proof -
  have "spsc_inv (pl_queue p)" "q_got (pl_queue p) = hs @ pending (pl_cmd p)"
    "all = q_sent (pl_queue p) @ pl_todo p"
    using assms by (simp_all add: pipeline_inv_defs)
  then show "prefix (hs @ pending (pl_cmd p)) all"
    using spsc_inv_fifo(1)[of "pl_queue p"] by (auto simp: prefix_def)
qed (use assms in \<open>auto simp: pipeline_inv_defs consumer_ok_def\<close>)

lemma prefix_length_less: "prefix xs ys \<Longrightarrow> xs \<noteq> ys \<Longrightarrow> length xs < length ys"
  by (auto simp: prefix_def)

lemma consumer_decreases:
  assumes inv: "pipeline_inv_at bo e0 all hs p" and idle: "pl_running p" "pl_cmd p = None"
    and some: "q_sent (pl_queue p) \<noteq> q_got (pl_queue p)"
  obtains p' hs' where "pipeline_reach bo p p'" "pipeline_inv_at bo e0 all hs' p'"
    "pipeline_left all p' < pipeline_left all p"
proof -
  obtain q' c where r: "pipeline_reach bo p (p\<lparr>pl_queue := q', pl_cmd := Some c\<rparr>)"
    "length (q_got q') = Suc (length (q_got (pl_queue p)))"
    by (rule consumer_progress[OF assms])
  let ?p = "p\<lparr>pl_queue := q', pl_cmd := Some c\<rparr>"
  have "pipeline_inv bo e0 all p" using inv unfolding pipeline_inv_def by blast
  from pipeline_reach_inv[OF r(1) this] obtain hs' where i': "pipeline_inv_at bo e0 all hs' ?p"
    by (auto simp: pipeline_inv_def)
  note g = pipeline_inv_got[OF inv]
  have "length (q_got (pl_queue p)) < length all"
    using prefix_length_less[OF spsc_inv_fifo(1)[OF g(5)]] some g(4) by auto
  then have "pipeline_left all ?p < pipeline_left all p"
    using r(2) idle(2) by (simp add: pipeline_left_def)
  then show thesis using that r(1) i' by blast
qed

lemma apply_decreases:
  assumes inv: "pipeline_inv_at bo e0 all hs p" and defined: "engine_run bo (work all) e0 \<noteq> None"
    and cmd: "pl_cmd p = Some c" "\<not> is_sentinel c"
  obtains p' hs' where "pipeline_reach bo p p'" "pipeline_inv_at bo e0 all hs' p'"
    "pipeline_left all p' < pipeline_left all p"
proof -
  have "\<not> pipeline_step bo p None" using pipeline_inv_step[OF _ inv, of None] defined by auto
  then obtain n e where a: "engine_apply bo c (pl_engine p) = Some (n, e)"
    using apply_undefined[OF cmd(1)] cmd(2)
    by (cases "engine_apply bo c (pl_engine p)") (auto simp: is_sentinel_def)
  let ?p = "p\<lparr>pl_cmd := None, pl_engine := e\<rparr>"
  have step: "pipeline_step bo p (Some ?p)"
    using consume_apply[OF cmd(1) _ a] cmd(2) by (simp add: is_sentinel_def)
  obtain hs' where "pipeline_inv_at bo e0 all hs' ?p"
    using pipeline_inv_step[OF step inv] by auto
  moreover have "pipeline_left all ?p < pipeline_left all p" using cmd(1) by (simp add: pipeline_left_def)
  ultimately show thesis using that pipeline_more[OF pipeline_refl step] by blast
qed

lemma producer_then_consumer:
  assumes inv: "pipeline_inv_at bo e0 all hs p" and idle: "pl_running p" "pl_cmd p = None"
    and empty: "q_sent (pl_queue p) = q_got (pl_queue p)" and more: "\<exists>c \<in> set all. is_sentinel c"
  obtains p' hs' where "pipeline_reach bo p p'" "pipeline_inv_at bo e0 all hs' p'"
    "pipeline_left all p' < pipeline_left all p"
proof -
  note g = pipeline_inv_got[OF inv]
  have "pl_todo p \<noteq> []" using g(2-4) idle empty more by auto
  then obtain c cs where todo: "pl_todo p = c # cs" by (cases "pl_todo p") auto
  obtain q' where r: "pipeline_reach bo p (p\<lparr>pl_queue := q', pl_todo := cs\<rparr>)"
    "q_got q' = q_got (pl_queue p)"
    by (rule producer_progress[OF inv todo empty])
  let ?p = "p\<lparr>pl_queue := q', pl_todo := cs\<rparr>"
  have "pipeline_inv bo e0 all p" using inv unfolding pipeline_inv_def by blast
  from pipeline_reach_inv[OF r(1) this] obtain hs1 where i1: "pipeline_inv_at bo e0 all hs1 ?p"
    by (auto simp: pipeline_inv_def)
  have "q_sent q' \<noteq> q_got q'"
    using pipeline_inv_got(4)[OF i1] g(4) todo empty r(2) by auto
  then obtain p' hs' where "pipeline_reach bo ?p p'" "pipeline_inv_at bo e0 all hs' p'"
    "pipeline_left all p' < pipeline_left all ?p"
    using consumer_decreases[OF i1] idle by auto
  moreover have "pipeline_left all ?p = pipeline_left all p" using r(2) by (simp add: pipeline_left_def)
  ultimately show thesis using that pipeline_reach_trans[OF _ r(1)] by metis
qed

lemma pipeline_finishes:
  assumes "pipeline_inv_at bo e0 all hs p" and defined: "engine_run bo (work all) e0 \<noteq> None"
    and more: "\<exists>c \<in> set all. is_sentinel c"
  shows "\<exists>p'. pipeline_reach bo p p' \<and> \<not> pl_running p'"
  using assms(1)
proof (induction "pipeline_left all p" arbitrary: p hs rule: less_induct)
  case less
  note inv = less.prems
  have via: ?case if "pipeline_reach bo p p'" "pipeline_inv_at bo e0 all hs' p'"
    "pipeline_left all p' < pipeline_left all p" for p' hs'
    using less.hyps[OF that(3,2)] pipeline_reach_trans[OF _ that(1)] by blast
  show ?case
  proof (cases "pl_running p")
    case False
    then show ?thesis using pipeline_refl by blast
  next
    case running: True
    show ?thesis
    proof (cases "pl_cmd p")
      case None
      then show ?thesis
        using consumer_decreases[OF inv running] producer_then_consumer[OF inv running _ _ more] via
        by (metis (no_types, lifting))
    next
      case (Some c)
      show ?thesis
      proof (cases "is_sentinel c")
        case True
        then have "pipeline_step bo p (Some (p\<lparr>pl_cmd := None, pl_running := False\<rparr>))"
          using consume_stop[OF Some] by (simp add: is_sentinel_def)
        from pipeline_more[OF pipeline_refl this] show ?thesis by (intro exI conjI) (assumption, simp)
      next
        case False
        show ?thesis by (rule apply_decreases[OF inv defined Some False]) (rule via)
      qed
    qed
  qed
qed

section \<open>Whole sessions\<close>

lemma work_drain: "\<forall>c \<in> set cmds. c_type c \<noteq> Shutdown \<Longrightarrow> work (drain cmds) = cmds"
  by (auto simp: drain_def is_sentinel_def) (simp add: work_def is_sentinel_def command_defs)

lemma sentinel_drain: "\<exists>c \<in> set (drain cmds). is_sentinel c"
  by (simp add: drain_def is_sentinel_def command_defs)

lemma work_prefix:
  assumes "prefix hs (drain cmds)" "\<forall>c \<in> set cmds. c_type c \<noteq> Shutdown"
  shows "work hs = take (length hs) cmds" "(\<exists>c \<in> set hs. is_sentinel c) \<longleftrightarrow> hs = drain cmds"
proof -
  have cases: "hs = drain cmds \<or> prefix hs cmds"
    using assms(1) by (auto simp: drain_def prefix_snoc)
  have none: "\<not> (\<exists>c \<in> set hs. is_sentinel c)" if "prefix hs cmds"
    using that assms(2) by (auto simp: is_sentinel_def prefix_def)
  have "hs = take (length hs) cmds" if "prefix hs cmds" using that by (auto simp: prefix_def)
  then show "work hs = take (length hs) cmds"
    using cases none work_id[of hs] work_drain[OF assms(2)] by (auto simp: drain_def)
  show "(\<exists>c \<in> set hs. is_sentinel c) \<longleftrightarrow> hs = drain cmds"
    using cases none sentinel_drain by blast
qed

lemma pipeline_reach_facts:
  assumes "pipeline_reach bo (pipeline_start cap e0 cmds) p" "unat cap \<le> 2 ^ 63"
  obtains hs where "pipeline_inv_at bo e0 (drain cmds) hs p"
  using pipeline_reach_inv[OF assms(1) pipeline_start_inv[OF assms(2)]] by (auto simp: pipeline_inv_def)

lemma sample_session_defined:
  obtains e0 e1 where "engine_setup CancelResting 16 None = Some e0"
    "engine_run BigEndian cmds e0 = Some e1"
proof -
  obtain e0 where e0: "engine_setup CancelResting 16 None = Some e0"
    "engine_rep CancelResting e0 (spec_setup None)"
    by (rule engine_setup_ok)
  then show thesis
    using engine_run_defined[OF e0(2), of BigEndian cmds] that by (auto simp: spec_setup_def engine_init_def)
qed

definition pipeline_commands :: "command list" where
  "pipeline_commands = [make_submit 1 7 Buy (I64 100) 5, make_submit 2 8 Sell (I64 99) 3, make_cancel 1]"

lemma pipeline_commands_plain: "\<forall>c \<in> set pipeline_commands. c_type c \<noteq> Shutdown"
  by (simp add: pipeline_commands_def command_defs)

lemma pipeline_stopped:
  assumes "pipeline_reach bo (pipeline_start cap e0 cmds) p" and "unat cap \<le> 2 ^ 63"
    and "\<forall>c \<in> set cmds. c_type c \<noteq> Shutdown" and "\<not> pl_running p"
  shows "engine_run bo cmds e0 = Some (pl_engine p)" and "q_got (pl_queue p) = drain cmds"
    and "pl_todo p = []"
proof -
  obtain hs where inv: "pipeline_inv_at bo e0 (drain cmds) hs p"
    by (rule pipeline_reach_facts[OF assms(1,2)])
  note g = pipeline_inv_got[OF inv]
  have pre: "prefix hs (drain cmds)" using g(1) by (auto simp: prefix_def)
  have all: "hs = drain cmds" using work_prefix(2)[OF pre assms(3)] g(2) assms(4) by simp
  then show "engine_run bo cmds e0 = Some (pl_engine p)"
    using g(6) work_drain[OF assms(3)] by simp
  show got: "q_got (pl_queue p) = drain cmds" using g(1,3) all by (auto simp: prefix_def)
  show "pl_todo p = []"
    using g(4) got spsc_inv_fifo(1)[OF g(5)] by (auto simp: prefix_def)
qed

lemma pipeline_midway:
  assumes "pipeline_reach bo (pipeline_start cap e0 cmds) p" and "unat cap \<le> 2 ^ 63"
    and "\<forall>c \<in> set cmds. c_type c \<noteq> Shutdown"
  shows "\<exists>n. engine_run bo (take n cmds) e0 = Some (pl_engine p)"
    and "pipeline_step bo p None \<Longrightarrow> engine_run bo cmds e0 = None"
proof -
  obtain hs where inv: "pipeline_inv_at bo e0 (drain cmds) hs p"
    by (rule pipeline_reach_facts[OF assms(1,2)])
  note g = pipeline_inv_got[OF inv]
  have pre: "prefix hs (drain cmds)" using g(1) by (auto simp: prefix_def)
  show "\<exists>n. engine_run bo (take n cmds) e0 = Some (pl_engine p)"
    using g(6) work_prefix(1)[OF pre assms(3)] by metis
  show "pipeline_step bo p None \<Longrightarrow> engine_run bo cmds e0 = None"
    using pipeline_inv_step[OF _ inv, of None] work_drain[OF assms(3)] by auto
qed

lemma pipeline_ends:
  assumes "pipeline_reach bo (pipeline_start cap e0 cmds) p" and "unat cap \<le> 2 ^ 63"
    and "\<forall>c \<in> set cmds. c_type c \<noteq> Shutdown" and "engine_run bo cmds e0 = Some e1"
  shows "\<exists>p'. pipeline_reach bo p p' \<and> \<not> pl_running p' \<and> pl_engine p' = e1"
proof -
  obtain hs where inv: "pipeline_inv_at bo e0 (drain cmds) hs p"
    by (rule pipeline_reach_facts[OF assms(1,2)])
  have work: "work (drain cmds) = cmds" by (rule work_drain[OF assms(3)])
  then obtain p' where p': "pipeline_reach bo p p'" "\<not> pl_running p'"
    using pipeline_finishes[OF inv _ sentinel_drain] assms(4) by auto
  obtain hs' where inv': "pipeline_inv_at bo e0 (drain cmds) hs' p'"
    by (rule pipeline_reach_facts[OF pipeline_reach_trans[OF p'(1) assms(1)] assms(2)])
  note g = pipeline_inv_got[OF inv']
  have "prefix hs' (drain cmds)" using g(1) by (auto simp: prefix_def)
  then have "hs' = drain cmds" using work_prefix(2) assms(3) g(2) p'(2) by blast
  then have "pl_engine p' = e1" using g(6) work assms(4) by simp
  then show ?thesis using p' by blast
qed

section \<open>Properties\<close>

text \<open>
  C7: The threaded engine is the inline engine: whatever the interleaving, once the consumer has left
  its loop it has received every command of the producer and the sentinel, and the engine is in the
  state that applying the commands one after the other gives.
\<close>

theorem pipeline_is_inline:
  assumes "pipeline_reach bo (pipeline_start cap e0 cmds) p" and "unat cap \<le> 2 ^ 63"
    and "\<forall>c \<in> set cmds. c_type c \<noteq> Shutdown" and "\<not> pl_running p"
  shows "engine_run bo cmds e0 = Some (pl_engine p) \<and>
    q_got (pl_queue p) = drain cmds \<and>
    pl_todo p = []"
  using pipeline_stopped[OF assms] by blast

theorem pipeline_is_inline_witness:
  "\<exists>e0 p. engine_setup CancelResting 16 None = Some e0 \<and>
     pipeline_reach BigEndian (pipeline_start 2 e0 pipeline_commands) p \<and>
     engine_run BigEndian pipeline_commands e0 = Some (pl_engine p)"
proof -
  have cap: "unat (2 :: 64 word) \<le> 2 ^ 63" by simp
  obtain e0 e1 where e: "engine_setup CancelResting 16 None = Some e0"
    "engine_run BigEndian pipeline_commands e0 = Some e1"
    by (rule sample_session_defined)
  obtain hs where inv: "pipeline_inv_at BigEndian e0 (drain pipeline_commands) hs
      (pipeline_start 2 e0 pipeline_commands)"
    by (rule pipeline_reach_facts[OF pipeline_refl cap])
  obtain p where p: "pipeline_reach BigEndian (pipeline_start 2 e0 pipeline_commands) p" "\<not> pl_running p"
    using pipeline_finishes[OF inv _ sentinel_drain] e(2) work_drain[OF pipeline_commands_plain] by auto
  show ?thesis using pipeline_is_inline[OF p(1) cap pipeline_commands_plain p(2)] e(1) p(1) by blast
qed

text \<open>
  At every moment of a threaded session the engine is in the state that some of the first
  commands give, so the counters read from another thread are those of the inline engine; and
  nothing undefined happens on the way unless the inline engine overflows on the same commands.
\<close>

theorem pipeline_always_inline:
  assumes "pipeline_reach bo (pipeline_start cap e0 cmds) p" and "unat cap \<le> 2 ^ 63"
    and "\<forall>c \<in> set cmds. c_type c \<noteq> Shutdown"
  shows "(\<exists>n. engine_run bo (take n cmds) e0 = Some (pl_engine p)) \<and>
    (pipeline_step bo p None \<longrightarrow> engine_run bo cmds e0 = None)"
  using pipeline_midway[OF assms] by blast

theorem pipeline_always_inline_witness:
  "\<exists>e0 n. engine_setup CancelResting 16 None = Some e0 \<and>
     engine_run BigEndian (take n pipeline_commands) e0 = Some e0"
proof -
  have cap: "unat (2 :: 64 word) \<le> 2 ^ 63" by simp
  obtain e0 where e0: "engine_setup CancelResting 16 None = Some e0" using engine_setup_ok by blast
  have "\<exists>n. engine_run BigEndian (take n pipeline_commands) e0 =
      Some (pl_engine (pipeline_start 2 e0 pipeline_commands))"
    by (rule conjunct1[OF pipeline_always_inline[OF pipeline_refl cap pipeline_commands_plain]])
  then show ?thesis using e0 by (simp add: pipeline_start_def)
qed

text \<open>
  A threaded session never gets stuck: from every state that it can reach, \<open>drain_and_join\<close> can
  still bring it to its end, with the state of the inline engine.
\<close>

theorem pipeline_can_finish:
  assumes "pipeline_reach bo (pipeline_start cap e0 cmds) p" and "unat cap \<le> 2 ^ 63"
    and "\<forall>c \<in> set cmds. c_type c \<noteq> Shutdown" and "engine_run bo cmds e0 = Some e1"
  shows "\<exists>p'. pipeline_reach bo p p' \<and> \<not> pl_running p' \<and> pl_engine p' = e1"
  by (rule pipeline_ends[OF assms])

theorem pipeline_can_finish_witness:
  "\<exists>e0 p e1. engine_setup CancelResting 16 None = Some e0 \<and>
     pipeline_reach BigEndian (pipeline_start 2 e0 pipeline_commands) p \<and> \<not> pl_running p \<and>
     engine_run BigEndian pipeline_commands e0 = Some e1 \<and> pl_engine p = e1"
proof -
  have cap: "unat (2 :: 64 word) \<le> 2 ^ 63" by simp
  obtain e0 e1 where e: "engine_setup CancelResting 16 None = Some e0"
    "engine_run BigEndian pipeline_commands e0 = Some e1"
    by (rule sample_session_defined)
  show ?thesis
    using pipeline_can_finish[OF pipeline_refl cap pipeline_commands_plain e(2)] e by blast
qed

end
