(* ===== verification/PipelineFair.thy ===== *)
theory PipelineFair
  imports Pipeline
begin

text \<open>
  Termination of the threaded engine: \<open>drain_and_join\<close> of \<open>src/MatchingEngine.cpp\<close> returns in every
  run in which the scheduler neglects neither thread for ever and in which what one thread has
  published becomes visible to the other at some time.
\<close>

section \<open>Runs and fairness\<close>

text \<open>
  A run is an infinite sequence of states; a state may be repeated, which stands for the other
  threads of the machine and for the time after the last step.
\<close>

definition pipeline_run :: "byte_order \<Rightarrow> (nat \<Rightarrow> pipeline) \<Rightarrow> bool" where
  "pipeline_run bo r \<longleftrightarrow> (\<forall>i. pipeline_step bo (r i) (Some (r (Suc i))) \<or> r (Suc i) = r i)"

text \<open>
  A step is one of the producer when it changes where the producer is in \<open>push\<close>, and one of the
  consumer when it changes where the consumer is in \<open>pop\<close> or which command it holds.
\<close>

definition producer_moves :: "pipeline \<Rightarrow> pipeline \<Rightarrow> bool" where
  "producer_moves p p' \<longleftrightarrow> q_push (pl_queue p') \<noteq> q_push (pl_queue p)"

definition consumer_moves :: "pipeline \<Rightarrow> pipeline \<Rightarrow> bool" where
  "consumer_moves p p' \<longleftrightarrow> q_pop (pl_queue p') \<noteq> q_pop (pl_queue p) \<or> pl_cmd p' \<noteq> pl_cmd p"

text \<open>Neither thread is neglected for ever while it has something to do.\<close>

definition fair_run :: "(nat \<Rightarrow> pipeline) \<Rightarrow> bool" where
  "fair_run r \<longleftrightarrow>
     (\<forall>m. \<exists>k \<ge> m. pl_todo (r k) = [] \<or> producer_moves (r k) (r (Suc k))) \<and>
     (\<forall>m. \<exists>k \<ge> m. \<not> pl_running (r k) \<or> consumer_moves (r k) (r (Suc k)))"

text \<open>
  A store becomes visible in finite time: from some moment on, the loads of an index give a value at
  least as new as any that had been stored before.
\<close>

definition visible_run :: "(nat \<Rightarrow> pipeline) \<Rightarrow> bool" where
  "visible_run r \<longleftrightarrow>
     (\<forall>i. \<exists>j. \<forall>k \<ge> j. producer_moves (r k) (r (Suc k)) \<longrightarrow>
        (\<exists>v tail. q_push (pl_queue (r k)) = Push_loaded v tail) \<longrightarrow>
        length (q_got (pl_queue (r i))) \<le> q_hview (pl_queue (r (Suc k)))) \<and>
     (\<forall>i. \<exists>j. \<forall>k \<ge> j. consumer_moves (r k) (r (Suc k)) \<longrightarrow>
        (\<exists>head. q_pop (pl_queue (r k)) = Pop_loaded head) \<longrightarrow>
        length (q_sent (pl_queue (r i))) \<le> q_tview (pl_queue (r (Suc k))))"

section \<open>Phases of an operation\<close>

text \<open>
  A sequence of program counters that changes infinitely often and goes through the phases in
  order, never getting past the last, comes back to the check infinitely often.
\<close>

lemma next_change:
  fixes m :: nat
  assumes "\<exists>k \<ge> m. f (Suc k) \<noteq> f k"
  obtains k where "m \<le> k" "f k = f m" "f (Suc k) \<noteq> f k"
proof -
  let ?P = "\<lambda>k. m \<le> k \<and> f (Suc k) \<noteq> f k"
  obtain k0 where "?P k0" using assms by blast
  then have least: "?P (LEAST k. ?P k)" by (rule LeastI)
  have "f k = f m" if "m \<le> k" "k \<le> (LEAST k. ?P k)" for k
    using that
  proof (induction k rule: dec_induct)
    case (step k)
    then show ?case using not_less_Least[of k ?P] by (metis Suc_leD Suc_le_lessD)
  qed simp
  then show thesis using that[OF conjunct1[OF least] _ conjunct2[OF least]] least by blast
qed

definition cycle_phases :: "(nat \<times> nat) set" where
  "cycle_phases = {(0, 1), (1, 0), (1, 2), (2, 3)}"

lemma phases_return:
  fixes f :: "nat \<Rightarrow> 'a" and phase :: "'a \<Rightarrow> nat"
  assumes often: "\<And>m. \<exists>k \<ge> m. f (Suc k) \<noteq> f k"
    and phases: "\<And>k. n \<le> k \<Longrightarrow> f (Suc k) \<noteq> f k \<Longrightarrow> (phase (f k), phase (f (Suc k))) \<in> cycle_phases"
    and m: "n \<le> m"
  obtains k where "m \<le> k" "f (Suc k) \<noteq> f k" "phase (f k) = 1" "phase (f (Suc k)) = 0"
proof -
  note goal = that
  have change: "\<exists>k \<ge> i. f k = f i \<and> (phase (f i), phase (f (Suc k))) \<in> cycle_phases \<and> f (Suc k) \<noteq> f k"
    if "n \<le> i" for i
  proof -
    obtain k where k: "i \<le> k" "f k = f i" "f (Suc k) \<noteq> f k" by (rule next_change[where f = f, OF often])
    then show ?thesis using phases[of k] that by (intro exI[of _ k]) auto
  qed
  have not3: "phase (f i) \<noteq> 3" if "n \<le> i" for i
    using change[OF that] by (auto simp: cycle_phases_def)
  have not2: "phase (f i) \<noteq> 2" if i: "n \<le> i" for i
  proof
    assume "phase (f i) = 2"
    then obtain k where "i \<le> k" "phase (f (Suc k)) = 3"
      using change[OF i] by (auto simp: cycle_phases_def)
    then show False using not3[of "Suc k"] i by simp
  qed
  have again: thesis if i: "m \<le> i" "phase (f i) = 1" for i
  proof -
    obtain k where k: "k \<ge> i" "f k = f i" "(phase (f i), phase (f (Suc k))) \<in> cycle_phases"
      "f (Suc k) \<noteq> f k"
      using change[of i] i m by auto
    then have "phase (f (Suc k)) = 0"
      using i not2[of "Suc k"] m by (auto simp: cycle_phases_def)
    moreover have "m \<le> k" "phase (f k) = 1" using k(1,2) i by simp_all
    ultimately show thesis using goal[of k] k(4) by blast
  qed
  obtain k where k: "m \<le> k" "(phase (f m), phase (f (Suc k))) \<in> cycle_phases" using change[OF m] by auto
  then consider "phase (f m) = 1" | "phase (f (Suc k)) = 1" | "phase (f m) = 2"
    by (auto simp: cycle_phases_def)
  then show thesis
  proof cases
    case 1
    then show thesis using again[of m] by simp
  next
    case 2
    then show thesis using again[of "Suc k"] k(1) by simp
  next
    case 3
    then show thesis using not2[OF m] by simp
  qed
qed

lemma bounded_stabilises:
  fixes f :: "nat \<Rightarrow> nat"
  assumes "\<And>i. f i \<le> f (Suc i)" and "\<And>i. f i \<le> b"
  shows "\<exists>n. \<forall>k \<ge> n. f k = f n"
proof -
  have "finite (range f)" using assms(2) by (auto intro: finite_subset[of _ "{..b}"])
  then have max: "\<And>k. f k \<le> Max (range f)" "Max (range f) \<in> range f" by auto
  then obtain n where n: "f n = Max (range f)" by auto
  have "f k = f n" if "n \<le> k" for k
    using max(1)[of k] n lift_Suc_mono_le[of f, OF assms(1) that] by simp
  then show ?thesis by blast
qed

section \<open>Effort\<close>

fun push_phase :: "'a push_pc \<Rightarrow> nat" where
  "push_phase Push_idle = 0"
| "push_phase (Push_loaded _ _) = 1"
| "push_phase (Push_room _ _) = 2"
| "push_phase (Push_written _ _) = 3"

fun pop_phase :: "'a pop_pc \<Rightarrow> nat" where
  "pop_phase Pop_idle = 0"
| "pop_phase (Pop_loaded _) = 1"
| "pop_phase (Pop_some _) = 2"
| "pop_phase (Pop_taken _ _) = 3"

text \<open>What the threads have achieved: pushes, pops and commands handled.\<close>

definition effort :: "pipeline \<Rightarrow> nat" where
  "effort p = length (q_sent (pl_queue p)) + 2 * length (q_got (pl_queue p)) +
     (if pl_cmd p = None then 1 else 0)"

text \<open>
  A step does not lose effort; one that gains none is a failed operation or a step within one, and
  a failed operation found the queue full, or empty, as far as its thread had seen.
\<close>

definition idle_step :: "pipeline \<Rightarrow> pipeline \<Rightarrow> bool" where
  "idle_step p p' \<longleftrightarrow>
     (let q = pl_queue p; q' = pl_queue p' in
      pl_cmd p' = pl_cmd p \<and> q_sent q' = q_sent q \<and> q_got q' = q_got q \<and> pl_todo p' = pl_todo p \<and>
      (q_push q' = q_push q \<or> (push_phase (q_push q), push_phase (q_push q')) \<in> cycle_phases) \<and>
      (q_pop q' = q_pop q \<or>
        pl_cmd p = None \<and> (pop_phase (q_pop q), pop_phase (q_pop q')) \<in> cycle_phases) \<and>
      (push_phase (q_push q) = 1 \<and> push_phase (q_push q') = 0 \<longrightarrow>
        length (q_sent q) = q_hview q' + ring_cap (q_ring q)) \<and>
      (pop_phase (q_pop q) = 1 \<and> pop_phase (q_pop q') = 0 \<longrightarrow> q_tview q' = length (q_got q)))"

lemma effort_step:
  assumes step: "pipeline_step bo p (Some p')" and inv: "pipeline_inv_at bo e0 all hs p"
  shows "effort p < effort p' \<or> idle_step p p'"
proof -
  have qi: "spsc_inv (pl_queue p)" and ok: "consumer_ok (q_pop (pl_queue p) = Pop_idle) (pl_cmd p) (pl_running p) hs"
    using inv by (simp_all add: pipeline_inv_defs)
  from step show ?thesis
  proof (cases rule: pipeline_step.cases)
    case (produce_call c cs q)
    then show ?thesis by (auto elim!: push_callE simp: idle_step_def cycle_phases_def)
  next
    case (produce_inner q)
    then show ?thesis by (auto elim!: push_innerE simp: idle_step_def cycle_phases_def Let_def)
  next
    case (produce_full c q)
    then show ?thesis
      using push_check(1)[OF qi] by (auto elim!: push_returnE simp: idle_step_def cycle_phases_def Let_def)
  next
    case (produce_accepted c cs q)
    then show ?thesis by (auto elim!: push_returnE simp: effort_def)
  next
    case (consume_call q)
    then show ?thesis by (auto elim!: pop_callE simp: idle_step_def cycle_phases_def Let_def)
  next
    case (consume_inner q)
    then have "pl_cmd p = None" using ok by (auto elim!: pop_innerE simp: consumer_ok_def)
    with consume_inner show ?thesis
      by (auto elim!: pop_innerE simp: idle_step_def cycle_phases_def Let_def)
  next
    case (consume_empty q)
    then have "pl_cmd p = None" using ok by (auto elim!: pop_returnE simp: consumer_ok_def)
    moreover obtain head k where "q_pop (pl_queue p) = Pop_loaded head" "q_tview (pl_queue p) \<le> k"
      "k < length (rb_tail (q_ring (pl_queue p)))" "head = rb_tail (q_ring (pl_queue p)) ! k"
      "q = (pl_queue p)\<lparr>q_pop := Pop_idle, q_tview := k\<rparr>"
      using consume_empty(2) by (auto elim!: pop_returnE)
    ultimately show ?thesis
      using pop_check(1)[OF qi, of head k] consume_empty(1)
      by (simp add: idle_step_def cycle_phases_def Let_def)
  next
    case (consume_got c q)
    then have "pl_cmd p = None" using ok by (auto elim!: pop_returnE simp: consumer_ok_def)
    with consume_got show ?thesis by (auto elim!: pop_returnE simp: effort_def)
  qed (auto simp: effort_def)
qed


section \<open>Fair runs end\<close>

lemma idle_moves:
  assumes "idle_step p p'"
  shows "consumer_moves p p' \<longleftrightarrow> q_pop (pl_queue p') \<noteq> q_pop (pl_queue p)"
    and "pl_cmd p \<noteq> None \<Longrightarrow> \<not> consumer_moves p p'"
  using assms by (auto simp: idle_step_def consumer_moves_def Let_def)

lemma idle_same: "idle_step p p"
  by (auto simp: idle_step_def cycle_phases_def Let_def)

text \<open>The facts of a run, from here on with its invariant at every moment.\<close>

lemma run_reach:
  assumes "pipeline_run bo r"
  shows "pipeline_reach bo (r 0) (r i)"
proof (induction i)
  case (Suc i)
  then show ?case
    using assms pipeline_more[OF Suc] unfolding pipeline_run_def by (metis (no_types))
qed (rule pipeline_refl)

lemma run_settles:
  assumes run: "pipeline_run bo r" and inv: "\<And>i. \<exists>hs. pipeline_inv_at bo e0 all hs (r i)"
  shows "\<exists>n. \<forall>k \<ge> n. idle_step (r k) (r (Suc k))"
proof -
  have step: "effort (r i) < effort (r (Suc i)) \<or> idle_step (r i) (r (Suc i))" for i
    using run inv[of i] effort_step idle_same unfolding pipeline_run_def by metis
  have le: "effort (r i) \<le> effort (r (Suc i))" for i
    using step[of i] by (auto simp: idle_step_def effort_def Let_def)
  have bound: "effort (r i) \<le> 3 * length all + 1" for i
  proof -
    obtain hs where hs: "pipeline_inv_at bo e0 all hs (r i)" using inv by blast
    have "length (q_got (pl_queue (r i))) \<le> length (q_sent (pl_queue (r i)))"
      "length (q_sent (pl_queue (r i))) \<le> length all"
      using pipeline_inv_got(4,5)[OF hs] spsc_inv_fifo(1) by (auto dest: prefix_length_le)
    then show ?thesis by (simp add: effort_def)
  qed
  obtain n where n: "\<And>k. n \<le> k \<Longrightarrow> effort (r k) = effort (r n)"
    using bounded_stabilises[of "\<lambda>i. effort (r i)", OF le bound] by blast
  have "idle_step (r k) (r (Suc k))" if "n \<le> k" for k
    using step[of k] n[of k] n[of "Suc k"] that by simp
  then show ?thesis by blast
qed

lemma settled_same:
  assumes settled: "\<forall>k \<ge> n. idle_step (r k) (r (Suc k))" and k: "n \<le> k"
  shows "pl_cmd (r k) = pl_cmd (r n)" "pl_todo (r k) = pl_todo (r n)"
    "q_sent (pl_queue (r k)) = q_sent (pl_queue (r n))" "q_got (pl_queue (r k)) = q_got (pl_queue (r n))"
proof -
  have "pl_cmd (r k) = pl_cmd (r n) \<and> pl_todo (r k) = pl_todo (r n) \<and>
    q_sent (pl_queue (r k)) = q_sent (pl_queue (r n)) \<and> q_got (pl_queue (r k)) = q_got (pl_queue (r n))"
    using k
  proof (induction k rule: dec_induct)
    case (step k)
    then show ?case using settled by (simp add: idle_step_def Let_def)
  qed simp
  then show "pl_cmd (r k) = pl_cmd (r n)" "pl_todo (r k) = pl_todo (r n)"
    "q_sent (pl_queue (r k)) = q_sent (pl_queue (r n))" "q_got (pl_queue (r k)) = q_got (pl_queue (r n))"
    by simp_all
qed

text \<open>
  A run that has settled with the consumer still in its loop: the consumer has seen all that was
  pushed, and the producer then finds room.
\<close>

lemma settled_consumer:
  assumes settled: "\<forall>k \<ge> n. idle_step (r k) (r (Suc k))"
    and moves: "\<And>m. \<exists>k \<ge> m. consumer_moves (r k) (r (Suc k))"
    and visible: "visible_run r" and inv: "pipeline_inv_at bo e0 all hs (r n)"
  shows "pl_cmd (r n) = None \<and> q_sent (pl_queue (r n)) = q_got (pl_queue (r n))"
proof -
  have idle: "idle_step (r k) (r (Suc k))" if "n \<le> k" for k using settled that by blast
  let ?f = "\<lambda>k. q_pop (pl_queue (r k))"
  note same = settled_same[OF settled]
  obtain k0 where "n \<le> k0" "consumer_moves (r k0) (r (Suc k0))" using moves by blast
  then have cmd: "pl_cmd (r n) = None"
    using idle_moves(2)[OF idle[of k0]] same(1)[of k0] by (cases "pl_cmd (r n)") simp_all
  have often: "\<exists>k \<ge> m. ?f (Suc k) \<noteq> ?f k" for m
  proof -
    obtain k where "max m n \<le> k" "consumer_moves (r k) (r (Suc k))" using moves by blast
    then show ?thesis using idle_moves(1)[OF idle] by auto
  qed
  have phases: "(pop_phase (?f k), pop_phase (?f (Suc k))) \<in> cycle_phases"
    if "n \<le> k" "?f (Suc k) \<noteq> ?f k" for k
    using idle[OF that(1)] that(2) by (simp add: idle_step_def Let_def)
  obtain j where j: "\<And>k. j \<le> k \<Longrightarrow> consumer_moves (r k) (r (Suc k)) \<Longrightarrow>
      \<exists>head. ?f k = Pop_loaded head \<Longrightarrow>
      length (q_sent (pl_queue (r n))) \<le> q_tview (pl_queue (r (Suc k)))"
    using visible unfolding visible_run_def by meson
  have "n \<le> max n j" by simp
  then obtain k where k: "max n j \<le> k" "?f (Suc k) \<noteq> ?f k" "pop_phase (?f k) = 1"
    "pop_phase (?f (Suc k)) = 0"
    using phases_return[where f = ?f and phase = pop_phase and n = n, OF often phases] by metis
  have "\<exists>head. ?f k = Pop_loaded head" using k(3) by (cases "?f k") auto
  then have "length (q_sent (pl_queue (r n))) \<le> q_tview (pl_queue (r (Suc k)))"
    using j[of k] k(1,2) by (simp add: consumer_moves_def)
  moreover have "q_tview (pl_queue (r (Suc k))) = length (q_got (pl_queue (r n)))"
    using idle[of k] k same(4)[of k] by (simp add: idle_step_def Let_def)
  ultimately have "length (q_sent (pl_queue (r n))) \<le> length (q_got (pl_queue (r n)))" by simp
  moreover have "prefix (q_got (pl_queue (r n))) (q_sent (pl_queue (r n)))"
    using pipeline_inv_got(5)[OF inv] spsc_inv_fifo(1) by blast
  ultimately show ?thesis using cmd by (auto simp: prefix_def)
qed

lemma settled_producer:
  assumes settled: "\<forall>k \<ge> n. idle_step (r k) (r (Suc k))"
    and moves: "\<And>m. \<exists>k \<ge> m. producer_moves (r k) (r (Suc k))"
    and visible: "visible_run r" and inv: "\<And>i. \<exists>hs. pipeline_inv_at bo e0 all hs (r i)"
  shows "q_sent (pl_queue (r n)) \<noteq> q_got (pl_queue (r n))"
proof -
  have idle: "idle_step (r k) (r (Suc k))" if "n \<le> k" for k using settled that by blast
  let ?f = "\<lambda>k. q_push (pl_queue (r k))"
  note same = settled_same[OF settled]
  have often: "\<exists>k \<ge> m. ?f (Suc k) \<noteq> ?f k" for m using moves by (simp add: producer_moves_def)
  have phases: "(push_phase (?f k), push_phase (?f (Suc k))) \<in> cycle_phases"
    if "n \<le> k" "?f (Suc k) \<noteq> ?f k" for k
    using idle[OF that(1)] that(2) by (simp add: idle_step_def Let_def)
  obtain j where j: "\<And>k. j \<le> k \<Longrightarrow> producer_moves (r k) (r (Suc k)) \<Longrightarrow>
      \<exists>v tail. ?f k = Push_loaded v tail \<Longrightarrow>
      length (q_got (pl_queue (r n))) \<le> q_hview (pl_queue (r (Suc k)))"
    using visible unfolding visible_run_def by meson
  have "n \<le> max n j" by simp
  then obtain k where k: "max n j \<le> k" "?f (Suc k) \<noteq> ?f k" "push_phase (?f k) = 1"
    "push_phase (?f (Suc k)) = 0"
    using phases_return[where f = ?f and phase = push_phase and n = n, OF often phases] by metis
  have "\<exists>v tail. ?f k = Push_loaded v tail" using k(3) by (cases "?f k") auto
  then have "length (q_got (pl_queue (r n))) \<le> q_hview (pl_queue (r (Suc k)))"
    using j[of k] k(1,2) by (simp add: producer_moves_def)
  moreover have "length (q_sent (pl_queue (r n))) =
      q_hview (pl_queue (r (Suc k))) + ring_cap (q_ring (pl_queue (r k)))"
    using idle[of k] k same(3)[of k] by (simp add: idle_step_def Let_def)
  moreover have "0 < ring_cap (q_ring (pl_queue (r k)))"
    using inv[of k] pipeline_inv_got(5) ring_shape_bounds(1)[OF spsc_invD(3)] by blast
  ultimately show ?thesis by auto
qed

lemma fair_run_stops:
  assumes run: "pipeline_run bo r" and inv: "\<And>i. \<exists>hs. pipeline_inv_at bo e0 all hs (r i)"
    and fair: "fair_run r" and visible: "visible_run r" and more: "\<exists>c \<in> set all. is_sentinel c"
  shows "\<exists>i. \<not> pl_running (r i)"
proof (rule ccontr)
  assume "\<not> ?thesis"
  then have running: "\<And>i. pl_running (r i)" by blast
  have consumer: "\<exists>k \<ge> m. consumer_moves (r k) (r (Suc k))" for m
    using fair running unfolding fair_run_def by blast
  obtain n where settled: "\<forall>k \<ge> n. idle_step (r k) (r (Suc k))"
    using run_settles[OF run inv] by blast
  obtain hs where hs: "pipeline_inv_at bo e0 all hs (r n)" using inv by blast
  note seen = settled_consumer[OF settled consumer visible hs]
  note g = pipeline_inv_got[OF hs]
  have "pl_todo (r n) \<noteq> []" using g(2-4) running[of n] seen more by auto
  then have todo: "pl_todo (r k) \<noteq> []" if "n \<le> k" for k using settled_same(2)[OF settled that] by simp
  have "\<exists>k \<ge> m. producer_moves (r k) (r (Suc k))" for m
  proof -
    obtain k where "max m n \<le> k" "pl_todo (r k) = [] \<or> producer_moves (r k) (r (Suc k))"
      using fair unfolding fair_run_def by blast
    then show ?thesis using todo[of k] by auto
  qed
  from settled_producer[OF settled this visible inv] seen show False by simp
qed


lemma stopped_stays:
  "pipeline_step bo p res \<Longrightarrow> res = Some p' \<Longrightarrow> \<not> pl_running p \<Longrightarrow> \<not> pl_running p'"
  by (induction rule: pipeline_step.induct) auto

lemma run_stays_stopped:
  assumes "pipeline_run bo r" "\<not> pl_running (r n)" "n \<le> i"
  shows "\<not> pl_running (r i)"
  using assms(3)
proof (induction i rule: dec_induct)
  case (step i)
  then show ?case using assms(1) stopped_stays unfolding pipeline_run_def by metis
qed (rule assms(2))

lemma fair_run_ends:
  assumes run: "pipeline_run bo r" and start: "r 0 = pipeline_start cap e0 cmds"
    and cap: "unat cap \<le> 2 ^ 63" and plain: "\<forall>c \<in> set cmds. c_type c \<noteq> Shutdown"
    and fair: "fair_run r" "visible_run r"
  shows "\<exists>n. \<forall>i \<ge> n. \<not> pl_running (r i) \<and> pl_todo (r i) = [] \<and>
    engine_run bo cmds e0 = Some (pl_engine (r i))"
proof -
  have reach: "pipeline_reach bo (pipeline_start cap e0 cmds) (r i)" for i
    using run_reach[OF run] start by simp
  have "\<exists>hs. pipeline_inv_at bo e0 (drain cmds) hs (r i)" for i
    using pipeline_reach_facts[OF reach cap] by blast
  from fair_run_stops[OF run this fair sentinel_drain] obtain n where n: "\<not> pl_running (r n)" by blast
  note stopped = run_stays_stopped[OF run n]
  show ?thesis
    using stopped pipeline_stopped(1,3)[OF reach cap plain stopped] by blast
qed

text \<open>Every run of finitely many steps that has finished goes on, idle, as a fair run.\<close>

lemma reach_run:
  assumes "pipeline_reach bo p p'"
  shows "\<exists>r n. pipeline_run bo r \<and> r 0 = p \<and> (\<forall>k \<ge> n. r k = p')"
  using assms
proof (induction rule: pipeline_reach.induct)
  case pipeline_refl
  have "pipeline_run bo (\<lambda>_. p)" by (simp add: pipeline_run_def)
  then show ?case by blast
next
  case (pipeline_more p1 p2)
  then obtain r n where r: "pipeline_run bo r" "r 0 = p" "\<And>k. n \<le> k \<Longrightarrow> r k = p1" by blast
  let ?r = "\<lambda>k. if k \<le> n then r k else p2"
  have "pipeline_step bo (?r i) (Some (?r (Suc i))) \<or> ?r (Suc i) = ?r i" for i
    using r(1) r(3)[of i] pipeline_more.hyps(2) unfolding pipeline_run_def
    by (cases "i < n"; cases "i = n") auto
  then have "pipeline_run bo ?r" unfolding pipeline_run_def by blast
  moreover have "?r 0 = p" "\<forall>k \<ge> Suc n. ?r k = p2" using r(2) by auto
  ultimately show ?case by blast
qed

lemma finished_fair:
  assumes "\<forall>k \<ge> n. r k = p'" "\<not> pl_running p'" "pl_todo p' = []"
  shows "fair_run r" "visible_run r"
proof -
  have same: "r k = p'" "r (Suc k) = p'" if "n \<le> k" for k using assms(1) that by simp_all
  have "\<exists>k \<ge> m. r k = p'" for m using assms(1) by (intro exI[of _ "max m n"]) simp
  then show "fair_run r" using assms(2,3) unfolding fair_run_def by metis
  show "visible_run r"
    unfolding visible_run_def producer_moves_def consumer_moves_def
    using same by (metis)
qed

section \<open>Properties\<close>

text \<open>
  C14: Termination: in every run in which neither thread is neglected for ever and stores become
  visible in finite time, \<open>drain_and_join\<close> returns: from some moment on the consumer has left its
  loop, nothing is left to push, and the engine is in the state of the inline engine.
\<close>

theorem pipeline_fair_terminates:
  assumes "pipeline_run bo r" and "r 0 = pipeline_start cap e0 cmds" and "unat cap \<le> 2 ^ 63"
    and "\<forall>c \<in> set cmds. c_type c \<noteq> Shutdown" and "fair_run r" and "visible_run r"
  shows "\<exists>n. \<forall>i \<ge> n. \<not> pl_running (r i) \<and> pl_todo (r i) = [] \<and>
    engine_run bo cmds e0 = Some (pl_engine (r i))"
  by (rule fair_run_ends[OF assms])

theorem pipeline_fair_terminates_witness:
  "\<exists>e0 r n. engine_setup CancelResting 16 None = Some e0 \<and>
     pipeline_run BigEndian r \<and> r 0 = pipeline_start 2 e0 pipeline_commands \<and> fair_run r \<and>
     visible_run r \<and> engine_run BigEndian pipeline_commands e0 = Some (pl_engine (r n))"
proof -
  have cap: "unat (2 :: 64 word) \<le> 2 ^ 63" by simp
  obtain e0 e1 where e: "engine_setup CancelResting 16 None = Some e0"
    "engine_run BigEndian pipeline_commands e0 = Some e1"
    by (rule sample_session_defined)
  let ?p = "pipeline_start 2 e0 pipeline_commands"
  obtain p where p: "pipeline_reach BigEndian ?p p" "\<not> pl_running p"
    using pipeline_ends[OF pipeline_refl cap pipeline_commands_plain e(2)] by blast
  have todo: "pl_todo p = []" by (rule pipeline_stopped(3)[OF p(1) cap pipeline_commands_plain p(2)])
  obtain r n where r: "pipeline_run BigEndian r" "r 0 = ?p" "\<forall>k \<ge> n. r k = p"
    using reach_run[OF p(1)] by blast
  note fair = finished_fair[OF r(3) p(2) todo]
  show ?thesis
    using pipeline_fair_terminates[OF r(1,2) cap pipeline_commands_plain fair] e(1) r(1,2) fair by blast
qed

end
