(* ===== verification/PipelineJournal.thy ===== *)
theory PipelineJournal
  imports PipelineFair
begin

text \<open>
  The journal of a threaded session: the consumer of \<open>src/MatchingEngine.cpp\<close> appends the commands
  that it takes from the queue to the event log of \<open>src/EventLog.cpp\<close>, and \<open>replay_log\<close> rebuilds an
  engine from the file after the session, or from what a crash in the middle of it has left.
\<close>

section \<open>Replays of a threaded session\<close>

lemma flush_run:
  assumes "engine_run bo cmds (flush_log live) = Some e" and "enable_logging bo opened e0 = Inr live"
  obtains w where "en_log e = Some w"
proof -
  obtain w0 where "live = e0\<lparr>en_log := Some w0\<rparr>"
    using assms(2) by (auto simp: enable_logging_def split: sum.splits)
  then show thesis
    using engine_run_logged[OF assms(1)] that by (simp add: flush_log_def)
qed

lemma threaded_crash:
  assumes conf: "engine_setup pol pool_capacity cfg = Some e0" "enable_logging bo True e0 = Inr live"
    and reach: "pipeline_reach bo (pipeline_start cap (flush_log live) cmds) p" and cap: "unat cap \<le> 2 ^ 63"
    and plain: "\<forall>c \<in> set cmds. c_type c \<noteq> Shutdown" and canon: "\<forall>c \<in> set cmds. command_canonical c"
    and crash: "en_log (pl_engine p) = Some w" "may_survive w survivor"
  shows "\<exists>k e. engine_run bo (take k cmds) (flush_log live) = Some e \<and>
    replay_log bo (Some survivor) e0 = Some (Inr (unlogged e))"
proof -
  obtain n where n: "engine_run bo (take n cmds) (flush_log live) = Some (pl_engine p)"
    using pipeline_midway(1)[OF reach cap plain] by blast
  have "\<forall>c \<in> set ([] @ take n cmds). command_canonical c"
    using canon by (auto dest: in_set_takeD)
  moreover have "engine_run bo [] live = Some live" by simp
  ultimately obtain us e where us: "prefix us (take n cmds)" "engine_run bo us (flush_log live) = Some e"
    "replay_log bo (Some survivor) e0 = Some (Inr (unlogged e))"
    using engine_crash[OF conf _ n _ crash] by metis
  then obtain k where "us = take k cmds" by (metis prefix_order.trans take_is_prefix prefix_def append_eq_conv_conj)
  then show ?thesis using us(2,3) by blast
qed

lemma threaded_replay:
  assumes conf: "engine_setup pol pool_capacity cfg = Some e0" "enable_logging bo True e0 = Inr live"
    and run: "pipeline_run bo r" "r 0 = pipeline_start cap live cmds" and cap: "unat cap \<le> 2 ^ 63"
    and plain: "\<forall>c \<in> set cmds. c_type c \<noteq> Shutdown" and canon: "\<forall>c \<in> set cmds. command_canonical c"
    and fair: "fair_run r" "visible_run r"
  shows "\<exists>m. \<forall>i \<ge> m. \<not> pl_running (r i) \<and>
    (\<exists>w. en_log (pl_engine (r i)) = Some w \<and>
      replay_log bo (Some (log_close w)) e0 = Some (Inr (unlogged (pl_engine (r i)))))"
proof -
  obtain m where m: "\<And>i. m \<le> i \<Longrightarrow> \<not> pl_running (r i)"
    "\<And>i. m \<le> i \<Longrightarrow> engine_run bo cmds live = Some (pl_engine (r i))"
    using fair_run_ends[OF run cap plain fair] by blast
  have "\<exists>w. en_log (pl_engine (r i)) = Some w \<and>
      replay_log bo (Some (log_close w)) e0 = Some (Inr (unlogged (pl_engine (r i))))" if "m \<le> i" for i
    using engine_replay[OF engine_setup_unlogged[OF conf(1)] conf(2) m(2)[OF that] canon] by blast
  then show ?thesis using m(1) by blast
qed

lemma pipeline_commands_canonical: "\<forall>c \<in> set pipeline_commands. command_canonical c"
  by (simp add: pipeline_commands_def command_canonical_def command_defs byte_command_type_def
      byte_order_type_def byte_side_def)

text \<open>A threaded session with a journal that was flushed before it, for the witnesses.\<close>

lemma journal_sample:
  obtains e0 live p w where "engine_setup CancelResting 16 None = Some e0"
    "enable_logging BigEndian True e0 = Inr live"
    "pipeline_reach BigEndian (pipeline_start 2 (flush_log live) pipeline_commands) p" "\<not> pl_running p"
    "en_log (pl_engine p) = Some w"
proof -
  have cap: "unat (2 :: 64 word) \<le> 2 ^ 63" by simp
  obtain e0 where e0: "engine_setup CancelResting 16 None = Some e0"
    "engine_rep CancelResting e0 (spec_setup None)"
    by (rule engine_setup_ok)
  obtain live where live: "enable_logging BigEndian True e0 = Inr live"
    by (simp add: enable_logging_def log_open_def)
  obtain E where E: "engine_rep CancelResting live E" "en_risk E = en_risk (spec_setup None)"
    by (rule engine_logged_rep[OF live e0(2)])
  obtain e1 where e1: "engine_run BigEndian pipeline_commands (flush_log live) = Some e1"
    using engine_run_defined[OF flush_log_rep[OF E(1)], of BigEndian pipeline_commands] E(2)
    by (auto simp: spec_setup_def engine_init_def)
  obtain p where p: "pipeline_reach BigEndian (pipeline_start 2 (flush_log live) pipeline_commands) p"
    "\<not> pl_running p" "pl_engine p = e1"
    using pipeline_ends[OF pipeline_refl cap pipeline_commands_plain e1] by blast
  obtain w where "en_log e1 = Some w" by (rule flush_run[OF e1 live])
  then show thesis using that e0(1) live p by blast
qed

section \<open>Properties\<close>

text \<open>
  C10: A crash in the middle of a threaded session loses commands at the end only: with the journal
  flushed before the start, whatever of it survives a crash at any moment of any interleaving replays
  into the state that some of the first commands of the producer give.
\<close>

theorem threaded_crash_recovers:
  assumes "engine_setup pol pool_capacity cfg = Some e0" and "enable_logging bo True e0 = Inr live"
    and "pipeline_reach bo (pipeline_start cap (flush_log live) cmds) p" and "unat cap \<le> 2 ^ 63"
    and "\<forall>c \<in> set cmds. c_type c \<noteq> Shutdown" and "\<forall>c \<in> set cmds. command_canonical c"
    and "en_log (pl_engine p) = Some w" and "may_survive w survivor"
  shows "\<exists>k e. engine_run bo (take k cmds) (flush_log live) = Some e \<and>
    replay_log bo (Some survivor) e0 = Some (Inr (unlogged e))"
  by (rule threaded_crash[OF assms])

theorem threaded_crash_recovers_witness:
  "\<exists>e0 live p w k e. engine_setup CancelResting 16 None = Some e0 \<and>
     pipeline_reach BigEndian (pipeline_start 2 (flush_log live) pipeline_commands) p \<and>
     en_log (pl_engine p) = Some w \<and>
     engine_run BigEndian (take k pipeline_commands) (flush_log live) = Some e \<and>
     replay_log BigEndian (Some (take (lw_flushed w) (lw_bytes w))) e0 = Some (Inr (unlogged e))"
proof -
  have cap: "unat (2 :: 64 word) \<le> 2 ^ 63" by simp
  obtain e0 live p w where s: "engine_setup CancelResting 16 None = Some e0"
    "enable_logging BigEndian True e0 = Inr live"
    "pipeline_reach BigEndian (pipeline_start 2 (flush_log live) pipeline_commands) p" "\<not> pl_running p"
    "en_log (pl_engine p) = Some w"
    by (rule journal_sample)
  obtain w0 where w0: "log_open BigEndian True = Inr w0" "live = e0\<lparr>en_log := Some w0\<rparr>"
    using s(2) by (auto simp: enable_logging_def split: sum.splits)
  have "engine_run BigEndian pipeline_commands (flush_log live) = Some (pl_engine p)"
    by (rule pipeline_stopped(1)[OF s(3) cap pipeline_commands_plain s(4)])
  then have "w = fold (log_append BigEndian) pipeline_commands (log_flush w0)"
    using engine_run_logged s(5) w0(2) by (fastforce simp: flush_log_def)
  then have "lw_flushed w \<le> length (lw_bytes w)"
    by (simp only: log_appends) (simp add: log_flush_def)
  then have "may_survive w (take (lw_flushed w) (lw_bytes w))"
    by (simp add: may_survive_def take_is_prefix)
  from threaded_crash_recovers[OF s(1,2,3) cap pipeline_commands_plain pipeline_commands_canonical s(5) this]
  show ?thesis using s by blast
qed

text \<open>
  C15: A threaded session replays exactly: in every fair run the session ends, and the journal closed
  after it replays, in a fresh engine of the same configuration, into the very state of the live one.
\<close>

theorem threaded_session_replays:
  assumes "engine_setup pol pool_capacity cfg = Some e0" and "enable_logging bo True e0 = Inr live"
    and "pipeline_run bo r" and "r 0 = pipeline_start cap live cmds" and "unat cap \<le> 2 ^ 63"
    and "\<forall>c \<in> set cmds. c_type c \<noteq> Shutdown" and "\<forall>c \<in> set cmds. command_canonical c"
    and "fair_run r" and "visible_run r"
  shows "\<exists>m. \<forall>i \<ge> m. \<not> pl_running (r i) \<and>
    (\<exists>w. en_log (pl_engine (r i)) = Some w \<and>
      replay_log bo (Some (log_close w)) e0 = Some (Inr (unlogged (pl_engine (r i)))))"
  by (rule threaded_replay[OF assms])

theorem threaded_session_replays_witness:
  "\<exists>e0 r m w. engine_setup CancelResting 16 None = Some e0 \<and> pipeline_run BigEndian r \<and>
     \<not> pl_running (r m) \<and> en_log (pl_engine (r m)) = Some w \<and>
     replay_log BigEndian (Some (log_close w)) e0 = Some (Inr (unlogged (pl_engine (r m))))"
proof -
  have cap: "unat (2 :: 64 word) \<le> 2 ^ 63" by simp
  obtain e0 live e1 where s: "engine_setup CancelResting 16 None = Some e0"
    "enable_logging BigEndian True e0 = Inr live"
    "engine_run BigEndian pipeline_commands live = Some e1"
    by (rule sample_session_runs)
  let ?p = "pipeline_start 2 live pipeline_commands"
  obtain p where p: "pipeline_reach BigEndian ?p p" "\<not> pl_running p"
    using pipeline_ends[OF pipeline_refl cap pipeline_commands_plain s(3)] by blast
  have todo: "pl_todo p = []" by (rule pipeline_stopped(3)[OF p(1) cap pipeline_commands_plain p(2)])
  obtain r n where r: "pipeline_run BigEndian r" "r 0 = ?p" "\<forall>k \<ge> n. r k = p"
    using reach_run[OF p(1)] by blast
  note fair = finished_fair[OF r(3) p(2) todo]
  from threaded_session_replays[OF s(1,2) r(1,2) cap pipeline_commands_plain pipeline_commands_canonical fair]
  show ?thesis using s(1) r(1) by blast
qed

end
