(* ===== verification/PipelineControl.thy ===== *)
theory PipelineControl
  imports PipelineFair
begin

text \<open>
  The threaded engine under an operator: a third thread throws the kill switch of the risk gate
  (\<open>engine.risk()->engage_kill_switch\<close>, \<open>include/obe/RiskControls.hpp\<close>) while the consumer of
  \<open>src/MatchingEngine.cpp\<close> applies commands.
\<close>

section \<open>Sessions with an operator\<close>

text \<open>What reaches the engine: commands, and the moments at which the switch is seen to change.\<close>

datatype engine_event = Command_in command | Switch bool

fun engine_events :: "byte_order \<Rightarrow> engine_event list \<Rightarrow> book engine \<Rightarrow> book engine option" where
  "engine_events bo [] e = Some e"
| "engine_events bo (Command_in c # evs) e =
     do {
       (_, e1) \<leftarrow> engine_apply bo c e;
       engine_events bo evs e1
     }"
| "engine_events bo (Switch on # evs) e = engine_events bo evs (engine_kill on e)"

fun event_commands :: "engine_event list \<Rightarrow> command list" where
  "event_commands [] = []"
| "event_commands (Command_in c # evs) = c # event_commands evs"
| "event_commands (Switch on # evs) = event_commands evs"

fun event_switches :: "engine_event list \<Rightarrow> bool list" where
  "event_switches [] = []"
| "event_switches (Command_in c # evs) = event_switches evs"
| "event_switches (Switch on # evs) = on # event_switches evs"

text \<open>
  The consumer loads the switch once in a check, and nothing else of a check depends on it, so a
  store that becomes visible during \<open>apply\<close> counts as one before it or after it.  \<open>risk()\<close> is a null
  pointer unless the gate was installed.
\<close>

inductive operated_reach ::
    "byte_order \<Rightarrow> pipeline \<Rightarrow> bool list \<Rightarrow> pipeline \<Rightarrow> bool" for bo p0 where
  operated_start: "operated_reach bo p0 [] p0"
| operated_thread:
    "operated_reach bo p0 ons p \<Longrightarrow> pipeline_step bo p (Some p') \<Longrightarrow> operated_reach bo p0 ons p'"
| operated_switch:
    "operated_reach bo p0 ons p \<Longrightarrow> en_risk (pl_engine p) \<noteq> None \<Longrightarrow>
     operated_reach bo p0 (ons @ [on]) (p\<lparr>pl_engine := engine_kill on (pl_engine p)\<rparr>)"

lemma operated_threads: "pipeline_reach bo p p' \<Longrightarrow> operated_reach bo p0 ons p \<Longrightarrow> operated_reach bo p0 ons p'"
  by (induction rule: pipeline_reach.induct) (auto intro: operated_thread)

section \<open>A session with an operator is an inline session\<close>

lemma engine_events_append:
  "engine_events bo (es @ es') e = do { e1 \<leftarrow> engine_events bo es e; engine_events bo es' e1 }"
  by (induction es arbitrary: e rule: event_commands.induct) (auto simp: Option.bind_assoc split_def)

lemma event_append [simp]:
  "event_commands (es @ es') = event_commands es @ event_commands es'"
  "event_switches (es @ es') = event_switches es @ event_switches es'"
  by (induction es rule: event_commands.induct) simp_all

lemma event_map [simp]:
  "event_commands (map Command_in cs) = cs" "event_switches (map Command_in cs) = []"
  by (induction cs) simp_all

definition operated_inv ::
    "byte_order \<Rightarrow> book engine \<Rightarrow> command list \<Rightarrow> bool list \<Rightarrow> pipeline \<Rightarrow> bool" where
  "operated_inv bo e0 all ons p \<longleftrightarrow>
     (\<exists>hs es. pipeline_shape all hs p \<and> event_commands es = work hs \<and> event_switches es = ons \<and>
        engine_events bo es e0 = Some (pl_engine p))"

lemma operated_invE:
  assumes "operated_inv bo e0 all ons p"
  obtains hs es where "pipeline_shape all hs p" "event_commands es = work hs"
    "event_switches es = ons" "engine_events bo es e0 = Some (pl_engine p)"
  using assms by (auto simp: operated_inv_def)

lemma operated_inv_switch:
  assumes "operated_inv bo e0 all ons p"
  shows "operated_inv bo e0 all (ons @ [on]) (p\<lparr>pl_engine := engine_kill on (pl_engine p)\<rparr>)"
proof -
  obtain hs es where i: "pipeline_shape all hs p" "event_commands es = work hs"
    "event_switches es = ons" "engine_events bo es e0 = Some (pl_engine p)"
    using assms by (rule operated_invE)
  have "pipeline_shape all hs (p\<lparr>pl_engine := engine_kill on (pl_engine p)\<rparr>)"
    using i(1) by (simp add: pipeline_shape_def)
  then show ?thesis
    unfolding operated_inv_def using i
    by (intro exI[of _ hs] exI[of _ "es @ [Switch on]"]) (simp add: engine_events_append)
qed

lemma operated_inv_step:
  assumes inv: "operated_inv bo e0 all ons p" and step: "pipeline_step bo p (Some p')"
  shows "operated_inv bo e0 all ons p'"
proof -
  obtain hs es where i: "pipeline_shape all hs p" "event_commands es = work hs"
    "event_switches es = ons" "engine_events bo es e0 = Some (pl_engine p)"
    using inv by (rule operated_invE)
  obtain hs' where eff: "step_effect bo hs p hs' (Some p')" and shape': "pipeline_shape all hs' p'"
    using pipeline_shape_step[OF step i(1)] by blast
  note next_hs = shape_next(1)[OF i(1)]
  consider "work hs' = work hs" "pl_engine p' = pl_engine p"
    | c n where "work hs' = work hs @ [c]" "engine_apply bo c (pl_engine p) = Some (n, pl_engine p')"
    using eff next_hs by (fastforce simp: step_effect_def work_snoc work_id simp del: work_append)
  then show ?thesis
  proof cases
    case 1
    then show ?thesis
      unfolding operated_inv_def using i shape' by (intro exI[of _ hs'] exI[of _ es]) simp
  next
    case 2
    then show ?thesis
      unfolding operated_inv_def using i shape'
      by (intro exI[of _ hs'] exI[of _ "es @ [Command_in c]"]) (simp add: engine_events_append)
  qed
qed

lemma operated_reach_inv:
  assumes "operated_reach bo p0 ons p" "operated_inv bo e0 all [] p0"
  shows "operated_inv bo e0 all ons p"
  using assms
  by (induction rule: operated_reach.induct) (auto intro: operated_inv_step operated_inv_switch)

lemma operated_start_inv:
  assumes "unat cap \<le> 2 ^ 63"
  shows "operated_inv bo e0 (drain cmds) [] (pipeline_start cap e0 cmds)"
proof -
  obtain hs where "pipeline_inv_at bo e0 (drain cmds) hs (pipeline_start cap e0 cmds)"
    by (rule pipeline_reach_facts[OF pipeline_refl assms])
  then have shape: "pipeline_shape (drain cmds) hs (pipeline_start cap e0 cmds)"
    by (simp add: pipeline_inv_at_def)
  then have "hs = []" by (simp add: pipeline_shape_def pipeline_start_def spsc_new_def)
  then show ?thesis
    unfolding operated_inv_def using shape
    by (intro exI[of _ "[]"]) (simp add: work_def pipeline_start_def)
qed

text \<open>At every moment, at the end, and when something is undefined.\<close>

lemma operated_session:
  assumes reach: "operated_reach bo (pipeline_start cap e0 cmds) ons p" and cap: "unat cap \<le> 2 ^ 63"
    and plain: "\<forall>c \<in> set cmds. c_type c \<noteq> Shutdown"
  shows "\<exists>es. prefix (event_commands es) cmds \<and> event_switches es = ons \<and>
      engine_events bo es e0 = Some (pl_engine p) \<and> (\<not> pl_running p \<longrightarrow> event_commands es = cmds)"
    and "pipeline_step bo p None \<Longrightarrow>
      \<exists>es. event_commands es = cmds \<and> event_switches es = ons \<and> engine_events bo es e0 = None"
proof -
  obtain hs es where i: "pipeline_shape (drain cmds) hs p" "event_commands es = work hs"
    "event_switches es = ons" "engine_events bo es e0 = Some (pl_engine p)"
    by (rule operated_invE[OF operated_reach_inv[OF reach operated_start_inv[OF cap]]])
  have got: "q_got (pl_queue p) = hs @ pending (pl_cmd p)" "spsc_inv (pl_queue p)"
    "drain cmds = q_sent (pl_queue p) @ pl_todo p"
    "pl_running p \<longleftrightarrow> \<not> (\<exists>c \<in> set hs. is_sentinel c)"
    using i(1) by (simp_all add: pipeline_shape_def consumer_ok_def)
  have pre: "prefix hs (drain cmds)"
    using spsc_inv_fifo(1)[OF got(2)] got(1,3) by (auto simp: prefix_def)
  note w = work_prefix[OF pre plain]
  have "prefix (work hs) cmds" unfolding w(1) by (rule take_is_prefix)
  moreover have "work hs = cmds" if "\<not> pl_running p"
    using that w(2) got(4) work_drain[OF plain] by simp
  ultimately show "\<exists>es. prefix (event_commands es) cmds \<and> event_switches es = ons \<and>
      engine_events bo es e0 = Some (pl_engine p) \<and> (\<not> pl_running p \<longrightarrow> event_commands es = cmds)"
    using i by (intro exI[of _ es]) simp
  assume "pipeline_step bo p None"
  from pipeline_shape_step[OF this i(1)]
  obtain c where c: "pl_cmd p = Some c" "\<not> is_sentinel c" "engine_apply bo c (pl_engine p) = None"
    by (auto simp: step_effect_def)
  obtain rest where rest: "drain cmds = hs @ c # rest" using shape_next(2)[OF i(1) c(1)] by blast
  have "cmds = hs @ c # work rest"
    using work_drain[OF plain] shape_next(1)[OF i(1) c(1)] c(2) unfolding rest by simp (simp add: work_def)
  then show "\<exists>es. event_commands es = cmds \<and> event_switches es = ons \<and> engine_events bo es e0 = None"
    using i c(3) shape_next(1)[OF i(1) c(1)]
    by (intro exI[of _ "es @ map Command_in (c # work rest)"]) (simp add: engine_events_append work_id)
qed


section \<open>Accounts\<close>

lemma engine_kill_simps [simp]:
  "en_commands (engine_kill on e) = en_commands e" "en_submits (engine_kill on e) = en_submits e"
  "en_cancels (engine_kill on e) = en_cancels e" "en_trades (engine_kill on e) = en_trades e"
  "en_book (engine_kill on e) = en_book e" "en_log (engine_kill on e) = en_log e"
  "en_risk (engine_kill on e) = map_option (engage_kill_switch on) (en_risk e)"
  by (simp_all add: engine_kill_def)

lemma checks_counted_kill [simp]:
  "checks_counted (engage_kill_switch on rm) = checks_counted rm"
  "rm_accepted (engage_kill_switch on rm) = rm_accepted rm"
  by (simp_all add: checks_counted_def engage_kill_switch_def risk_metrics_of_def)

text \<open>
  With a gate, \<open>n\<close> submissions have been checked, and those accepted are those the book has seen.
\<close>

definition gate_accounts :: "nat \<Rightarrow> book engine \<Rightarrow> bool" where
  "gate_accounts n e \<longleftrightarrow>
     (\<exists>rm. en_risk e = Some rm \<and> checks_counted rm = of_nat n \<and> rm_accepted rm = en_submits e)"

lemma gate_accounts_apply:
  assumes app: "engine_apply bo c e = Some (k, e')" and acc: "gate_accounts n e"
  shows "gate_accounts (n + (if c_type c = Submit then 1 else 0)) e'"
proof (cases "c_type c")
  case Submit
  obtain rm where rm: "en_risk e = Some rm" "checks_counted rm = of_nat n" "rm_accepted rm = en_submits e"
    using acc by (auto simp: gate_accounts_def)
  obtain pass e1 where g: "engine_gate c (engine_journal bo c e) = Some (pass, e1)"
    using app Submit by (auto simp: engine_apply_def Let_def bind_eq_Some_conv)
  obtain v rm1 where v: "pass = (v = Accepted)" "en_risk e1 = Some rm1" "rm1 = record_verdict (c_id c) v rm"
    using g rm(1) risk_check_records by (auto simp: engine_gate_def Let_def bind_eq_Some_conv)
  have "checks_counted rm1 = of_nat (n + 1)" using v(3) rm(2) by (simp add: checks_counted_record)
  moreover have "rm_accepted rm1 = rm_accepted rm + (if pass then 1 else 0)"
    using v(1,3) by (cases v) (simp_all add: record_verdict_def)
  moreover have "en_risk e' = Some rm1 \<and> en_submits e' = en_submits e + (if pass then 1 else 0)"
    using app Submit g engine_gate_counters(2)[OF g] v(2)
    by (cases pass) (auto simp: engine_apply_def Let_def bind_eq_Some_conv)
  ultimately show ?thesis using Submit rm(3) by (simp add: gate_accounts_def)
qed (use assms in \<open>auto simp: engine_apply_def Let_def bind_eq_Some_conv gate_accounts_def\<close>)

lemma engine_events_accounts:
  "engine_events bo es e = Some e' \<Longrightarrow> gate_accounts n e \<Longrightarrow>
   gate_accounts (n + length (filter (\<lambda>c. c_type c = Submit) (event_commands es))) e'"
proof (induction es arbitrary: e n rule: event_commands.induct)
  case (2 c es)
  then obtain k e1 where a: "engine_apply bo c e = Some (k, e1)" "engine_events bo es e1 = Some e'"
    by (auto simp: bind_eq_Some_conv)
  show ?case using "2.IH"[OF a(2) gate_accounts_apply[OF a(1) "2.prems"(2)]] by (simp split: if_splits)
next
  case (3 on es)
  have "gate_accounts n (engine_kill on e)" using "3.prems"(2) by (auto simp: gate_accounts_def)
  then show ?case using "3.IH"[of "engine_kill on e" n] "3.prems"(1) by simp
qed simp

lemma engine_setup_accounts:
  "engine_setup pol pool_capacity (Some cfg) = Some e0 \<Longrightarrow> gate_accounts 0 e0"
  by (auto simp: engine_setup_def engine_new_def engine_init_def enable_risk_def gate_accounts_def
      risk_new_def checks_counted_def risk_metrics_of_def total_rejected_def bind_eq_Some_conv)

lemma operated_accounts:
  assumes "engine_setup pol pool_capacity (Some cfg) = Some e0"
    and "operated_reach bo (pipeline_start cap e0 cmds) ons p" and "unat cap \<le> 2 ^ 63"
    and "\<forall>c \<in> set cmds. c_type c \<noteq> Shutdown" and "\<not> pl_running p"
  shows "\<exists>rm. en_risk (pl_engine p) = Some rm \<and>
    met_accepted (risk_metrics_of rm) + total_rejected (risk_metrics_of rm) =
      of_nat (length (filter (\<lambda>c. c_type c = Submit) cmds)) \<and>
    met_accepted (risk_metrics_of rm) = st_submits (engine_stats_of (pl_engine p))"
proof -
  obtain es where es: "event_commands es = cmds" "engine_events bo es e0 = Some (pl_engine p)"
    using operated_session(1)[OF assms(2-4)] assms(5) by blast
  show ?thesis
    using engine_events_accounts[OF es(2) engine_setup_accounts[OF assms(1)]] es(1)
    by (simp add: gate_accounts_def checks_counted_def risk_metrics_of_def engine_stats_of_def)
qed

section \<open>After the switch\<close>

text \<open>Cancellations, one after the other.\<close>

fun book_cancels :: "order_id list \<Rightarrow> book \<Rightarrow> book option" where
  "book_cancels [] b = Some b"
| "book_cancels (oid # oids) b =
     do {
       (_, b1) \<leftarrow> book_cancel oid b;
       book_cancels oids b1
     }"

lemma book_cancels_append:
  "book_cancels (xs @ ys) b = do { b1 \<leftarrow> book_cancels xs b; book_cancels ys b1 }"
  by (induction xs arbitrary: b) (auto simp: Option.bind_assoc split_def)

definition halted :: "book engine \<Rightarrow> bool" where
  "halted e \<longleftrightarrow> (\<exists>rm. en_risk e = Some rm \<and> kill_switch_engaged rm)"

text \<open>\<open>e'\<close> comes from \<open>e\<close> without any submission to the book.\<close>

definition only_cancels :: "book engine \<Rightarrow> book engine \<Rightarrow> bool" where
  "only_cancels e e' \<longleftrightarrow>
     en_submits e' = en_submits e \<and> en_trades e' = en_trades e \<and>
     (\<exists>oids. book_cancels oids (en_book e) = Some (en_book e'))"

lemma only_cancels_refl: "en_submits e' = en_submits e \<Longrightarrow> en_trades e' = en_trades e \<Longrightarrow>
    en_book e' = en_book e \<Longrightarrow> only_cancels e e'"
  unfolding only_cancels_def by (intro conjI exI[of _ "[]"]) simp_all

lemma only_cancels_trans:
  assumes "only_cancels e e1" "only_cancels e1 e2"
  shows "only_cancels e e2"
proof -
  obtain xs ys where "book_cancels xs (en_book e) = Some (en_book e1)"
    "book_cancels ys (en_book e1) = Some (en_book e2)"
    using assms by (auto simp: only_cancels_def)
  then have "book_cancels (xs @ ys) (en_book e) = Some (en_book e2)" by (simp add: book_cancels_append)
  then show ?thesis using assms unfolding only_cancels_def by auto
qed

lemma halted_apply:
  assumes app: "engine_apply bo c e = Some (n, e')" and halted: "halted e"
  shows "halted e'" "only_cancels e e'"
proof -
  obtain rm where rm: "en_risk e = Some rm" "rm_kill_switch rm"
    using halted by (auto simp: halted_def kill_switch_engaged_def)
  have "halted e' \<and> only_cancels e e'"
  proof (cases "c_type c")
    case Submit
    define rm' where "rm' = rm\<lparr>rm_rej_kill := rm_rej_kill rm + 1\<rparr>"
    have check: "risk_check (c_id c) (c_side c) (c_price c) (c_quantity c)
        (if c_side c = Buy then best_ask (en_book e) else best_bid (en_book e)) rm = Some (KillSwitch, rm')"
      using rm(2) by (simp add: risk_check_def rm'_def)
    have "rm_kill_switch rm'" using rm(2) by (simp add: rm'_def)
    then show ?thesis
      using refused_order[OF Submit rm(1) _ check, of bo] app
      by (auto simp: halted_def kill_switch_engaged_def intro: only_cancels_refl)
  next
    case Cancel
    then obtain r b where b: "book_cancel (c_id c) (en_book e) = Some (r, b)" "en_book e' = b"
      "en_submits e' = en_submits e" "en_trades e' = en_trades e" "en_risk e' = en_risk e"
      using app by (auto simp: engine_apply_def Let_def bind_eq_Some_conv)
    have "book_cancels [c_id c] (en_book e) = Some (en_book e')" using b(1,2) by simp
    then have "only_cancels e e'" using b(3,4) unfolding only_cancels_def by blast
    moreover have "halted e'" using b(5) halted by (simp add: halted_def)
    ultimately show ?thesis by blast
  qed (use app halted in \<open>auto simp: engine_apply_def Let_def halted_def intro: only_cancels_refl\<close>)
  then show "halted e'" "only_cancels e e'" by simp_all
qed

lemma step_engine:
  "pipeline_step bo p res \<Longrightarrow> res = Some p' \<Longrightarrow>
   pl_engine p' = pl_engine p \<or> (\<exists>c n. engine_apply bo c (pl_engine p) = Some (n, pl_engine p'))"
  by (induction rule: pipeline_step.induct) auto

lemma halted_reach:
  assumes "operated_reach bo p0 ons p" "halted (pl_engine p0)" "False \<notin> set ons"
  shows "halted (pl_engine p) \<and> only_cancels (pl_engine p0) (pl_engine p)"
  using assms
proof (induction rule: operated_reach.induct)
  case operated_start
  then show ?case by (simp add: only_cancels_refl)
next
  case (operated_thread ons p p')
  then show ?case
    using step_engine[OF operated_thread.hyps(2) refl] halted_apply only_cancels_trans by metis
next
  case (operated_switch ons p on)
  then have "only_cancels (pl_engine p) (engine_kill on (pl_engine p))" "on"
    by (auto intro: only_cancels_refl)
  then show ?case
    using operated_switch only_cancels_trans
    by (auto simp: halted_def kill_switch_engaged_def engage_kill_switch_def)
qed

section \<open>Properties\<close>

lemma operated_sample:
  obtains e0 p where "engine_setup CancelResting 16 (Some risk_config_default) = Some e0"
    "operated_reach BigEndian (pipeline_start 2 e0 pipeline_commands) [True] p" "\<not> pl_running p"
    "pipeline_start 2 (engine_kill True e0) pipeline_commands =
      (pipeline_start 2 e0 pipeline_commands)\<lparr>pl_engine := engine_kill True e0\<rparr>"
    "operated_reach BigEndian (pipeline_start 2 (engine_kill True e0) pipeline_commands) [] p"
proof -
  have cap: "unat (2 :: 64 word) \<le> 2 ^ 63" by simp
  let ?E = "spec_setup (Some risk_config_default)"
  obtain e0 where e0: "engine_setup CancelResting 16 (Some risk_config_default) = Some e0"
    "engine_rep CancelResting e0 ?E"
    by (rule engine_setup_ok)
  note r = engine_repD[OF e0(2)]
  have rep: "engine_rep CancelResting (engine_kill True e0) (engine_kill True ?E)"
    by (rule engine_repI) (use r in \<open>simp_all add: engine_kill_def\<close>)
  have "plain_orders pipeline_commands" by (simp add: pipeline_commands_def command_defs i64_val_def)
  then obtain e1 where e1: "engine_run BigEndian pipeline_commands (engine_kill True e0) = Some e1"
    using engine_run_plain[OF rep] by blast
  let ?p = "pipeline_start 2 (engine_kill True e0) pipeline_commands"
  obtain p where p: "pipeline_reach BigEndian ?p p" "\<not> pl_running p"
    using pipeline_ends[OF pipeline_refl cap pipeline_commands_plain e1] by blast
  have eq: "?p = (pipeline_start 2 e0 pipeline_commands)\<lparr>pl_engine := engine_kill True e0\<rparr>"
    by (simp add: pipeline_start_def)
  have "en_risk e0 \<noteq> None" using r(3) by (simp add: spec_setup_def enable_risk_def)
  then have "operated_reach BigEndian (pipeline_start 2 e0 pipeline_commands) [True] ?p"
    using operated_switch[OF operated_start, of "pipeline_start 2 e0 pipeline_commands" BigEndian True]
    by (simp add: pipeline_start_def)
  from operated_threads[OF p(1) this] operated_threads[OF p(1) operated_start]
  show thesis using that e0(1) p(2) eq by blast
qed

text \<open>
  C20: An operator who throws the kill switch during a threaded session, any number of times, only
  places his throws among the commands: at every moment the engine is in the state that the commands
  handled so far and the throws give inline, in some order of the two; at the end these are all the
  commands; and nothing is undefined unless it is in one of those inline sessions.
\<close>

theorem operated_is_inline:
  assumes "operated_reach bo (pipeline_start cap e0 cmds) ons p" and "unat cap \<le> 2 ^ 63"
    and "\<forall>c \<in> set cmds. c_type c \<noteq> Shutdown"
  shows "(\<exists>es. prefix (event_commands es) cmds \<and> event_switches es = ons \<and>
      engine_events bo es e0 = Some (pl_engine p) \<and> (\<not> pl_running p \<longrightarrow> event_commands es = cmds)) \<and>
    (pipeline_step bo p None \<longrightarrow>
      (\<exists>es. event_commands es = cmds \<and> event_switches es = ons \<and> engine_events bo es e0 = None))"
  using operated_session[OF assms] by blast

theorem operated_is_inline_witness:
  "\<exists>e0 p es. operated_reach BigEndian (pipeline_start 2 e0 pipeline_commands) [True] p \<and>
     event_commands es = pipeline_commands \<and> event_switches es = [True] \<and>
     engine_events BigEndian es e0 = Some (pl_engine p)"
proof -
  have cap: "unat (2 :: 64 word) \<le> 2 ^ 63" by simp
  obtain e0 p where p: "operated_reach BigEndian (pipeline_start 2 e0 pipeline_commands) [True] p"
    "\<not> pl_running p"
    by (rule operated_sample)
  show ?thesis using operated_is_inline[OF p(1) cap pipeline_commands_plain] p by blast
qed

text \<open>
  Every order is accounted for: at the end of a threaded session with a risk gate, however the
  kill switch was thrown, the submissions accepted and rejected add up to those the producer sent,
  and the accepted ones are those that reached the book.
\<close>

theorem operated_orders_accounted:
  assumes "engine_setup pol pool_capacity (Some cfg) = Some e0"
    and "operated_reach bo (pipeline_start cap e0 cmds) ons p" and "unat cap \<le> 2 ^ 63"
    and "\<forall>c \<in> set cmds. c_type c \<noteq> Shutdown" and "\<not> pl_running p"
  shows "\<exists>rm. en_risk (pl_engine p) = Some rm \<and>
    met_accepted (risk_metrics_of rm) + total_rejected (risk_metrics_of rm) =
      of_nat (length (filter (\<lambda>c. c_type c = Submit) cmds)) \<and>
    met_accepted (risk_metrics_of rm) = st_submits (engine_stats_of (pl_engine p))"
  by (rule operated_accounts[OF assms])

theorem operated_orders_accounted_witness:
  "\<exists>e0 p rm. operated_reach BigEndian (pipeline_start 2 e0 pipeline_commands) [True] p \<and>
     en_risk (pl_engine p) = Some rm \<and>
     met_accepted (risk_metrics_of rm) + total_rejected (risk_metrics_of rm) = 2"
proof -
  have cap: "unat (2 :: 64 word) \<le> 2 ^ 63" by simp
  obtain e0 p where p: "engine_setup CancelResting 16 (Some risk_config_default) = Some e0"
    "operated_reach BigEndian (pipeline_start 2 e0 pipeline_commands) [True] p" "\<not> pl_running p"
    by (rule operated_sample)
  have "length (filter (\<lambda>c. c_type c = Submit) pipeline_commands) = 2"
    by (simp add: pipeline_commands_def command_defs)
  then show ?thesis
    using operated_orders_accounted[OF p(1,2) cap pipeline_commands_plain p(3)] p(2) by auto
qed

text \<open>
  C21: The kill switch stops the threaded engine: from the moment at which it is seen engaged, for as
  long as it is not released, no submission reaches the book and there is no trade; the book changes
  by cancellations only.
\<close>

theorem kill_switch_stops_pipeline:
  assumes "en_risk (pl_engine p) = Some rm" and "kill_switch_engaged rm"
    and "operated_reach bo p ons p'" and "False \<notin> set ons"
  shows "st_submits (engine_stats_of (pl_engine p')) = st_submits (engine_stats_of (pl_engine p)) \<and>
    st_trades (engine_stats_of (pl_engine p')) = st_trades (engine_stats_of (pl_engine p)) \<and>
    (\<exists>oids. book_cancels oids (en_book (pl_engine p)) = Some (en_book (pl_engine p')))"
  using halted_reach[OF assms(3) _ assms(4)] assms(1,2)
  by (auto simp: halted_def only_cancels_def engine_stats_of_def)

theorem kill_switch_stops_pipeline_witness:
  "\<exists>e0 p. operated_reach BigEndian (pipeline_start 2 (engine_kill True e0) pipeline_commands) [] p \<and>
     \<not> pl_running p \<and> st_submits (engine_stats_of (pl_engine p)) = st_submits (engine_stats_of e0)"
proof -
  obtain e0 p where p: "engine_setup CancelResting 16 (Some risk_config_default) = Some e0"
    "\<not> pl_running p"
    "operated_reach BigEndian (pipeline_start 2 (engine_kill True e0) pipeline_commands) [] p"
    by (rule operated_sample)
  obtain rm where "en_risk e0 = Some rm"
    using engine_setup_accounts[OF p(1)] by (auto simp: gate_accounts_def)
  then have "en_risk (pl_engine (pipeline_start 2 (engine_kill True e0) pipeline_commands)) =
      Some (engage_kill_switch True rm)"
    by (simp add: pipeline_start_def)
  from kill_switch_stops_pipeline[OF this _ p(3)] show ?thesis
    using p(2,3) by (auto simp: pipeline_start_def engine_stats_of_def kill_switch_engaged_def
        engage_kill_switch_def)
qed

end
