(* ===== verification/EngineCounters.thy ===== *)
theory EngineCounters
  imports MatchingEngine
begin

text \<open>
  The counters of \<open>MatchingEngine\<close> and \<open>RiskManager\<close> (\<open>include/obe/MatchingEngine.hpp\<close>,
  \<open>include/obe/RiskControls.hpp\<close>): how far they can get, and that they only go up.
\<close>

section \<open>Each trade uses up an order\<close>

text \<open>
  A trade fills its maker or its taker.  So the trades of a submission and the orders that rest after
  it are together at most one more than the orders that rested before.
\<close>

lemma spec_match_level_count:
  "spec_match_level pol tk rem os = (os', r, ts, stp) \<Longrightarrow>
   length ts + length os' + (if r = 0 then 0 else 1) \<le> length os + 1 \<and>
   (os' = [] \<longrightarrow> length ts \<le> length os)"
  by (induction rule: spec_match_level_rule) (auto split: if_splits)

lemma spec_match_count:
  assumes "spec_match pol tk rem m = (m', r, ts, stp)"
  shows "length ts + length (queue_ids m') + (if r = 0 then 0 else 1) \<le> length (queue_ids m) + 1"
  using assms
proof (induction rule: spec_match_rule)
  case (Within rem p os m os' r ts stp)
  from spec_match_level_count[OF Within(3)] show ?case by simp
next
  case (Through rem p os m r1 ts1 m' r ts stp)
  from spec_match_level_count[OF Through(3)] Through(5) show ?case by simp
qed auto

lemma spec_ids_sides:
  "length (spec_ids A) = length (queue_ids (side_of sd A)) + length (queue_ids (side_of (other_side sd) A))"
  by (cases sd) (simp_all add: spec_ids_def other_side_def)

lemma spec_submit_count:
  assumes "spec_submit pol oid trader sd price q A = (res, A')" "spec_wf A"
  shows "length (sp_trades A') + length (spec_ids A') \<le> length (spec_ids A) + 1"
proof -
  let ?own = "own_side sd"
  note sides = spec_ids_sides[of _ ?own]
  from assms(1) show ?thesis
  proof (cases rule: spec_submit_cases)
    case Refused
    then show ?thesis by (simp add: spec_ids_def)
  next
    case (Stopped m r ts)
    from spec_match_count[OF Stopped(3)] show ?thesis
      unfolding Stopped(5) by (simp add: sides side_of_set_other split: if_splits)
  next
    case (Rested m r ts)
    have "mset (queue_ids (spec_rest ?own (resting_order oid trader sd price r (sp_next_seq A))
        (side_of ?own A))) = add_mset oid (mset (queue_ids (side_of ?own A)))"
      using spec_rest_ids(1)[OF spec_wf_side[OF assms(2)]] by simp
    then have "length (queue_ids (spec_rest ?own (resting_order oid trader sd price r (sp_next_seq A))
        (side_of ?own A))) = Suc (length (queue_ids (side_of ?own A)))"
      by (metis size_add_mset size_mset)
    with spec_match_count[OF Rested(4)] Rested(3) show ?thesis
      unfolding Rested(6) by (simp add: sides side_of_set_other)
  next
    case (Filled m ts)
    from spec_match_count[OF Filled(3)] show ?thesis
      unfolding Filled(5) by (simp add: sides side_of_set_other)
  qed
qed

lemma spec_remove_count: "length (queue_ids (spec_remove oid m)) \<le> length (queue_ids m)"
  by (simp add: spec_remove_ids)

lemma spec_cancel_count: "length (spec_ids (snd (spec_cancel oid A))) \<le> length (spec_ids A)"
  using spec_remove_count[of oid "sp_bids A"] spec_remove_count[of oid "sp_asks A"]
  by (simp add: spec_cancel_def spec_ids_def)

section \<open>The counters\<close>

datatype counter =
  Commands | Submits | Cancels | Trades
| Accepted_checks | Rej_size | Rej_notional | Rej_collar | Rej_kill | Rej_dup

fun risk_counter :: "counter \<Rightarrow> risk_manager \<Rightarrow> 64 word" where
  "risk_counter Accepted_checks rm = rm_accepted rm"
| "risk_counter Rej_size rm = rm_rej_size rm"
| "risk_counter Rej_notional rm = rm_rej_notional rm"
| "risk_counter Rej_collar rm = rm_rej_collar rm"
| "risk_counter Rej_kill rm = rm_rej_kill rm"
| "risk_counter Rej_dup rm = rm_rej_dup rm"
| "risk_counter _ rm = 0"

text \<open>The atomics of both classes; without a gate the last six do not exist.\<close>

fun counter_value :: "counter \<Rightarrow> 'b engine \<Rightarrow> 64 word" where
  "counter_value Commands e = en_commands e"
| "counter_value Submits e = en_submits e"
| "counter_value Cancels e = en_cancels e"
| "counter_value Trades e = en_trades e"
| "counter_value c e = (case en_risk e of None \<Rightarrow> 0 | Some rm \<Rightarrow> risk_counter c rm)"

lemma counter_value_risk [simp]:
  "c \<notin> {Commands, Submits, Cancels, Trades} \<Longrightarrow>
   counter_value c e = (case en_risk e of None \<Rightarrow> 0 | Some rm \<Rightarrow> risk_counter c rm)"
  by (cases c) (auto split: option.split)

lemma risk_counter_record:
  "risk_counter c (record_verdict oid v rm) \<in> {risk_counter c rm, risk_counter c rm + 1}"
  by (cases c; cases v) (simp_all add: record_verdict_def)

lemma risk_counter_kill [simp]: "risk_counter c (engage_kill_switch on rm) = risk_counter c rm"
  by (cases c) (simp_all add: engage_kill_switch_def)

lemma counter_journal [simp]: "counter_value c (engine_journal bo cmd e) = counter_value c e"
  by (cases c) simp_all

lemma engine_gate_step:
  assumes "engine_gate cmd e = Some (p, e')"
  shows "counter_value c e' \<in> {counter_value c e, counter_value c e + 1}"
proof (cases "c \<in> {Commands, Submits, Cancels, Trades}")
  case True
  then show ?thesis using engine_gate_counters[OF assms] by auto
next
  case False
  show ?thesis
  proof (cases "en_risk e")
    case None
    then show ?thesis using assms by (simp add: engine_gate_def)
  next
    case (Some rm)
    obtain ref v rm' where r: "e' = e\<lparr>en_risk := Some rm'\<rparr>"
      "risk_check (c_id cmd) (c_side cmd) (c_price cmd) (c_quantity cmd) ref rm = Some (v, rm')"
      using assms Some by (auto simp: engine_gate_def Let_def bind_eq_Some_conv)
    show ?thesis
      using False Some risk_counter_record[of c "c_id cmd" v rm] r(1) risk_check_records[OF r(2)] by simp
  qed
qed

text \<open>A command adds at most one to every counter but that of the trades.\<close>

lemma engine_apply_step:
  assumes app: "engine_apply bo cmd e = Some (n, e')" and c: "c \<noteq> Trades"
  shows "counter_value c e' \<in> {counter_value c e, counter_value c e + 1}"
proof (cases "c_type cmd")
  case Submit
  obtain p e1 where g: "engine_gate cmd (engine_journal bo cmd e) = Some (p, e1)"
    using app Submit by (auto simp: engine_apply_def Let_def bind_eq_Some_conv)
  note keep = engine_gate_counters[OF g] and step = engine_gate_step[OF g, of c]
  show ?thesis
    using app Submit g c keep step
    by (cases c; cases p) (auto simp: engine_apply_def Let_def bind_eq_Some_conv)
next
  case Cancel
  then show ?thesis
    using app c by (cases c) (auto simp: engine_apply_def Let_def bind_eq_Some_conv)
qed (use app in \<open>auto simp: engine_apply_def Let_def\<close>)

section \<open>How far they get\<close>

text \<open>
  After \<open>k\<close> commands no counter is above \<open>k\<close>, and the trades and the resting orders together are at
  most the submissions.
\<close>

definition counters_fit :: "self_trade_policy \<Rightarrow> nat \<Rightarrow> book engine \<Rightarrow> bool" where
  "counters_fit pol k e \<longleftrightarrow>
     (\<forall>c. unat (counter_value c e) \<le> k) \<and>
     (\<exists>E. engine_rep pol e E \<and>
        unat (en_trades e) + length (spec_ids (en_book E)) \<le> unat (en_submits e))"

lemma unat_succ: "unat (x :: 64 word) \<le> k \<Longrightarrow> Suc k < 2 ^ 64 \<Longrightarrow> unat (x + 1) = Suc (unat x)"
  by (simp add: unat_word_ariths)

text \<open>What a command does to the trades, the submissions and the orders that rest.\<close>

lemma engine_apply_trades:
  assumes app: "engine_apply bo cmd e = Some (n, e')" and rep: "engine_rep pol e E"
  obtains E' and ts :: "trade list" where "engine_rep pol e' E'" "n = of_nat (length ts)"
    "length ts + length (spec_ids (en_book E')) + (if en_submits e' = en_submits e then 1 else 0) \<le>
       length (spec_ids (en_book E)) + 1"
    "en_submits e' = en_submits e \<or> en_submits e' = en_submits e + 1"
proof -
  note goal = that
  obtain E' where s: "spec_apply pol bo cmd E = Some (n, E')" "engine_rep pol e' E'"
    using engine_apply_rep[OF rep, of bo cmd] app by (auto elim: option.rel_cases)
  note r = engine_repD[OF rep] engine_repD[OF s(2)]
  have wf: "spec_wf (en_book E)" using r(2) by (simp add: book_rep_def)
  have same: thesis if "n = 0" "en_submits E' = en_submits E"
    "length (spec_ids (en_book E')) \<le> length (spec_ids (en_book E))"
    by (rule goal[OF s(2), of "[]"]) (use that r in simp_all)
  show thesis
  proof (cases "c_type cmd")
    case Submit
    obtain p E1 where g: "spec_gate cmd (engine_journal bo cmd E) = Some (p, E1)"
      using s(1) Submit by (auto simp: spec_apply_def Let_def bind_eq_Some_conv)
    have keep: "en_book E1 = en_book E" "en_submits E1 = en_submits E"
      using g by (auto simp: spec_gate_def bind_eq_Some_conv split: option.splits)
    show thesis
    proof (cases p)
      case False
      then show thesis
        using s(1) Submit g keep by (intro same) (auto simp: spec_apply_def Let_def)
    next
      case True
      obtain res A where sub: "spec_submit pol (c_id cmd) (c_trader cmd) (c_side cmd) (c_price cmd)
          (c_quantity cmd) (en_book E) = (res, A)"
        by fastforce
      have "n = of_nat (length (sp_trades A))"
        using s(1) Submit g True keep sub spec_submit_accounts[OF sub wf]
        by (simp add: spec_apply_def Let_def submit_accounts_def)
      moreover have "en_book E' = A" "en_submits E' = en_submits E + 1"
        using s(1) Submit g True keep sub by (auto simp: spec_apply_def Let_def)
      ultimately show thesis
        using spec_submit_count[OF sub wf] r by (intro goal[OF s(2), of "sp_trades A"]) simp_all
    qed
  next
    case Cancel
    then show thesis
      using s(1) spec_cancel_count[of "c_id cmd" "en_book E"]
      by (intro same) (auto simp: spec_apply_def Let_def)
  qed (use s(1) in \<open>auto intro!: same simp: spec_apply_def Let_def\<close>)
qed

lemma counters_fit_apply:
  assumes app: "engine_apply bo cmd e = Some (n, e')" and fit: "counters_fit pol k e"
    and room: "Suc k < 2 ^ 64"
  shows "counters_fit pol (Suc k) e'" and "counter_value c e \<le> counter_value c e'"
proof -
  obtain E where E: "engine_rep pol e E"
    "unat (en_trades e) + length (spec_ids (en_book E)) \<le> unat (en_submits e)"
    using fit by (auto simp: counters_fit_def)
  have low: "unat (counter_value c e) \<le> k" for c using fit by (simp add: counters_fit_def)
  have step: "unat (counter_value c e) \<le> unat (counter_value c e') \<and> unat (counter_value c e') \<le> Suc k"
    if "c \<noteq> Trades" for c
    using engine_apply_step[OF app that] low[of c] unat_succ[OF low[of c] room] by auto
  obtain E' and ts :: "trade list" where t: "engine_rep pol e' E'" "n = of_nat (length ts)"
    "length ts + length (spec_ids (en_book E')) + (if en_submits e' = en_submits e then 1 else 0) \<le>
       length (spec_ids (en_book E)) + 1"
    "en_submits e' = en_submits e \<or> en_submits e' = en_submits e + 1"
    by (rule engine_apply_trades[OF app E(1)])
  have sub: "unat (en_submits e) \<le> k" using low[of Submits] by simp
  have bound: "unat (en_trades e) + length ts + length (spec_ids (en_book E')) \<le> unat (en_submits e')"
    using t(3,4) E(2) unat_succ[OF sub room] by (auto split: if_splits)
  have "unat (en_submits e') \<le> Suc k" using step[of Submits] by simp
  then have small: "unat (en_trades e) + length ts < 2 ^ 64" using bound room by simp
  have "unat (en_trades e') = unat (en_trades e) + length ts"
    unfolding engine_apply_counters(3)[OF app] t(2)
    using small by (simp add: unat_word_ariths unat_of_nat)
  then have trades: "unat (en_trades e) \<le> unat (en_trades e')"
    "unat (en_trades e') + length (spec_ids (en_book E')) \<le> unat (en_submits e')"
    using bound by simp_all
  show "counter_value c e \<le> counter_value c e'"
    using step[of c] trades(1) by (cases "c = Trades") (simp_all add: word_le_nat_alt)
  have "unat (counter_value c e') \<le> Suc k" for c
    using step[of c] step[of Submits] trades(2) by (cases "c = Trades") simp_all
  then show "counters_fit pol (Suc k) e'"
    unfolding counters_fit_def using t(1) trades(2) by blast
qed

lemma counters_fit_run:
  "engine_run bo cmds e = Some e' \<Longrightarrow> counters_fit pol k e \<Longrightarrow> k + length cmds < 2 ^ 64 \<Longrightarrow>
   counters_fit pol (k + length cmds) e'"
proof (induction cmds arbitrary: e k)
  case (Cons cmd cmds)
  then obtain n e1 where a: "engine_apply bo cmd e = Some (n, e1)" "engine_run bo cmds e1 = Some e'"
    by (auto simp: bind_eq_Some_conv)
  have "counters_fit pol (Suc k) e1" using counters_fit_apply(1)[OF a(1)] Cons.prems(2,3) by simp
  then show ?case using Cons.IH[OF a(2)] Cons.prems(3) by fastforce
qed simp

lemma counters_start:
  assumes "engine_setup pol pool_capacity cfg = Some e0"
  shows "counters_fit pol 0 e0" "counter_value c e0 = 0"
proof -
  obtain e where e: "engine_setup pol pool_capacity cfg = Some e" "engine_rep pol e (spec_setup cfg)"
    by (rule engine_setup_ok)
  then have rep: "engine_rep pol e0 (spec_setup cfg)" using assms by simp
  have zero: "counter_value c e0 = 0" for c
    using engine_repD[OF rep]
    by (cases c; cases cfg) (simp_all add: spec_setup_def engine_init_def enable_risk_def risk_new_def)
  then show "counter_value c e0 = 0" .
  have "spec_ids (en_book (spec_setup cfg)) = []"
    by (cases cfg) (simp_all add: spec_setup_def engine_init_def enable_risk_def spec_ids_def spec_new_def)
  moreover have "en_trades e0 = 0" using zero[of Trades] by simp
  ultimately show "counters_fit pol 0 e0"
    unfolding counters_fit_def using rep zero by (intro conjI exI[of _ "spec_setup cfg"]) simp_all
qed

section \<open>Properties\<close>

text \<open>
  C27: Each trade of a session uses up a submitted order: the trades counted and the orders that still
  rest are together at most the submissions, so the trade counter cannot wrap before the others.
\<close>

theorem trades_within_submits:
  assumes "engine_setup pol pool_capacity cfg = Some e0" and "engine_run bo cmds e0 = Some e1"
    and "length cmds < 2 ^ 64"
  shows "unat (st_trades (engine_stats_of e1)) + order_count (en_book e1) \<le>
      unat (st_submits (engine_stats_of e1)) \<and>
    unat (st_submits (engine_stats_of e1)) \<le> length cmds"
proof -
  have fit: "counters_fit pol (length cmds) e1"
    using counters_fit_run[OF assms(2) counters_start(1)[OF assms(1)]] assms(3) by simp
  then obtain E where E: "engine_rep pol e1 E"
    "unat (en_trades e1) + length (spec_ids (en_book E)) \<le> unat (en_submits e1)"
    by (auto simp: counters_fit_def)
  moreover have "unat (counter_value Submits e1) \<le> length cmds"
    using fit unfolding counters_fit_def by blast
  ultimately show ?thesis
    using book_count_ok(1)[OF engine_repD(2)[OF E(1)]] by (simp add: engine_stats_of_def)
qed

lemma trades_sample:
  "map_option en_trades (spec_run_commands CancelResting BigEndian
     [make_submit 1 7 Buy (I64 100) 5, make_submit 2 8 Sell (I64 100) 3] (spec_setup None)) = Some 1"
  by code_simp

theorem trades_within_submits_witness:
  "\<exists>e0 e1. engine_setup CancelResting 16 None = Some e0 \<and>
     engine_run BigEndian [make_submit 1 7 Buy (I64 100) 5, make_submit 2 8 Sell (I64 100) 3] e0 =
       Some e1 \<and>
     st_trades (engine_stats_of e1) = 1 \<and> 1 + order_count (en_book e1) \<le> 2"
proof -
  let ?cmds = "[make_submit 1 7 Buy (I64 100) 5, make_submit 2 8 Sell (I64 100) 3]"
  obtain e0 where e0: "engine_setup CancelResting 16 None = Some e0"
    "engine_rep CancelResting e0 (spec_setup None)"
    by (rule engine_setup_ok)
  obtain E1 where E1: "spec_run_commands CancelResting BigEndian ?cmds (spec_setup None) = Some E1"
    "en_trades E1 = 1"
    using trades_sample by (cases "spec_run_commands CancelResting BigEndian ?cmds (spec_setup None)") auto
  obtain e1 where e1: "engine_run BigEndian ?cmds e0 = Some e1" "engine_rep CancelResting e1 E1"
    by (rule engine_run_realizes[OF e0(2) E1(1)])
  have "st_trades (engine_stats_of e1) = 1"
    using engine_repD(8)[OF e1(2)] E1(2) by (simp add: engine_stats_of_def)
  then show ?thesis using trades_within_submits[OF e0(1) e1(1)] e0(1) e1(1) by auto
qed

end
