(* ===== verification/PipelineStats.thy ===== *)
theory PipelineStats
  imports PipelineControl EngineCounters
begin

text \<open>
  The counters as another thread sees them while the consumer runs: \<open>MatchingEngine::stats\<close> of
  \<open>src/MatchingEngine.cpp\<close> and \<open>RiskManager::metrics\<close> of \<open>src/RiskControls.cpp\<close>, with relaxed loads.
\<close>

section \<open>A monitoring thread\<close>

datatype report_call = Stats_call | Metrics_call

datatype report = Stats engine_stats | Metrics risk_metrics

text \<open>The loads of a call in the order of the code, and the structure that it returns.\<close>

fun call_loads :: "report_call \<Rightarrow> counter list" where
  "call_loads Stats_call = [Commands, Submits, Cancels, Trades]"
| "call_loads Metrics_call =
     [Accepted_checks, Rej_size, Rej_notional, Rej_collar, Rej_kill, Rej_dup]"

definition local_stats :: "(counter \<Rightarrow> 64 word) \<Rightarrow> engine_stats" where
  "local_stats s =
     \<lparr>st_commands = s Commands, st_submits = s Submits, st_cancels = s Cancels, st_trades = s Trades\<rparr>"

definition local_metrics :: "(counter \<Rightarrow> 64 word) \<Rightarrow> risk_metrics" where
  "local_metrics s =
     \<lparr>met_accepted = s Accepted_checks, met_max_order_size = s Rej_size, met_max_notional = s Rej_notional,
      met_price_collar = s Rej_collar, met_kill_switch = s Rej_kill, met_duplicate = s Rej_dup\<rparr>"

fun call_report :: "report_call \<Rightarrow> (counter \<Rightarrow> 64 word) \<Rightarrow> report" where
  "call_report Stats_call s = Stats (local_stats s)"
| "call_report Metrics_call s = Metrics (local_metrics s)"

text \<open>
  \<open>mo_orders\<close> has the modification order of each atomic, the list of its values from the first on.
  A relaxed load yields any value of it that is not older than the one this thread has loaded last
  (\<open>mo_seen\<close> is its position), so the loads of one call may be of different moments.  Joining the
  consumer makes all its writes visible.  A reply is marked with whether it was given after the join.
\<close>

record monitor =
  mo_pipeline :: pipeline
  mo_orders :: "counter \<Rightarrow> 64 word list"
  mo_seen :: "counter \<Rightarrow> nat"
  mo_joined :: bool
  mo_call :: "report_call option"
  mo_todo :: "counter list"
  mo_local :: "counter \<Rightarrow> 64 word"
  mo_replies :: "(bool \<times> report) list"

definition monitor_start :: "pipeline \<Rightarrow> monitor" where
  "monitor_start p =
     \<lparr>mo_pipeline = p, mo_orders = (\<lambda>c. [counter_value c (pl_engine p)]), mo_seen = (\<lambda>_. 0),
      mo_joined = False, mo_call = None, mo_todo = [], mo_local = (\<lambda>_. 0), mo_replies = []\<rparr>"

definition record_writes ::
    "book engine \<Rightarrow> (counter \<Rightarrow> 64 word list) \<Rightarrow> counter \<Rightarrow> 64 word list" where
  "record_writes e orders c =
     (if counter_value c e = last (orders c) then orders c else orders c @ [counter_value c e])"

inductive monitor_step :: "byte_order \<Rightarrow> monitor \<Rightarrow> monitor \<Rightarrow> bool" for bo where
  threads_move:
    "pipeline_step bo (mo_pipeline m) (Some p) \<Longrightarrow>
     monitor_step bo m
       (m\<lparr>mo_pipeline := p, mo_orders := record_writes (pl_engine p) (mo_orders m)\<rparr>)"
| switch_thrown:
    "mo_pipeline m = p \<Longrightarrow> en_risk (pl_engine p) \<noteq> None \<Longrightarrow>
     monitor_step bo m (m\<lparr>mo_pipeline := p\<lparr>pl_engine := engine_kill on (pl_engine p)\<rparr>\<rparr>)"
| report_called:
    "mo_call m = None \<Longrightarrow> k = Metrics_call \<longrightarrow> en_risk (pl_engine (mo_pipeline m)) \<noteq> None \<Longrightarrow>
     monitor_step bo m (m\<lparr>mo_call := Some k, mo_todo := call_loads k\<rparr>)"
| counter_loaded:
    "mo_todo m = c # cs \<Longrightarrow> mo_seen m c \<le> i \<Longrightarrow> i < length (mo_orders m c) \<Longrightarrow>
     monitor_step bo m
       (m\<lparr>mo_todo := cs, mo_seen := (mo_seen m)(c := i),
          mo_local := (mo_local m)(c := mo_orders m c ! i)\<rparr>)"
| report_returned:
    "mo_call m = Some k \<Longrightarrow> mo_todo m = [] \<Longrightarrow>
     monitor_step bo m
       (m\<lparr>mo_call := None,
          mo_replies := mo_replies m @ [(mo_joined m, call_report k (mo_local m))]\<rparr>)"
| consumer_joined:
    "mo_call m = None \<Longrightarrow> \<not> pl_running (mo_pipeline m) \<Longrightarrow>
     monitor_step bo m
       (m\<lparr>mo_joined := True, mo_seen := (\<lambda>c. length (mo_orders m c) - 1)\<rparr>)"

inductive monitor_reach :: "byte_order \<Rightarrow> monitor \<Rightarrow> monitor \<Rightarrow> bool" for bo m0 where
  monitor_refl: "monitor_reach bo m0 m0"
| monitor_more: "monitor_reach bo m0 m \<Longrightarrow> monitor_step bo m m' \<Longrightarrow> monitor_reach bo m0 m'"

text \<open>What it has been told.\<close>

fun stats_in :: "bool \<times> report \<Rightarrow> engine_stats list" where
  "stats_in (_, Stats s) = [s]"
| "stats_in (_, Metrics _) = []"

fun metrics_in :: "bool \<times> report \<Rightarrow> risk_metrics list" where
  "metrics_in (_, Stats _) = []"
| "metrics_in (_, Metrics r) = [r]"

definition stats_replies :: "monitor \<Rightarrow> engine_stats list" where
  "stats_replies m = concat (map stats_in (mo_replies m))"

definition metrics_replies :: "monitor \<Rightarrow> risk_metrics list" where
  "metrics_replies m = concat (map metrics_in (mo_replies m))"

definition stats_le :: "engine_stats \<Rightarrow> engine_stats \<Rightarrow> bool" where
  "stats_le s t \<longleftrightarrow>
     st_commands s \<le> st_commands t \<and> st_submits s \<le> st_submits t \<and> st_cancels s \<le> st_cancels t \<and>
     st_trades s \<le> st_trades t"

definition metrics_le :: "risk_metrics \<Rightarrow> risk_metrics \<Rightarrow> bool" where
  "metrics_le s t \<longleftrightarrow>
     met_accepted s \<le> met_accepted t \<and> met_max_order_size s \<le> met_max_order_size t \<and>
     met_max_notional s \<le> met_max_notional t \<and> met_price_collar s \<le> met_price_collar t \<and>
     met_kill_switch s \<le> met_kill_switch t \<and> met_duplicate s \<le> met_duplicate t"

section \<open>The counters during a session\<close>

lemma counter_kill [simp]: "counter_value c (engine_kill on e) = counter_value c e"
  by (cases c) (auto split: option.split)

lemma counters_fit_kill: "counters_fit pol k e \<Longrightarrow> counters_fit pol k (engine_kill on e)"
proof -
  assume fit: "counters_fit pol k e"
  then obtain E where E: "engine_rep pol e E"
    "unat (en_trades e) + length (spec_ids (en_book E)) \<le> unat (en_submits e)"
    by (auto simp: counters_fit_def)
  have "engine_rep pol (engine_kill on e) (E\<lparr>en_risk := en_risk (engine_kill on e)\<rparr>)"
    using engine_repD[OF E(1)] by (intro engine_repI) simp_all
  then show ?thesis
    using fit E(2) unfolding counters_fit_def
    by (intro conjI exI[of _ "E\<lparr>en_risk := en_risk (engine_kill on e)\<rparr>"]) simp_all
qed

lemma counters_fit_events:
  "engine_events bo es e = Some e' \<Longrightarrow> counters_fit pol k e \<Longrightarrow>
   k + length (event_commands es) < 2 ^ 64 \<Longrightarrow> counters_fit pol (k + length (event_commands es)) e'"
proof (induction es arbitrary: e k rule: event_commands.induct)
  case (2 c es)
  then obtain n e1 where a: "engine_apply bo c e = Some (n, e1)" "engine_events bo es e1 = Some e'"
    by (auto simp: bind_eq_Some_conv)
  have "counters_fit pol (Suc k) e1" using counters_fit_apply(1)[OF a(1)] 2(3,4) by simp
  then show ?case using "2.IH"[OF a(2)] 2(4) by fastforce
next
  case (3 on es)
  then show ?case using counters_fit_kill[of pol k e on] by simp
qed simp

lemma monitor_operated:
  assumes "monitor_reach bo (monitor_start p0) m"
  obtains ons where "operated_reach bo p0 ons (mo_pipeline m)"
proof -
  from assms have "\<exists>ons. operated_reach bo p0 ons (mo_pipeline m)"
  proof (induction rule: monitor_reach.induct)
    case monitor_refl
    then show ?case using operated_start by (fastforce simp: monitor_start_def)
  next
    case (monitor_more m m')
    from monitor_more.hyps(2) monitor_more.IH show ?case
      by (cases rule: monitor_step.cases) (auto intro: operated_thread operated_switch)
  qed
  then show thesis using that by blast
qed

text \<open>While the threads move, no counter goes back; after the loop of the consumer, none changes.\<close>

lemma operated_counters:
  assumes setup_e: "engine_setup pol pool_capacity cfg = Some e0"
    and reach: "operated_reach bo (pipeline_start cap e0 cmds) ons p" and cap: "unat cap \<le> 2 ^ 63"
    and plain: "\<forall>c \<in> set cmds. c_type c \<noteq> Shutdown" and few: "Suc (length cmds) < 2 ^ 64"
    and step: "pipeline_step bo p (Some p')"
  shows "counter_value c (pl_engine p) \<le> counter_value c (pl_engine p')"
    and "\<not> pl_running p \<Longrightarrow> pl_engine p' = pl_engine p \<and> \<not> pl_running p'"
proof -
  obtain es where es: "prefix (event_commands es) cmds" "engine_events bo es e0 = Some (pl_engine p)"
    using operated_session(1)[OF reach cap plain] by blast
  have len: "length (event_commands es) \<le> length cmds" by (rule prefix_length_le[OF es(1)])
  have fit: "counters_fit pol (length (event_commands es)) (pl_engine p)"
    using counters_fit_events[OF es(2) counters_start(1)[OF setup_e]] len few by simp
  show "counter_value c (pl_engine p) \<le> counter_value c (pl_engine p')"
    using step_engine[OF step refl] counters_fit_apply(2)[OF _ fit] len few by fastforce
  obtain hs where "pipeline_shape (drain cmds) hs p"
    by (rule operated_invE[OF operated_reach_inv[OF reach operated_start_inv[OF cap]]])
  then have idle: "\<not> pl_running p \<Longrightarrow> pl_cmd p = None"
    by (auto simp: pipeline_shape_def consumer_ok_def)
  show "\<not> pl_running p \<Longrightarrow> pl_engine p' = pl_engine p \<and> \<not> pl_running p'"
    using step idle by (cases rule: pipeline_step.cases) auto
qed

section \<open>What the monitor knows\<close>

definition loads_ok :: "monitor \<Rightarrow> bool" where
  "loads_ok m \<longleftrightarrow>
     (\<forall>c. sorted (mo_orders m c) \<and> mo_seen m c < length (mo_orders m c) \<and>
        last (mo_orders m c) = counter_value c (pl_engine (mo_pipeline m)) \<and>
        mo_local m c \<le> mo_orders m c ! mo_seen m c)"

definition replies_ok :: "monitor \<Rightarrow> bool" where
  "replies_ok m \<longleftrightarrow>
     sorted_wrt stats_le (stats_replies m @ [local_stats (mo_local m)]) \<and>
     sorted_wrt metrics_le (metrics_replies m @ [local_metrics (mo_local m)])"

text \<open>The loads that a call has made.\<close>

definition loads_done :: "monitor \<Rightarrow> counter set" where
  "loads_done m =
     (case mo_call m of None \<Rightarrow> {} | Some k \<Rightarrow> set (call_loads k) - set (mo_todo m))"

definition call_ok :: "monitor \<Rightarrow> bool" where
  "call_ok m \<longleftrightarrow>
     (case mo_call m of
        None \<Rightarrow> mo_todo m = []
      | Some k \<Rightarrow> \<exists>ds. call_loads k = ds @ mo_todo m)"

definition joined_ok :: "monitor \<Rightarrow> bool" where
  "joined_ok m \<longleftrightarrow>
     (mo_joined m \<longrightarrow>
        \<not> pl_running (mo_pipeline m) \<and> (\<forall>c. Suc (mo_seen m c) = length (mo_orders m c)) \<and>
        (\<forall>c \<in> loads_done m. mo_local m c = counter_value c (pl_engine (mo_pipeline m)))) \<and>
     (\<forall>r. (True, r) \<in> set (mo_replies m) \<longrightarrow>
        mo_joined m \<and>
        (\<exists>k. r = call_report k (\<lambda>c. counter_value c (pl_engine (mo_pipeline m)))))"

lemma loads_done_cong:
  "mo_call m' = mo_call m \<Longrightarrow> mo_todo m' = mo_todo m \<Longrightarrow> loads_done m' = loads_done m"
  by (simp add: loads_done_def split: option.split)

lemma record_writes_facts:
  assumes "sorted (orders c)" "orders c \<noteq> []" "last (orders c) \<le> counter_value c e"
  shows "sorted (record_writes e orders c)" "last (record_writes e orders c) = counter_value c e"
    "prefix (orders c) (record_writes e orders c)"
proof -
  obtain xs y where ends: "orders c = xs @ [y]" using assms(2) by (metis rev_exhaust)
  then have "x \<le> last (orders c)" if "x \<in> set (orders c)" for x
    using that assms(1) by (auto simp: sorted_append)
  then have "x \<le> counter_value c e" if "x \<in> set (orders c)" for x
    using that assms(3) order_trans by blast
  then show "sorted (record_writes e orders c)"
    using assms(1) by (simp add: record_writes_def sorted_append)
  show "last (record_writes e orders c) = counter_value c e" "prefix (orders c) (record_writes e orders c)"
    by (simp_all add: record_writes_def)
qed

lemma stats_le_refl [simp]: "stats_le s s" "metrics_le r r"
  by (simp_all add: stats_le_def metrics_le_def)

lemma report_trans:
  "stats_le s t \<Longrightarrow> stats_le t u \<Longrightarrow> stats_le s u"
  "metrics_le a b \<Longrightarrow> metrics_le b d \<Longrightarrow> metrics_le a d"
  by (auto simp: stats_le_def metrics_le_def)

lemma local_mono:
  "(\<And>c. s c \<le> t c) \<Longrightarrow> stats_le (local_stats s) (local_stats t)"
  "(\<And>c. s c \<le> t c) \<Longrightarrow> metrics_le (local_metrics s) (local_metrics t)"
  by (simp_all add: stats_le_def metrics_le_def local_stats_def local_metrics_def)

lemma replies_ok_mono:
  assumes "replies_ok m" "mo_replies m' = mo_replies m" "\<And>c. mo_local m c \<le> mo_local m' c"
  shows "replies_ok m'"
proof -
  have "stats_le (local_stats (mo_local m)) (local_stats (mo_local m'))"
    "metrics_le (local_metrics (mo_local m)) (local_metrics (mo_local m'))"
    by (rule local_mono, rule assms(3))+
  then show ?thesis
    using assms(1) unfolding replies_ok_def stats_replies_def metrics_replies_def assms(2)
    by (auto simp: sorted_wrt_append intro: report_trans(1)) (blast intro: report_trans(2))
qed

lemma call_report_cong: "(\<And>c. c \<in> set (call_loads k) \<Longrightarrow> s c = t c) \<Longrightarrow> call_report k s = call_report k t"
  by (cases k) (simp_all add: local_stats_def local_metrics_def)

definition monitor_inv :: "monitor \<Rightarrow> bool" where
  "monitor_inv m \<longleftrightarrow> loads_ok m \<and> replies_ok m \<and> call_ok m \<and> joined_ok m"

lemma monitor_start_inv:
  assumes "engine_setup pol pool_capacity cfg = Some e0"
  shows "monitor_inv (monitor_start (pipeline_start cap e0 cmds))"
  using counters_start(2)[OF assms]
  by (simp add: monitor_inv_def loads_ok_def replies_ok_def call_ok_def joined_ok_def monitor_start_def
      stats_replies_def metrics_replies_def pipeline_start_def)

lemma monitor_inv_moves:
  assumes inv: "monitor_inv m" 
    and up: "\<And>c. counter_value c (pl_engine (mo_pipeline m)) \<le> counter_value c (pl_engine p)"
    and stopped: "\<not> pl_running (mo_pipeline m) \<Longrightarrow> pl_engine p = pl_engine (mo_pipeline m) \<and> \<not> pl_running p"
  shows "monitor_inv (m\<lparr>mo_pipeline := p, mo_orders := record_writes (pl_engine p) (mo_orders m)\<rparr>)"
proof -
  let ?m = "m\<lparr>mo_pipeline := p, mo_orders := record_writes (pl_engine p) (mo_orders m)\<rparr>"
  have l: "sorted (mo_orders m c)" "mo_seen m c < length (mo_orders m c)"
    "last (mo_orders m c) = counter_value c (pl_engine (mo_pipeline m))"
    "mo_local m c \<le> mo_orders m c ! mo_seen m c" for c
    using inv by (simp_all add: monitor_inv_def loads_ok_def)
  have w: "sorted (record_writes (pl_engine p) (mo_orders m) c)"
    "last (record_writes (pl_engine p) (mo_orders m) c) = counter_value c (pl_engine p)"
    "prefix (mo_orders m c) (record_writes (pl_engine p) (mo_orders m) c)" for c
    by (rule record_writes_facts; use l[of c] up[of c] in auto)+
  have "mo_seen m c < length (record_writes (pl_engine p) (mo_orders m) c)"
    "record_writes (pl_engine p) (mo_orders m) c ! mo_seen m c = mo_orders m c ! mo_seen m c" for c
    using w(3)[of c] l(2)[of c] by (auto simp: prefix_def nth_append)
  then have "loads_ok ?m" using w l(4) by (simp add: loads_ok_def)
  moreover have "replies_ok ?m" "call_ok ?m"
    using inv
    by (auto simp: monitor_inv_def replies_ok_def call_ok_def stats_replies_def metrics_replies_def
        split: option.splits)
  moreover have "joined_ok ?m"
  proof (cases "mo_joined m")
    case True
    then have same: "pl_engine p = pl_engine (mo_pipeline m)" "\<not> pl_running p"
      using inv stopped by (auto simp: monitor_inv_def joined_ok_def)
    then have "record_writes (pl_engine p) (mo_orders m) = mo_orders m"
      using l(3) by (auto simp: record_writes_def)
    moreover have "loads_done ?m = loads_done m" by (rule loads_done_cong) simp_all
    ultimately show ?thesis
      using inv same by (simp add: monitor_inv_def joined_ok_def)
  next
    case False
    then show ?thesis using inv by (simp add: monitor_inv_def joined_ok_def)
  qed
  ultimately show ?thesis by (simp add: monitor_inv_def)
qed

lemma monitor_inv_loaded:
  assumes inv: "monitor_inv m" and todo: "mo_todo m = c # cs" and i: "mo_seen m c \<le> i" "i < length (mo_orders m c)"
  shows "monitor_inv (m\<lparr>mo_todo := cs, mo_seen := (mo_seen m)(c := i),
    mo_local := (mo_local m)(c := mo_orders m c ! i)\<rparr>)" (is "monitor_inv ?m")
proof -
  have l: "sorted (mo_orders m d)" "mo_local m d \<le> mo_orders m d ! mo_seen m d" 
    "last (mo_orders m d) = counter_value d (pl_engine (mo_pipeline m))" for d
    using inv by (simp_all add: monitor_inv_def loads_ok_def)
  have up: "mo_local m c \<le> mo_orders m c ! i"
    using l(2)[of c] sorted_nth_mono[OF l(1) i] by simp
  obtain k ds where k: "mo_call m = Some k" "call_loads k = ds @ c # cs"
    using inv todo by (auto simp: monitor_inv_def call_ok_def split: option.splits)
  have "loads_ok ?m" using inv i by (simp add: monitor_inv_def loads_ok_def)
  moreover have "replies_ok ?m"
    by (rule replies_ok_mono[of m]) (use inv up in \<open>simp_all add: monitor_inv_def\<close>)
  moreover have "call_ok ?m" using k by (simp add: call_ok_def)
  moreover have "joined_ok ?m"
  proof -
    have "loads_done ?m \<subseteq> insert c (loads_done m)" using k todo by (auto simp: loads_done_def)
    moreover have "mo_orders m c ! i = counter_value c (pl_engine (mo_pipeline m)) \<and>
        Suc i = length (mo_orders m c)" if "mo_joined m"
    proof -
      have "Suc (mo_seen m c) = length (mo_orders m c)"
        using inv that by (simp add: monitor_inv_def joined_ok_def)
      then have "Suc i = length (mo_orders m c)" using i by simp
      moreover have "mo_orders m c \<noteq> []" using i(2) by auto
      ultimately show ?thesis using l(3)[of c] by (metis diff_Suc_1 last_conv_nth)
    qed
    ultimately show ?thesis
      using inv by (auto simp: monitor_inv_def joined_ok_def)
  qed
  ultimately show ?thesis by (simp add: monitor_inv_def)
qed

lemma monitor_inv_returned:
  assumes inv: "monitor_inv m" and call: "mo_call m = Some k" "mo_todo m = []"
  shows "monitor_inv (m\<lparr>mo_call := None,
    mo_replies := mo_replies m @ [(mo_joined m, call_report k (mo_local m))]\<rparr>)" (is "monitor_inv ?m")
proof -
  have "loads_ok ?m" using inv by (simp add: monitor_inv_def loads_ok_def)
  moreover have "replies_ok ?m"
    using inv by (cases k) (auto simp: monitor_inv_def replies_ok_def stats_replies_def metrics_replies_def
        sorted_wrt_append)
  moreover have "call_ok ?m" using call by (simp add: call_ok_def)
  moreover have "joined_ok ?m"
  proof -
    have "call_report k (mo_local m) =
        call_report k (\<lambda>c. counter_value c (pl_engine (mo_pipeline m)))" if "mo_joined m"
      using inv that call by (intro call_report_cong) (auto simp: monitor_inv_def joined_ok_def loads_done_def)
    then show ?thesis using inv by (auto simp: monitor_inv_def joined_ok_def loads_done_def)
  qed
  ultimately show ?thesis by (simp add: monitor_inv_def)
qed

lemma monitor_inv_joined:
  assumes inv: "monitor_inv m" and idle: "mo_call m = None" "\<not> pl_running (mo_pipeline m)"
  shows "monitor_inv (m\<lparr>mo_joined := True, mo_seen := (\<lambda>c. length (mo_orders m c) - 1)\<rparr>)"
    (is "monitor_inv ?m")
proof -
  have l: "sorted (mo_orders m c)" "mo_local m c \<le> mo_orders m c ! mo_seen m c"
    "mo_seen m c < length (mo_orders m c)" for c
    using inv by (simp_all add: monitor_inv_def loads_ok_def)
  have pos: "mo_orders m c \<noteq> []" for c using l(3)[of c] by auto
  have "mo_local m c \<le> mo_orders m c ! (length (mo_orders m c) - 1)" for c
    using l(2)[of c] sorted_nth_mono[OF l(1)[of c], of "mo_seen m c" "length (mo_orders m c) - 1"] l(3)[of c]
    by fastforce
  then have "loads_ok ?m" using inv pos by (simp add: monitor_inv_def loads_ok_def)
  moreover have "replies_ok ?m" by (rule replies_ok_mono[of m]) (use inv in \<open>simp_all add: monitor_inv_def\<close>)
  moreover have "call_ok ?m" using inv idle by (simp add: monitor_inv_def call_ok_def)
  moreover have "joined_ok ?m"
    using inv idle pos by (auto simp: monitor_inv_def joined_ok_def loads_done_def)
  ultimately show ?thesis by (simp add: monitor_inv_def)
qed

lemma monitor_reach_inv:
  assumes setup_e: "engine_setup pol pool_capacity cfg = Some e0"
    and reach: "monitor_reach bo (monitor_start (pipeline_start cap e0 cmds)) m" and cap: "unat cap \<le> 2 ^ 63"
    and plain: "\<forall>c \<in> set cmds. c_type c \<noteq> Shutdown" and few: "Suc (length cmds) < 2 ^ 64"
  shows "monitor_inv m"
  using reach
proof (induction rule: monitor_reach.induct)
  case monitor_refl
  show ?case by (rule monitor_start_inv[OF setup_e])
next
  case (monitor_more m m')
  obtain ons where op: "operated_reach bo (pipeline_start cap e0 cmds) ons (mo_pipeline m)"
    by (rule monitor_operated[OF monitor_more.hyps(1)])
  from monitor_more.hyps(2) show ?case
  proof (cases rule: monitor_step.cases)
    case (threads_move p)
    show ?thesis
      unfolding threads_move(1)
      using operated_counters[OF setup_e op cap plain few threads_move(2)]
      by (intro monitor_inv_moves[OF monitor_more.IH]) blast+
  next
    case (switch_thrown p on)
    then show ?thesis
      using monitor_more.IH
      by (auto simp: monitor_inv_def loads_ok_def replies_ok_def call_ok_def joined_ok_def loads_done_def
          stats_replies_def metrics_replies_def split: option.splits)
  next
    case (report_called k)
    then show ?thesis
      using monitor_more.IH
      by (auto simp: monitor_inv_def loads_ok_def replies_ok_def call_ok_def joined_ok_def loads_done_def
          stats_replies_def metrics_replies_def)
  next
    case (counter_loaded c cs i)
    then show ?thesis using monitor_inv_loaded[OF monitor_more.IH] by simp
  next
    case (report_returned k)
    then show ?thesis using monitor_inv_returned[OF monitor_more.IH] by simp
  next
    case consumer_joined
    then show ?thesis using monitor_inv_joined[OF monitor_more.IH] by simp
  qed
qed

section \<open>What it is told\<close>

lemma told_in_order:
  assumes "monitor_inv m"
  shows "sorted_wrt stats_le (stats_replies m)" "sorted_wrt metrics_le (metrics_replies m)"
    and "s \<in> set (stats_replies m) \<Longrightarrow> stats_le s (engine_stats_of (pl_engine (mo_pipeline m)))"
    and "t \<in> set (metrics_replies m) \<Longrightarrow> en_risk (pl_engine (mo_pipeline m)) = Some rm \<Longrightarrow>
      metrics_le t (risk_metrics_of rm)"
proof -
  have r: "sorted_wrt stats_le (stats_replies m @ [local_stats (mo_local m)])"
    "sorted_wrt metrics_le (metrics_replies m @ [local_metrics (mo_local m)])"
    using assms by (simp_all add: monitor_inv_def replies_ok_def)
  then show "sorted_wrt stats_le (stats_replies m)" "sorted_wrt metrics_le (metrics_replies m)"
    by (simp_all add: sorted_wrt_append)
  have up: "mo_local m c \<le> counter_value c (pl_engine (mo_pipeline m))" for c
  proof -
    have l: "sorted (mo_orders m c)" "mo_seen m c < length (mo_orders m c)"
      "last (mo_orders m c) = counter_value c (pl_engine (mo_pipeline m))"
      "mo_local m c \<le> mo_orders m c ! mo_seen m c"
      using assms by (simp_all add: monitor_inv_def loads_ok_def)
    then have "mo_orders m c ! mo_seen m c \<le> mo_orders m c ! (length (mo_orders m c) - 1)"
      by (intro sorted_nth_mono) simp_all
    also have "mo_orders m c ! (length (mo_orders m c) - 1) = last (mo_orders m c)"
      using l(2) by (intro last_conv_nth[symmetric]) auto
    finally show ?thesis using l(3,4) by simp
  qed
  then have "stats_le (local_stats (mo_local m)) (engine_stats_of (pl_engine (mo_pipeline m)))"
    using local_mono(1)[of "mo_local m" "\<lambda>c. counter_value c (pl_engine (mo_pipeline m))"]
    by (simp add: local_stats_def engine_stats_of_def)
  then show "s \<in> set (stats_replies m) \<Longrightarrow> stats_le s (engine_stats_of (pl_engine (mo_pipeline m)))"
    using r(1) by (auto simp: sorted_wrt_append intro: report_trans(1))
  show "metrics_le t (risk_metrics_of rm)"
    if t: "t \<in> set (metrics_replies m)" and rm: "en_risk (pl_engine (mo_pipeline m)) = Some rm"
  proof -
    have "metrics_le t (local_metrics (mo_local m))" using r(2) t by (simp add: sorted_wrt_append)
    moreover have "metrics_le (local_metrics (mo_local m)) (risk_metrics_of rm)"
      using local_mono(2)[of "mo_local m" "\<lambda>c. counter_value c (pl_engine (mo_pipeline m))"] up rm
      by (simp add: local_metrics_def risk_metrics_of_def)
    ultimately show ?thesis by (rule report_trans(2))
  qed
qed

lemma told_after_join:
  assumes inv: "monitor_inv m" and r: "(True, r) \<in> set (mo_replies m)"
  shows "\<not> pl_running (mo_pipeline m)"
    and "r = Stats s \<Longrightarrow> s = engine_stats_of (pl_engine (mo_pipeline m))"
    and "r = Metrics t \<Longrightarrow> en_risk (pl_engine (mo_pipeline m)) = Some rm \<Longrightarrow> t = risk_metrics_of rm"
proof -
  obtain k where k: "r = call_report k (\<lambda>c. counter_value c (pl_engine (mo_pipeline m)))" "mo_joined m"
    using assms by (auto simp: monitor_inv_def joined_ok_def)
  then show "\<not> pl_running (mo_pipeline m)" using inv by (simp add: monitor_inv_def joined_ok_def)
  show "r = Stats s \<Longrightarrow> s = engine_stats_of (pl_engine (mo_pipeline m))"
    using k(1) by (cases k) (simp_all add: local_stats_def engine_stats_of_def)
  show "r = Metrics t \<Longrightarrow> en_risk (pl_engine (mo_pipeline m)) = Some rm \<Longrightarrow> t = risk_metrics_of rm"
    using k(1) by (cases k) (simp_all add: local_metrics_def risk_metrics_of_def)
qed

lemma engine_events_commands:
  "engine_events bo es e = Some e' \<Longrightarrow>
   en_commands e' = en_commands e + of_nat (length (filter is_order_command (event_commands es)))"
proof (induction es arbitrary: e rule: event_commands.induct)
  case (2 c es)
  then obtain n e1 where a: "engine_apply bo c e = Some (n, e1)" "engine_events bo es e1 = Some e'"
    by (auto simp: bind_eq_Some_conv)
  show ?case using "2.IH"[OF a(2)] engine_apply_counters(1)[OF a(1)] by simp
qed simp_all

section \<open>Calls\<close>

lemma monitor_trans: "monitor_reach bo m1 m2 \<Longrightarrow> monitor_reach bo m0 m1 \<Longrightarrow> monitor_reach bo m0 m2"
  by (induction rule: monitor_reach.induct) (auto intro: monitor_more)

text \<open>What a call leaves alone while it loads, and while the threads move.\<close>

definition same_call :: "monitor \<Rightarrow> monitor \<Rightarrow> bool" where
  "same_call m m' \<longleftrightarrow>
     mo_call m' = mo_call m \<and> mo_joined m' = mo_joined m \<and> mo_replies m' = mo_replies m"

lemma monitor_loads:
  assumes "mo_todo m = cs @ rest" "distinct cs"
    "\<forall>c \<in> set cs. mo_seen m c \<le> pos c \<and> pos c < length (mo_orders m c)"
  shows "\<exists>m'. monitor_reach bo m m' \<and> mo_todo m' = rest \<and> same_call m m' \<and>
    mo_pipeline m' = mo_pipeline m \<and> mo_orders m' = mo_orders m \<and>
    (\<forall>c. (c \<in> set cs \<longrightarrow> mo_local m' c = mo_orders m c ! pos c) \<and>
       (c \<notin> set cs \<longrightarrow> mo_local m' c = mo_local m c \<and> mo_seen m' c = mo_seen m c))"
  using assms
proof (induction cs arbitrary: m)
  case Nil
  then show ?case using monitor_refl[of bo m] by (auto simp: same_call_def)
next
  case (Cons c cs)
  let ?m = "m\<lparr>mo_todo := cs @ rest, mo_seen := (mo_seen m)(c := pos c),
    mo_local := (mo_local m)(c := mo_orders m c ! pos c)\<rparr>"
  have step: "monitor_reach bo m ?m"
    using Cons.prems by (intro monitor_more[OF monitor_refl] counter_loaded) simp_all
  obtain m' where m': "monitor_reach bo ?m m'" "mo_todo m' = rest" "same_call ?m m'"
    "mo_pipeline m' = mo_pipeline ?m" "mo_orders m' = mo_orders ?m"
    "\<forall>d. (d \<in> set cs \<longrightarrow> mo_local m' d = mo_orders ?m d ! pos d) \<and>
       (d \<notin> set cs \<longrightarrow> mo_local m' d = mo_local ?m d \<and> mo_seen m' d = mo_seen ?m d)"
  proof -
    have "\<forall>d \<in> set cs. mo_seen ?m d \<le> pos d \<and> pos d < length (mo_orders ?m d)"
      using Cons.prems(2,3) by auto
    then show thesis using Cons.IH[of ?m] Cons.prems(2) that by auto
  qed
  show ?case
    using monitor_trans[OF m'(1) step] m'(2-6) Cons.prems(2)
    by (intro exI[of _ m']) (auto simp: same_call_def)
qed

lemma monitor_lift:
  assumes "pipeline_reach bo p p'" "mo_pipeline m = p"
  shows "\<exists>m'. monitor_reach bo m m' \<and> mo_pipeline m' = p' \<and> same_call m m' \<and> mo_todo m' = mo_todo m \<and>
    mo_seen m' = mo_seen m \<and> mo_local m' = mo_local m"
  using assms
proof (induction rule: pipeline_reach.induct)
  case pipeline_refl
  then show ?case using monitor_refl[of bo m] by (auto simp: same_call_def)
next
  case (pipeline_more p1 p2)
  then obtain m' where m': "monitor_reach bo m m'" "mo_pipeline m' = p1" "same_call m m'"
    "mo_todo m' = mo_todo m" "mo_seen m' = mo_seen m" "mo_local m' = mo_local m"
    by blast
  have "monitor_step bo m' (m'\<lparr>mo_pipeline := p2, mo_orders := record_writes (pl_engine p2) (mo_orders m')\<rparr>)"
    using pipeline_more.hyps(2) m'(2) by (intro threads_move) simp
  from monitor_more[OF m'(1) this] m' show ?case
    by (intro exI[of _ "m'\<lparr>mo_pipeline := p2, mo_orders := record_writes (pl_engine p2) (mo_orders m')\<rparr>"])
      (simp add: same_call_def)
qed

text \<open>
  A call that loads the first two counters before a session and the others after it: its reply has a
  trade without a submission.
\<close>

lemma torn_sample:
  obtains e0 m where "engine_setup CancelResting 16 None = Some e0"
    "monitor_reach BigEndian (monitor_start (pipeline_start 2 e0 pipeline_commands)) m"
    "mo_call m = None" "\<not> mo_joined m" "\<not> pl_running (mo_pipeline m)"
    "mo_replies m = [(False, Stats \<lparr>st_commands = 0, st_submits = 0, st_cancels = 1, st_trades = 1\<rparr>)]"
proof -
  have cap: "unat (2 :: 64 word) \<le> 2 ^ 63" by simp
  obtain e0 where e0: "engine_setup CancelResting 16 None = Some e0"
    "engine_rep CancelResting e0 (spec_setup None)"
    by (rule engine_setup_ok)
  obtain E1 where E1: "spec_run_commands CancelResting BigEndian pipeline_commands (spec_setup None) = Some E1"
    "en_trades E1 = 1" "en_cancels E1 = 1"
  proof -
    have "map_option (\<lambda>E. (en_trades E, en_cancels E))
        (spec_run_commands CancelResting BigEndian pipeline_commands (spec_setup None)) = Some (1, 1)"
      by code_simp
    then show thesis
      using that by (cases "spec_run_commands CancelResting BigEndian pipeline_commands (spec_setup None)") auto
  qed
  obtain e1 where e1: "engine_run BigEndian pipeline_commands e0 = Some e1" "engine_rep CancelResting e1 E1"
    by (rule engine_run_realizes[OF e0(2) E1(1)])
  let ?p = "pipeline_start 2 e0 pipeline_commands"
  obtain p where p: "pipeline_reach BigEndian ?p p" "\<not> pl_running p" "pl_engine p = e1"
    using pipeline_ends[OF pipeline_refl cap pipeline_commands_plain e1(1)] by blast
  let ?m0 = "monitor_start ?p"
  let ?m1 = "?m0\<lparr>mo_call := Some Stats_call, mo_todo := call_loads Stats_call\<rparr>"
  have r1: "monitor_reach BigEndian ?m0 ?m1"
    by (rule monitor_more[OF monitor_refl report_called]) (simp_all add: monitor_start_def)
  obtain m2 where m2: "monitor_reach BigEndian ?m1 m2" "mo_todo m2 = [Cancels, Trades]" "same_call ?m1 m2"
    "mo_pipeline m2 = ?p" "mo_local m2 Commands = 0" "mo_local m2 Submits = 0"
    "mo_seen m2 Cancels = 0" "mo_seen m2 Trades = 0"
    using monitor_loads[of ?m1 "[Commands, Submits]" "[Cancels, Trades]" "\<lambda>_. 0" BigEndian]
      counters_start(2)[OF e0(1)]
    by (auto simp: monitor_start_def pipeline_start_def)
  obtain m3 where m3: "monitor_reach BigEndian m2 m3" "mo_pipeline m3 = p" "same_call m2 m3"
    "mo_todo m3 = [Cancels, Trades]" "mo_seen m3 = mo_seen m2" "mo_local m3 = mo_local m2"
    using monitor_lift[OF p(1) m2(4)] m2(2) by auto
  have r3: "monitor_reach BigEndian ?m0 m3" using r1 m2(1) m3(1) monitor_trans by blast
  have inv: "monitor_inv m3"
    by (rule monitor_reach_inv[OF e0(1) r3 cap pipeline_commands_plain]) (simp add: pipeline_commands_def)
  have l: "last (mo_orders m3 c) = counter_value c e1" "mo_seen m3 c < length (mo_orders m3 c)" for c
    using inv m3(2) p(3) by (auto simp: monitor_inv_def loads_ok_def)
  have l2: "mo_orders m3 c ! (length (mo_orders m3 c) - 1) = counter_value c e1" for c
    using l[of c] by (metis last_conv_nth length_greater_0_conv not_less0 neq0_conv)
  obtain m4 where m4: "monitor_reach BigEndian m3 m4" "mo_todo m4 = []" "same_call m3 m4"
    "mo_pipeline m4 = p" "mo_local m4 Commands = 0" "mo_local m4 Submits = 0"
    "mo_local m4 Cancels = counter_value Cancels e1" "mo_local m4 Trades = counter_value Trades e1"
  proof -
    have "\<forall>c \<in> set [Cancels, Trades]. mo_seen m3 c \<le> length (mo_orders m3 c) - 1 \<and>
        length (mo_orders m3 c) - 1 < length (mo_orders m3 c)"
    proof
      fix c show "mo_seen m3 c \<le> length (mo_orders m3 c) - 1 \<and>
          length (mo_orders m3 c) - 1 < length (mo_orders m3 c)"
        using l(2)[of c] by linarith
    qed
    from monitor_loads[OF _ _ this, of "[]" BigEndian] show thesis
      using that m3(2,4,6) m2(5,6) l2 by auto
  qed
  have vals: "counter_value Cancels e1 = 1" "counter_value Trades e1 = 1"
    using engine_repD[OF e1(2)] E1(2,3) by simp_all
  have call: "mo_call m4 = Some Stats_call" "mo_joined m4 = False" "mo_replies m4 = []"
    using m2(3) m3(3) m4(3) by (simp_all add: same_call_def monitor_start_def)
  let ?m5 = "m4\<lparr>mo_call := None,
    mo_replies := mo_replies m4 @ [(mo_joined m4, call_report Stats_call (mo_local m4))]\<rparr>"
  have "monitor_reach BigEndian ?m0 ?m5"
    using r3 m4(1) monitor_trans report_returned[OF call(1) m4(2)] monitor_more by blast
  then show thesis
    by (rule that[OF e0(1)]) (use p(2) m4 call vals in \<open>simp_all add: local_stats_def\<close>)
qed

text \<open>And then it joins the consumer and calls again.\<close>

lemma monitor_sample:
  obtains e0 m s where "engine_setup CancelResting 16 None = Some e0"
    "monitor_reach BigEndian (monitor_start (pipeline_start 2 e0 pipeline_commands)) m"
    "mo_replies m = [(False, Stats \<lparr>st_commands = 0, st_submits = 0, st_cancels = 1, st_trades = 1\<rparr>),
       (True, Stats s)]"
proof -
  obtain e0 m where m: "engine_setup CancelResting 16 None = Some e0"
    "monitor_reach BigEndian (monitor_start (pipeline_start 2 e0 pipeline_commands)) m"
    "mo_call m = None" "\<not> mo_joined m" "\<not> pl_running (mo_pipeline m)"
    "mo_replies m = [(False, Stats \<lparr>st_commands = 0, st_submits = 0, st_cancels = 1, st_trades = 1\<rparr>)]"
    by (rule torn_sample)
  have cap: "unat (2 :: 64 word) \<le> 2 ^ 63" by simp
  let ?m1 = "m\<lparr>mo_joined := True, mo_seen := (\<lambda>c. length (mo_orders m c) - 1)\<rparr>"
  let ?m2 = "?m1\<lparr>mo_call := Some Stats_call, mo_todo := call_loads Stats_call\<rparr>"
  have r2: "monitor_reach BigEndian m ?m2"
    by (rule monitor_more[OF monitor_more[OF monitor_refl consumer_joined] report_called]) (use m in simp_all)
  have "monitor_inv m"
    by (rule monitor_reach_inv[OF m(1,2) cap pipeline_commands_plain]) (simp add: pipeline_commands_def)
  then have "mo_seen m c < length (mo_orders m c)" for c by (simp add: monitor_inv_def loads_ok_def)
  then have "length (mo_orders m c) - 1 < length (mo_orders m c)" for c
    by (metis diff_less gr_implies_not0 length_greater_0_conv list.size(3) zero_less_one)
  then have pos: "\<forall>c \<in> set (call_loads Stats_call). mo_seen ?m2 c \<le> length (mo_orders m c) - 1 \<and>
      length (mo_orders m c) - 1 < length (mo_orders ?m2 c)" by simp
  obtain m3 where m3: "monitor_reach BigEndian ?m2 m3" "mo_todo m3 = []" "same_call ?m2 m3"
    using monitor_loads[OF _ _ pos, of "[]" BigEndian] by auto
  let ?m4 = "m3\<lparr>mo_call := None,
    mo_replies := mo_replies m3 @ [(mo_joined m3, call_report Stats_call (mo_local m3))]\<rparr>"
  have call: "mo_call m3 = Some Stats_call" "mo_joined m3" "mo_replies m3 = mo_replies m"
    using m3(3) by (simp_all add: same_call_def)
  have "monitor_reach BigEndian (monitor_start (pipeline_start 2 e0 pipeline_commands)) ?m4"
    using m(2) r2 m3(1) monitor_trans report_returned[OF call(1) m3(2)] monitor_more by blast
  then show thesis by (rule that[OF m(1)]) (use call m(6) in simp)
qed

section \<open>Properties\<close>

text \<open>
  C22: Counters read from another thread never go backwards: whatever the relaxed loads yield during a
  session, each report of \<open>stats\<close> and each of \<open>metrics\<close> is at least the one before it and at most what
  the consumer has counted by now, field by field.
\<close>

theorem reports_never_go_back:
  assumes "engine_setup pol pool_capacity cfg = Some e0"
    and "monitor_reach bo (monitor_start (pipeline_start cap e0 cmds)) m" and "unat cap \<le> 2 ^ 63"
    and "\<forall>c \<in> set cmds. c_type c \<noteq> Shutdown" and "Suc (length cmds) < 2 ^ 64"
  shows "sorted_wrt stats_le (stats_replies m) \<and> sorted_wrt metrics_le (metrics_replies m) \<and>
    (\<forall>s \<in> set (stats_replies m). stats_le s (engine_stats_of (pl_engine (mo_pipeline m)))) \<and>
    (\<forall>t \<in> set (metrics_replies m). \<forall>rm. en_risk (pl_engine (mo_pipeline m)) = Some rm \<longrightarrow>
       metrics_le t (risk_metrics_of rm))"
  using told_in_order[OF monitor_reach_inv[OF assms]] by blast

theorem reports_never_go_back_witness:
  "\<exists>e0 m s t. engine_setup CancelResting 16 None = Some e0 \<and>
     monitor_reach BigEndian (monitor_start (pipeline_start 2 e0 pipeline_commands)) m \<and>
     stats_replies m = [s, t] \<and> stats_le s t"
proof -
  have cap: "unat (2 :: 64 word) \<le> 2 ^ 63" by simp
  obtain e0 m s where m: "engine_setup CancelResting 16 None = Some e0"
    "monitor_reach BigEndian (monitor_start (pipeline_start 2 e0 pipeline_commands)) m"
    "mo_replies m = [(False, Stats \<lparr>st_commands = 0, st_submits = 0, st_cancels = 1, st_trades = 1\<rparr>),
       (True, Stats s)]"
    by (rule monitor_sample)
  have few: "Suc (length pipeline_commands) < 2 ^ 64" by (simp add: pipeline_commands_def)
  from reports_never_go_back[OF m(1,2) cap pipeline_commands_plain few] m show ?thesis
    by (auto simp: stats_replies_def)
qed

text \<open>
  C23: After the join a report is exact: each field of \<open>stats\<close> and of \<open>metrics\<close> is its counter of the
  engine in its last state, the commands are all that the producer has sent, and the checks of the risk gate, accepted or rejected,
  are all submissions, even when the kill switch was thrown meanwhile.
\<close>

theorem reports_exact_after_join:
  assumes "engine_setup pol pool_capacity cfg = Some e0"
    and "monitor_reach bo (monitor_start (pipeline_start cap e0 cmds)) m" and "unat cap \<le> 2 ^ 63"
    and "\<forall>c \<in> set cmds. c_type c \<noteq> Shutdown" and "Suc (length cmds) < 2 ^ 64"
    and "(True, r) \<in> set (mo_replies m)"
  shows "\<not> pl_running (mo_pipeline m) \<and>
    (\<forall>s. r = Stats s \<longrightarrow> s = engine_stats_of (pl_engine (mo_pipeline m)) \<and>
       st_commands s = of_nat (length (filter is_order_command cmds))) \<and>
    (\<forall>t rm. r = Metrics t \<and> en_risk (pl_engine (mo_pipeline m)) = Some rm \<longrightarrow> t = risk_metrics_of rm) \<and>
    (\<forall>t. r = Metrics t \<and> cfg \<noteq> None \<longrightarrow>
       met_accepted t + total_rejected t = of_nat (length (filter (\<lambda>c. c_type c = Submit) cmds)))"
proof -
  note inv = monitor_reach_inv[OF assms(1-5)]
  note told = told_after_join[OF inv assms(6)]
  obtain ons where op: "operated_reach bo (pipeline_start cap e0 cmds) ons (mo_pipeline m)"
    by (rule monitor_operated[OF assms(2)])
  obtain es where es: "event_commands es = cmds" "engine_events bo es e0 = Some (pl_engine (mo_pipeline m))"
    using operated_session(1)[OF op assms(3,4)] told(1) by blast
  have "st_commands (engine_stats_of (pl_engine (mo_pipeline m))) =
      of_nat (length (filter is_order_command cmds))"
    using engine_events_commands[OF es(2)] es(1) counters_start(2)[OF assms(1), of Commands]
    by (simp add: engine_stats_of_def)
  moreover have "met_accepted t + total_rejected t = of_nat (length (filter (\<lambda>c. c_type c = Submit) cmds))"
    if "r = Metrics t" "cfg = Some rc" for t rc
    using operated_accounts[OF assms(1)[unfolded that(2)] op assms(3,4) told(1)] told(3)[OF that(1)]
    by auto
  ultimately show ?thesis using told by auto
qed

theorem reports_exact_after_join_witness:
  "\<exists>e0 m s. engine_setup CancelResting 16 None = Some e0 \<and>
     monitor_reach BigEndian (monitor_start (pipeline_start 2 e0 pipeline_commands)) m \<and>
     (True, Stats s) \<in> set (mo_replies m) \<and> st_commands s = 3"
proof -
  have cap: "unat (2 :: 64 word) \<le> 2 ^ 63" by simp
  obtain e0 m s where m: "engine_setup CancelResting 16 None = Some e0"
    "monitor_reach BigEndian (monitor_start (pipeline_start 2 e0 pipeline_commands)) m"
    "mo_replies m = [(False, Stats \<lparr>st_commands = 0, st_submits = 0, st_cancels = 1, st_trades = 1\<rparr>),
       (True, Stats s)]"
    by (rule monitor_sample)
  have few: "Suc (length pipeline_commands) < 2 ^ 64" by (simp add: pipeline_commands_def)
  have s: "(True, Stats s) \<in> set (mo_replies m)" using m(3) by simp
  have "length (filter is_order_command pipeline_commands) = 3"
    by (simp add: pipeline_commands_def command_defs is_order_command_def)
  with reports_exact_after_join[OF m(1,2) cap pipeline_commands_plain few s] m(1,2) s show ?thesis
    by auto
qed

text \<open>
  A report taken during a session is not a snapshot of one moment: it can count a trade and no
  submission, which the counters of the
  engine itself never do (\<open>EngineCounters\<close>).
\<close>

theorem report_can_be_torn:
  "\<exists>e0 m s. engine_setup CancelResting 16 None = Some e0 \<and>
     monitor_reach BigEndian (monitor_start (pipeline_start 2 e0 pipeline_commands)) m \<and>
     s \<in> set (stats_replies m) \<and> st_submits s < st_trades s"
proof -
  obtain e0 m s where "engine_setup CancelResting 16 None = Some e0"
    "monitor_reach BigEndian (monitor_start (pipeline_start 2 e0 pipeline_commands)) m"
    "mo_replies m = [(False, Stats \<lparr>st_commands = 0, st_submits = 0, st_cancels = 1, st_trades = 1\<rparr>),
       (True, Stats s)]"
    by (rule monitor_sample)
  then show ?thesis by (force simp: stats_replies_def)
qed

end
