(* ===== verification/TestScenarios.thy ===== *)
theory TestScenarios
  imports BookMemory MatchingEngine
begin

text \<open>
  The unit tests of the repository (\<open>tests\<close>) on the model: the inputs of each deterministic test of
  the book, the risk gate and the event log, with all that the test observes.
\<close>

section \<open>What a test of the book observes\<close>

text \<open>
  The replies, the trades as maker, price and quantity, the best prices, and the orders that rest with
  what remains of them, in the order of the snapshot.
\<close>

type_synonym book_observation =
  "(submit_status + bool) list \<times> (order_id \<times> price \<times> quantity) list \<times> price option \<times> price option \<times>
   (order_id \<times> quantity) list"

fun reply_code :: "book_reply \<Rightarrow> submit_status + bool" where
  "reply_code (Submitted res _) = Inl (r_status res)"
| "reply_code (Cancelled_order found) = Inr found"

fun reply_trades :: "book_reply \<Rightarrow> (order_id \<times> price \<times> quantity) list" where
  "reply_trades (Submitted _ ts) = map (\<lambda>t. (t_maker_id t, t_price t, t_quantity t)) ts"
| "reply_trades (Cancelled_order _) = []"

definition observation ::
    "book_reply list \<Rightarrow> price option \<Rightarrow> price option \<Rightarrow> order_snapshot list \<Rightarrow> book_observation" where
  "observation rs bid ask snap =
     (map reply_code rs, concat (map reply_trades rs), bid, ask,
      map (\<lambda>s. (sn_id s, sn_remaining s)) snap)"

definition observed :: "self_trade_policy \<Rightarrow> 64 word \<Rightarrow> book_op list \<Rightarrow> book_observation option" where
  "observed pol cap cmds =
     do {
       (rs, b) \<leftarrow> book_session pol cap cmds;
       snap \<leftarrow> snapshot b;
       Some (observation rs (best_bid b) (best_ask b) snap)
     }"

definition spec_observed :: "self_trade_policy \<Rightarrow> book_op list \<Rightarrow> book_observation" where
  "spec_observed pol cmds =
     (let (rs, A) = spec_session pol cmds
      in observation rs (spec_best (sp_bids A)) (spec_best (sp_asks A)) (spec_snapshot A))"

lemma observed_spec: "observed pol cap cmds = Some (spec_observed pol cmds)"
proof -
  obtain b where b: "book_session pol cap cmds = Some (fst (spec_session pol cmds), b)"
    "book_rep b (session_book pol cmds)" "bk_stp b = pol"
    by (rule session_ok)
  then show ?thesis
    using book_snapshot_ok[OF b(2)] book_best_ok[OF b(2)]
    by (simp add: observed_def spec_observed_def split_def Let_def)
qed

section \<open>The tests of the book\<close>

text \<open>\<open>tests/test_partial_fills.cpp\<close>\<close>

lemma resting_order_partially_filled:
  "observed STP_None cap
     [Do_submit 1 1 Buy (I64 100) 10, Do_submit 2 1 Sell (I64 100) 4] = Some
     ([Inl Rested, Inl FullyFilled],
      [(1, I64 100, 4)],
      Some (I64 100), None, [(1, 6)])"
  unfolding observed_spec by code_simp

lemma aggressor_rests_remainder:
  "observed STP_None cap
     [Do_submit 1 1 Buy (I64 100) 10, Do_submit 2 1 Sell (I64 100) 25] = Some
     ([Inl Rested, Inl PartiallyFilled],
      [(1, I64 100, 10)],
      None, Some (I64 100), [(2, 15)])"
  unfolding observed_spec by code_simp

lemma aggressor_fills_across_makers:
  "observed STP_None cap
     [Do_submit 1 1 Buy (I64 100) 6, Do_submit 2 1 Buy (I64 100) 6,
     Do_submit 3 1 Sell (I64 100) 9] = Some
     ([Inl Rested, Inl Rested, Inl FullyFilled],
      [(1, I64 100, 6), (2, I64 100, 3)],
      Some (I64 100), None, [(2, 3)])"
  unfolding observed_spec by code_simp

lemma exact_fill_empties_book:
  "observed STP_None cap
     [Do_submit 1 1 Sell (I64 100) 10, Do_submit 2 1 Buy (I64 100) 10] = Some
     ([Inl Rested, Inl FullyFilled],
      [(1, I64 100, 10)],
      None, None, [])"
  unfolding observed_spec by code_simp

lemma rejects_zero_and_duplicate:
  "observed STP_None cap
     [Do_submit 1 1 Buy (I64 100) 0, Do_submit 2 1 Buy (I64 100) 5, Do_submit 2 1 Buy (I64 100) 5] = Some
     ([Inl Rejected, Inl Rested, Inl Rejected],
      [],
      Some (I64 100), None, [(2, 5)])"
  unfolding observed_spec by code_simp

text \<open>\<open>tests/test_self_trade.cpp\<close>\<close>

lemma cancel_resting_removes_own:
  "observed CancelResting cap
     [Do_submit 1 7 Buy (I64 100) 10, Do_submit 2 7 Sell (I64 100) 10] = Some
     ([Inl Rested, Inl Rested],
      [],
      None, Some (I64 100), [(2, 10)])"
  unfolding observed_spec by code_simp

lemma cancel_resting_trades_with_others:
  "observed CancelResting cap
     [Do_submit 1 7 Buy (I64 100) 10, Do_submit 2 9 Buy (I64 100) 10,
     Do_submit 3 7 Sell (I64 100) 10] = Some
     ([Inl Rested, Inl Rested, Inl FullyFilled],
      [(2, I64 100, 10)],
      None, None, [])"
  unfolding observed_spec by code_simp

lemma cancel_aggressing_drops_remainder:
  "observed CancelAggressing cap
     [Do_submit 1 9 Buy (I64 100) 4, Do_submit 2 7 Buy (I64 100) 10,
     Do_submit 3 7 Sell (I64 100) 10] = Some
     ([Inl Rested, Inl Rested, Inl CancelledBySelfTrade],
      [(1, I64 100, 4)],
      Some (I64 100), None, [(2, 10)])"
  unfolding observed_spec by code_simp

lemma policy_none_allows_self_trade:
  "observed STP_None cap
     [Do_submit 1 7 Buy (I64 100) 10, Do_submit 2 7 Sell (I64 100) 10] = Some
     ([Inl Rested, Inl FullyFilled],
      [(1, I64 100, 10)],
      None, None, [])"
  unfolding observed_spec by code_simp

text \<open>\<open>tests/test_price_time_priority.cpp\<close>\<close>

lemma time_priority_within_level:
  "observed STP_None cap
     [Do_submit 1 1 Buy (I64 100) 10, Do_submit 2 1 Buy (I64 100) 10,
     Do_submit 3 1 Sell (I64 100) 10] = Some
     ([Inl Rested, Inl Rested, Inl FullyFilled],
      [(1, I64 100, 10)],
      Some (I64 100), None, [(2, 10)])"
  unfolding observed_spec by code_simp

lemma better_price_first:
  "observed STP_None cap
     [Do_submit 1 1 Buy (I64 100) 10, Do_submit 2 1 Buy (I64 101) 10,
     Do_submit 3 1 Sell (I64 100) 5] = Some
     ([Inl Rested, Inl Rested, Inl FullyFilled],
      [(2, I64 101, 5)],
      Some (I64 101), None, [(2, 5), (1, 10)])"
  unfolding observed_spec by code_simp

lemma sweeps_levels_in_order:
  "observed STP_None cap
     [Do_submit 1 1 Sell (I64 100) 5, Do_submit 2 1 Sell (I64 101) 5,
     Do_submit 3 1 Sell (I64 102) 5, Do_submit 4 1 Buy (I64 102) 15] = Some
     ([Inl Rested, Inl Rested, Inl Rested, Inl FullyFilled],
      [(1, I64 100, 5), (2, I64 101, 5), (3, I64 102, 5)],
      None, None, [])"
  unfolding observed_spec by code_simp

lemma non_crossing_rests:
  "observed STP_None cap
     [Do_submit 1 1 Buy (I64 99) 10, Do_submit 2 1 Sell (I64 100) 10] = Some
     ([Inl Rested, Inl Rested],
      [],
      Some (I64 99), Some (I64 100), [(1, 10), (2, 10)])"
  unfolding observed_spec by code_simp

text \<open>\<open>tests/test_cancellation.cpp\<close>\<close>

lemma cancel_removes_resting:
  "observed STP_None cap
     [Do_submit 1 1 Buy (I64 100) 10, Do_cancel 1] = Some
     ([Inl Rested, Inr True],
      [],
      None, None, [])"
  unfolding observed_spec by code_simp

lemma cancel_unknown_id:
  "observed STP_None cap
     [Do_cancel 42, Do_submit 1 1 Buy (I64 100) 10, Do_cancel 1, Do_cancel 1] = Some
     ([Inr False, Inl Rested, Inr True, Inr False],
      [],
      None, None, [])"
  unfolding observed_spec by code_simp

lemma cancel_keeps_priority:
  "observed STP_None cap
     [Do_submit 1 1 Buy (I64 100) 10, Do_submit 2 1 Buy (I64 100) 10, Do_cancel 1,
     Do_submit 3 1 Sell (I64 100) 10] = Some
     ([Inl Rested, Inl Rested, Inr True, Inl FullyFilled],
      [(2, I64 100, 10)],
      None, None, [])"
  unfolding observed_spec by code_simp

lemma cancel_middle_of_queue:
  "observed STP_None cap
     [Do_submit 1 1 Buy (I64 100) 5, Do_submit 2 1 Buy (I64 100) 5, Do_submit 3 1 Buy (I64 100) 5,
     Do_cancel 2, Do_submit 4 1 Sell (I64 100) 10] = Some
     ([Inl Rested, Inl Rested, Inl Rested, Inr True, Inl FullyFilled],
      [(1, I64 100, 5), (3, I64 100, 5)],
      None, None, [])"
  unfolding observed_spec by code_simp
section \<open>The tests of the risk gate\<close>

text \<open>\<open>tests/test_risk_controls.cpp\<close>: the verdicts, and the metrics at the end.\<close>

definition risk_observed :: "risk_config \<Rightarrow> risk_event list \<Rightarrow> (reject_reason list \<times> risk_metrics) option" where
  "risk_observed cfg es =
     map_option (\<lambda>(vs, rm). (map snd vs, risk_metrics_of rm)) (risk_session es (risk_new cfg))"

lemma max_order_size_test:
  "risk_observed (risk_config_default\<lparr>max_order_size := 100\<rparr>)
     [Check 1 Buy (I64 100) 100 None, Check 2 Buy (I64 100) 101 None] = Some
     ([Accepted, MaxOrderSize],
      \<lparr>met_accepted = 1, met_max_order_size = 1, met_max_notional = 0, met_price_collar = 0,
       met_kill_switch = 0, met_duplicate = 0\<rparr>)"
  by code_simp

lemma max_notional_test:
  "map_option fst (risk_observed (risk_config_default\<lparr>max_notional := 1000000\<rparr>)
     [Check 1 Buy (I64 100) 10000 None, Check 2 Buy (I64 100) 10001 None]) = Some
     [Accepted, MaxNotional]"
  by code_simp

lemma fat_finger_collar_test:
  "map_option fst (risk_observed (risk_config_default\<lparr>collar_bps := 100\<rparr>)
     [Check 1 Buy (I64 10100) 1 (Some (I64 10000)), Check 2 Buy (I64 10101) 1 (Some (I64 10000)),
      Check 3 Sell (I64 9900) 1 (Some (I64 10000)), Check 4 Sell (I64 9899) 1 (Some (I64 10000)),
      Check 5 Buy (I64 999999) 1 None]) = Some
     [Accepted, PriceCollar, Accepted, PriceCollar, Accepted]"
  by code_simp

lemma kill_switch_test:
  "map_option (\<lambda>(vs, m). (vs, met_kill_switch m)) (risk_observed risk_config_default
     [Check 1 Buy (I64 100) 1 None, Throw True, Check 2 Buy (I64 100) 1 None,
      Check 3 Sell (I64 100) 1 None, Throw False, Check 4 Buy (I64 100) 1 None]) = Some
     ([Accepted, KillSwitch, KillSwitch, Accepted], 2)"
  by code_simp

lemma duplicate_id_test:
  "map_option (\<lambda>(vs, m). (vs, met_duplicate m)) (risk_observed risk_config_default
     [Check 7 Buy (I64 100) 1 None, Check 7 Buy (I64 100) 1 None]) = Some
     ([Accepted, DuplicateOrder], 1)"
  by code_simp

lemma default_config_test:
  "map_option fst (risk_observed risk_config_default
     [Check 1 Buy (I64 1000000) 1000000 (Some (I64 1))]) = Some [Accepted]"
  by code_simp

text \<open>A fat finger never reaches the book: the trades, the orders, the collar's count, the submissions.\<close>

definition engine_observed ::
    "risk_config option \<Rightarrow> command list \<Rightarrow> (64 word \<times> nat \<times> 64 word \<times> 64 word) option" where
  "engine_observed cfg cmds =
     do {
       e0 \<leftarrow> engine_setup CancelResting 65536 cfg;
       e \<leftarrow> engine_run BigEndian cmds e0;
       Some (st_trades (engine_stats_of e), order_count (en_book e),
         (case en_risk e of None \<Rightarrow> 0 | Some rm \<Rightarrow> met_price_collar (risk_metrics_of rm)),
         st_submits (engine_stats_of e))
     }"

lemma engine_observed_spec:
  "engine_observed cfg cmds =
     map_option (\<lambda>E. (en_trades E, length (spec_ids (en_book E)),
       (case en_risk E of None \<Rightarrow> 0 | Some rm \<Rightarrow> met_price_collar (risk_metrics_of rm)), en_submits E))
       (spec_run_commands CancelResting BigEndian cmds (spec_setup cfg))"
proof -
  obtain e0 where e0: "engine_setup CancelResting 65536 cfg = Some e0"
    "engine_rep CancelResting e0 (spec_setup cfg)"
    by (rule engine_setup_ok)
  show ?thesis
    using engine_run_rep[OF e0(2), of BigEndian cmds] e0(1)
    by (auto simp: engine_observed_def engine_stats_of_def engine_repD book_count_ok elim!: option.rel_cases)
qed

lemma fat_finger_before_book_test:
  "engine_observed (Some (risk_config_default\<lparr>collar_bps := 50\<rparr>))
     [make_submit 1 1 Sell (I64 10000) 10, make_submit 2 2 Buy (I64 11000) 10] = Some (0, 1, 1, 1)"
  unfolding engine_observed_spec by code_simp

section \<open>The tests of the event log\<close>

text \<open>\<open>tests/test_event_log.cpp\<close>: files that are no journal, and a torn last record.\<close>

lemma missing_file_test: "read_event_log bo None = Inl CannotOpen"
  by (simp add: read_event_log_def)

lemma bad_magic_test: "read_event_log LittleEndian (Some [0x58, 0x58, 0x58, 0x58, 1, 0, 0, 0]) = Inl BadMagic"
  by code_simp

lemma unsupported_version_test:
  "read_event_log LittleEndian (Some [0x4F, 0x42, 0x45, 0x4C, 100, 0, 0, 0]) = Inl UnsupportedVersion"
  by code_simp

lemma short_header_test: "read_event_log LittleEndian (Some [0x4F, 0x42, 0x45]) = Inl BadMagic"
  by code_simp

lemma header_only_test: "read_event_log LittleEndian (Some [0x4F, 0x42, 0x45, 0x4C, 1, 0, 0, 0]) = Inr []"
  by code_simp

lemma torn_record_test:
  "read_event_log LittleEndian (Some (journal LittleEndian
     [make_submit 1 1 Buy (I64 100) 5, make_submit 2 1 Sell (I64 101) 5] @ replicate 17 0)) =
   Inr [make_submit 1 1 Buy (I64 100) 5, make_submit 2 1 Sell (I64 101) 5]"
  by code_simp

lemma shutdown_not_journaled_test:
  "read_event_log LittleEndian (Some (journal LittleEndian
     [make_submit 1 1 Buy (I64 100) 5, make_shutdown, make_cancel 1])) =
   Inr [make_submit 1 1 Buy (I64 100) 5, make_cancel 1]"
  by code_simp

text \<open>Replay across cancellations, partial fills and self-trade prevention: what is left to compare.\<close>

lemma replay_cancellations_test:
  "engine_observed None
     [make_submit 1 1 Buy (I64 100) 10, make_submit 2 2 Sell (I64 100) 4, make_submit 3 2 Sell (I64 100) 10,
      make_cancel 3, make_submit 4 3 Buy (I64 99) 5, make_cancel 999] = Some (2, 1, 0, 4)"
  unfolding engine_observed_spec by code_simp

end
