(* ===== verification/OrderGenerator.thy ===== *)
theory OrderGenerator
  imports Complex_Main Types "HOL-Library.Multiset"
begin

text \<open>
  The synthetic order flow of \<open>include/obe/OrderGenerator.hpp\<close> and \<open>src/OrderGenerator.cpp\<close>.

  The pseudo-random engine of the standard library and its distributions, whose values are left to
  the implementation, are a parameter: a \<open>sampler\<close> draws from a state \<open>'r\<close>, with the parameters that
  the code computes for it.  It also has the rounding of \<open>double\<close> arithmetic; a finite \<open>double\<close> is the
  rational number it stands for.  \<open>None\<close> is a signed overflow, a cast of a number that is out of range,
  or a distribution whose parameter its contract excludes.
\<close>

section \<open>Doubles\<close>

text \<open>
  Rounding to the nearest \<open>double\<close> keeps the order, and a number \<open>n / 2 ^ k\<close> with \<open>n \<le> 2 ^ 53\<close> and
  \<open>k \<le> 1022\<close> is one.
\<close>

definition round_ok :: "(rat \<Rightarrow> rat) \<Rightarrow> bool" where
  "round_ok f \<longleftrightarrow> mono f \<and> (\<forall>n \<le> 2 ^ 53. \<forall>k \<le> 1022. f (of_nat n / 2 ^ k) = of_nat n / 2 ^ k)"

text \<open>\<open>std::round\<close>: to the nearest integer, halves away from zero; and \<open>static_cast<std::uint64_t>\<close>.\<close>

definition round_away :: "rat \<Rightarrow> int" where
  "round_away x = (if x < 0 then - \<lfloor>- x + 1 / 2\<rfloor> else \<lfloor>x + 1 / 2\<rfloor>)"

definition double_to_u64 :: "rat \<Rightarrow> 64 word option" where
  "double_to_u64 q =
     (if - 1 < q \<and> q < 2 ^ 64 then Some (if q < 0 then 0 else word_of_int \<lfloor>q\<rfloor>) else None)"

lemma round_okD:
  assumes "round_ok f"
  shows "x \<le> y \<Longrightarrow> f x \<le> f y"
    and "n \<le> 2 ^ 53 \<Longrightarrow> k \<le> 1022 \<Longrightarrow> f (of_nat n / 2 ^ k) = of_nat n / 2 ^ k"
    and "n \<le> 2 ^ 53 \<Longrightarrow> f (of_nat n) = of_nat n" and "f 0 = 0" and "f 1 = 1"
proof -
  show exact: "f (of_nat n / 2 ^ k) = of_nat n / 2 ^ k" if "n \<le> 2 ^ 53" "k \<le> 1022" for n k
    using assms that by (simp add: round_ok_def)
  show "x \<le> y \<Longrightarrow> f x \<le> f y" using assms by (auto simp: round_ok_def mono_def)
  show nat: "f (of_nat n) = of_nat n" if "n \<le> 2 ^ 53" for n using exact[OF that, of 0] by simp
  show "f 0 = 0" "f 1 = 1" using nat[of 0] nat[of 1] by simp_all
qed

section \<open>Data\<close>

text \<open>
  \<open>draw_bernoulli\<close> has the probability, \<open>draw_uniform\<close> the bounds, \<open>draw_offset\<close> the depth \<open>d\<close> for the
  geometric distribution with \<open>2.0 / (d + 1)\<close>, and \<open>draw_exponential\<close> the rate; a draw that is infinite
  or not a number is \<open>None\<close>.
\<close>

record 'r sampler =
  draw_bernoulli :: "rat \<Rightarrow> 'r \<Rightarrow> bool \<times> 'r"
  draw_uniform :: "64 word \<Rightarrow> 64 word \<Rightarrow> 'r \<Rightarrow> 64 word \<times> 'r"
  draw_offset :: "int \<Rightarrow> 'r \<Rightarrow> int \<times> 'r"
  draw_exponential :: "rat \<Rightarrow> 'r \<Rightarrow> rat option \<times> 'r"
  round_double :: "rat \<Rightarrow> rat"

record gen_config =
  gc_initial_mid :: price
  gc_tick :: price
  gc_depth_levels :: int
  gc_marketable_prob :: rat
  gc_cancel_ratio :: rat
  gc_mean_qty :: rat
  gc_max_qty :: quantity
  gc_num_traders :: trader_id
  gc_mid_move_prob :: rat

record 'r generator =
  g_cfg :: gen_config
  g_rng :: 'r
  g_mid :: price
  g_next_id :: order_id
  g_live_ids :: "order_id list"

definition gen_new :: "gen_config \<Rightarrow> 'r \<Rightarrow> 'r generator" where
  "gen_new cfg seeded =
     \<lparr>g_cfg = cfg, g_rng = seeded, g_mid = gc_initial_mid cfg, g_next_id = 1, g_live_ids = []\<rparr>"

section \<open>Drawing a command\<close>

text \<open>\<open>std::bernoulli_distribution\<close> requires a probability when it is constructed.\<close>

definition bernoulli :: "rat \<Rightarrow> rat option" where
  "bernoulli p = (if 0 \<le> p \<and> p \<le> 1 then Some p else None)"

definition flip :: "'r sampler \<Rightarrow> rat \<Rightarrow> 'r \<Rightarrow> (bool \<times> 'r) option" where
  "flip S p r = do { coin \<leftarrow> bernoulli p; Some (draw_bernoulli S coin r) }"

definition random_walk_mid :: "'r sampler \<Rightarrow> 'r generator \<Rightarrow> 'r generator option" where
  "random_walk_mid S g =
     do {
       (moves, r1) \<leftarrow> flip S (gc_mid_move_prob (g_cfg g)) (g_rng g);
       if moves then
         do {
           (up, r2) \<leftarrow> flip S (1 / 2) r1;
           let tick = gc_tick (g_cfg g);
           step \<leftarrow> (if up then Some tick else i64_exact (- i64_val tick));
           mid \<leftarrow> i64_exact (i64_val (g_mid g) + i64_val step);
           Some (g\<lparr>g_rng := r2, g_mid := (if mid < tick then tick else mid)\<rparr>)
         }
       else Some (g\<lparr>g_rng := r1\<rparr>)
     }"

text \<open>\<open>std::exponential_distribution\<close> requires a positive rate.\<close>

definition size_of_draw :: "'r sampler \<Rightarrow> rat \<Rightarrow> 64 word option" where
  "size_of_draw S x = double_to_u64 (round_double S (of_int (round_away x) + 1))"

definition draw_quantity :: "'r sampler \<Rightarrow> 'r generator \<Rightarrow> (quantity \<times> 'r generator) option" where
  "draw_quantity S g =
     (let rate = round_double S (1 / gc_mean_qty (g_cfg g)) in
      if 0 < rate then
        (let (drawn, r1) = draw_exponential S rate (g_rng g) in
         do {
           x \<leftarrow> drawn;
           qty \<leftarrow> size_of_draw S x;
           Some (min qty (gc_max_qty (g_cfg g)), g\<lparr>g_rng := r1\<rparr>)
         })
      else None)"

text \<open>
  \<open>std::geometric_distribution\<close> requires a probability strictly between 0 and 1: that of
  \<open>2.0 / (depth_levels + 1)\<close> is, when the sum of two \<open>int\<close>s does not overflow and exceeds 2.
\<close>

definition depth_drawable :: "int \<Rightarrow> bool" where
  "depth_drawable d \<longleftrightarrow> d + 1 < 2 ^ 31 \<and> 2 < d + 1"

definition draw_ticks :: "'r sampler \<Rightarrow> 'r generator \<Rightarrow> (int \<times> 'r generator) option" where
  "draw_ticks S g =
     (let d = gc_depth_levels (g_cfg g) in
      if depth_drawable d then
        (let (drawn, r1) = draw_offset S d (g_rng g) in Some (min drawn d, g\<lparr>g_rng := r1\<rparr>))
      else None)"

text \<open>The price \<open>offset\<close> ticks above or below the mid, and not below one tick.\<close>

definition offset_price :: "bool \<Rightarrow> int \<Rightarrow> 'r generator \<Rightarrow> price option" where
  "offset_price higher offset g =
     (let tick = gc_tick (g_cfg g) in
      do {
        d \<leftarrow> i64_exact (offset * i64_val tick);
        price \<leftarrow> i64_exact (if higher then i64_val (g_mid g) + i64_val d
                        else i64_val (g_mid g) - i64_val d);
        Some (if price < tick then tick else price)
      })"

text \<open>The draws before the size, and the rest.\<close>

definition gen_submit_head :: "'r sampler \<Rightarrow> 'r generator \<Rightarrow> (side \<times> trader_id \<times> 'r generator) option" where
  "gen_submit_head S g0 =
     do {
       g \<leftarrow> random_walk_mid S g0;
       (buy, r1) \<leftarrow> flip S (1 / 2) (g_rng g);
       let sd = (if buy then Buy else Sell);
       let (trader, r2) = draw_uniform S 0 (ucast (gc_num_traders (g_cfg g) - 1)) r1;
       Some (sd, ucast trader, g\<lparr>g_rng := r2\<rparr>)
     }"

definition gen_make_submit :: "'r sampler \<Rightarrow> 'r generator \<Rightarrow> (command \<times> 'r generator) option" where
  "gen_make_submit S g0 =
     do {
       (sd, trader, g) \<leftarrow> gen_submit_head S g0;
       (qty, g1) \<leftarrow> draw_quantity S g;
       (offset, g2) \<leftarrow> draw_ticks S g1;
       (marketable, r4) \<leftarrow> flip S (gc_marketable_prob (g_cfg g2)) (g_rng g2);
       let higher = (if marketable then sd = Buy else sd \<noteq> Buy);
       price \<leftarrow> offset_price higher offset g2;
       let oid = g_next_id g2;
       Some (make_submit oid trader sd price qty,
         g2\<lparr>g_rng := r4, g_next_id := oid + 1, g_live_ids := g_live_ids g2 @ [oid]\<rparr>)
     }"

text \<open>Swap and pop.\<close>

definition gen_make_cancel ::
    "'r sampler \<Rightarrow> 'r generator \<Rightarrow> (command \<times> 'r generator) option" where
  "gen_make_cancel S g =
     (let (idx, r1) = draw_uniform S 0 (of_nat (length (g_live_ids g)) - 1) (g_rng g) in
      do {
        oid \<leftarrow> fetch (g_live_ids g) (unat idx);
        back \<leftarrow> fetch (g_live_ids g) (length (g_live_ids g) - 1);
        Some (make_cancel oid,
          g\<lparr>g_rng := r1, g_live_ids := butlast ((g_live_ids g)[unat idx := back])\<rparr>)
      })"

text \<open>\<open>!live_ids_.empty() && do_cancel(rng_)\<close>.\<close>

definition gen_choice :: "'r sampler \<Rightarrow> 'r generator \<Rightarrow> (bool \<times> 'r generator) option" where
  "gen_choice S g =
     do {
       coin \<leftarrow> bernoulli (gc_cancel_ratio (g_cfg g));
       if g_live_ids g \<noteq> [] then
         (let (do_cancel, r1) = draw_bernoulli S coin (g_rng g) in Some (do_cancel, g\<lparr>g_rng := r1\<rparr>))
       else Some (False, g)
     }"

definition gen_next :: "'r sampler \<Rightarrow> 'r generator \<Rightarrow> (command \<times> 'r generator) option" where
  "gen_next S g =
     do {
       (cancel, g1) \<leftarrow> gen_choice S g;
       if cancel then gen_make_cancel S g1 else gen_make_submit S g1
     }"

text \<open>The first \<open>n\<close> commands.\<close>

fun gen_stream ::
    "'r sampler \<Rightarrow> nat \<Rightarrow> 'r generator \<Rightarrow> (command list \<times> 'r generator) option" where
  "gen_stream S 0 g = Some ([], g)"
| "gen_stream S (Suc n) g =
     do {
       (c, g1) \<leftarrow> gen_next S g;
       (cs, g2) \<leftarrow> gen_stream S n g1;
       Some (c # cs, g2)
     }"

section \<open>What the standard promises of the draws, and sensible configurations\<close>

definition sampler_ok :: "'r sampler \<Rightarrow> bool" where
  "sampler_ok S \<longleftrightarrow>
     (\<forall>a b r. a \<le> b \<longrightarrow> a \<le> fst (draw_uniform S a b r) \<and> fst (draw_uniform S a b r) \<le> b) \<and>
     (\<forall>d r. depth_drawable d \<longrightarrow> 0 \<le> fst (draw_offset S d r)) \<and>
     (\<forall>l r x. 0 < l \<longrightarrow> fst (draw_exponential S l r) = Some x \<longrightarrow> 0 \<le> x) \<and>
     round_ok (round_double S)"

definition config_ok :: "gen_config \<Rightarrow> bool" where
  "config_ok cfg \<longleftrightarrow>
     0 < i64_val (gc_tick cfg) \<and> i64_val (gc_tick cfg) \<le> i64_val (gc_initial_mid cfg) \<and>
     depth_drawable (gc_depth_levels cfg) \<and> gc_max_qty cfg \<noteq> 0 \<and> gc_num_traders cfg \<noteq> 0 \<and>
     0 < gc_mean_qty cfg \<and> gc_mean_qty cfg \<le> 2 ^ 1022 \<and>
     gc_marketable_prob cfg \<in> {0..1} \<and> gc_cancel_ratio cfg \<in> {0..1} \<and> gc_mid_move_prob cfg \<in> {0..1}"

text \<open>
  The standard does not bound what an exponential distribution yields, so the cast of a size can be out
  of range: the next command is a submission, and the size drawn for it is too large or not finite.
\<close>

definition size_overflows :: "'r sampler \<Rightarrow> 'r generator \<Rightarrow> bool" where
  "size_overflows S g \<longleftrightarrow>
     (case gen_choice S g of
        Some (False, g1) \<Rightarrow>
          (case gen_submit_head S g1 of
             Some (_, _, g2) \<Rightarrow>
               Option.bind (fst (draw_exponential S (round_double S (1 / gc_mean_qty (g_cfg g2))) (g_rng g2)))
                 (size_of_draw S) = None
           | None \<Rightarrow> False)
      | _ \<Rightarrow> False)"

text \<open>No size that is drawn for the first \<open>n\<close> commands is out of range.\<close>

definition sizes_fit :: "'r sampler \<Rightarrow> gen_config \<Rightarrow> 'r \<Rightarrow> nat \<Rightarrow> bool" where
  "sizes_fit S cfg seeded n \<longleftrightarrow>
     (\<forall>k < n. case gen_stream S k (gen_new cfg seeded) of
        None \<Rightarrow> True | Some (cs, g) \<Rightarrow> \<not> size_overflows S g)"

text \<open>A generated command, for a configuration.\<close>

definition submit_in_range :: "gen_config \<Rightarrow> command \<Rightarrow> bool" where
  "submit_in_range cfg c \<longleftrightarrow>
     gc_tick cfg \<le> c_price c \<and> c_quantity c \<noteq> 0 \<and> c_quantity c \<le> gc_max_qty cfg \<and>
     c_trader c < gc_num_traders cfg"

lemma i64_exactI:
  assumes "- (2 ^ 63) \<le> i" "i < 2 ^ 63"
  obtains p where "i64_exact i = Some p" "i64_val p = i"
  using i64_exact_Some[OF assms] by blast

section \<open>Every draw is defined\<close>

lemma flipE:
  assumes "p \<in> {0..1}"
  obtains b r' where "flip S p r = Some (b, r')"
  using assms that by (cases "draw_bernoulli S p r") (simp add: flip_def bernoulli_def)

lemma random_walk_mid_ok:
  assumes "0 < i64_val (gc_tick (g_cfg g))" "gc_tick (g_cfg g) \<le> g_mid g"
    and "i64_val (g_mid g) + i64_val (gc_tick (g_cfg g)) < 2 ^ 63" and prob: "gc_mid_move_prob (g_cfg g) \<in> {0..1}"
  obtains r mid where "random_walk_mid S g = Some (g\<lparr>g_rng := r, g_mid := mid\<rparr>)"
    "gc_tick (g_cfg g) \<le> mid" "i64_val mid \<le> i64_val (g_mid g) + i64_val (gc_tick (g_cfg g))"
proof -
  let ?t = "gc_tick (g_cfg g)"
  obtain moves r1 where m: "flip S (gc_mid_move_prob (g_cfg g)) (g_rng g) = Some (moves, r1)"
    by (rule flipE[OF prob])
  show thesis
  proof (cases moves)
    case False
    then have "random_walk_mid S g = Some (g\<lparr>g_rng := r1, g_mid := g_mid g\<rparr>)"
      using m by (simp add: random_walk_mid_def)
    moreover have "i64_val (g_mid g) \<le> i64_val (g_mid g) + i64_val ?t" using assms(1) by simp
    ultimately show thesis using that assms(2) by blast
  next
    case True
    obtain up r2 where u: "flip S (1 / 2) r1 = Some (up, r2)" by (rule flipE[of "1 / 2"]) simp
    have mid: "0 < i64_val (g_mid g)" using assms(1,2) by (simp add: less_eq_i64_def)
    obtain neg where neg: "i64_exact (- i64_val ?t) = Some neg" "i64_val neg = - i64_val ?t"
      by (rule i64_exactI[of "- i64_val ?t"]) (use i64_val_bounds[of ?t] assms(1) in simp_all)
    define step where "step = (if up then ?t else neg)"
    have val: "i64_val step = (if up then i64_val ?t else - i64_val ?t)"
      using neg by (simp add: step_def)
    obtain m1 where m1: "i64_exact (i64_val (g_mid g) + i64_val step) = Some m1"
      "i64_val m1 = i64_val (g_mid g) + i64_val step"
      by (rule i64_exactI[of "i64_val (g_mid g) + i64_val step"])
        (use val assms mid i64_val_bounds[of "g_mid g"] i64_val_bounds[of ?t] in \<open>simp_all split: if_splits\<close>)
    have "random_walk_mid S g = Some (g\<lparr>g_rng := r2, g_mid := (if m1 < ?t then ?t else m1)\<rparr>)"
      using m u True neg m1(1) by (simp add: random_walk_mid_def step_def split: if_splits)
    then show thesis
      by (rule that) (use m1(2) val assms mid in
        \<open>auto simp: less_eq_i64_def less_i64_def split: if_splits\<close>)
  qed
qed

text \<open>A size is rounded, one larger, and so never 0.\<close>

lemma size_of_draw_pos:
  assumes f: "round_ok (round_double S)" and x: "0 \<le> x" and size: "size_of_draw S x = Some qty"
  shows "qty \<noteq> 0"
proof -
  let ?q = "round_double S (of_int (round_away x) + 1)"
  have "(0 :: rat) \<le> of_int (round_away x)" using x by (simp add: round_away_def)
  then have one: "1 \<le> ?q" using round_okD(1,5)[OF f] by (metis le_add_same_cancel2)
  have b: "1 \<le> \<lfloor>?q\<rfloor>" using floor_mono[OF one] by simp
  have b2: "\<not> ?q < 0" using one by linarith
  have lt: "?q < 2 ^ 64" using size by (simp add: size_of_draw_def double_to_u64_def split: if_splits)
  then have "\<lfloor>?q\<rfloor> < 2 ^ 64" by (simp add: floor_less_iff)
  then have "uint (word_of_int \<lfloor>?q\<rfloor> :: 64 word) = \<lfloor>?q\<rfloor>" using b by (simp add: uint_word_of_int)
  moreover have "qty = word_of_int \<lfloor>?q\<rfloor>"
    using size b2 by (simp add: size_of_draw_def double_to_u64_def split: if_splits)
  ultimately have "1 \<le> uint qty" using b by simp
  then show ?thesis by auto
qed

lemma rate_pos:
  assumes f: "round_ok f" and m: "0 < m" "m \<le> 2 ^ 1022"
  shows "0 < f (1 / m)"
proof -
  have "1 / 2 ^ 1022 \<le> 1 / m" using m by (intro divide_left_mono) simp_all
  then have "f (of_nat 1 / 2 ^ 1022) \<le> f (1 / m)" using round_okD(1)[OF f] by simp
  moreover have "f (of_nat 1 / 2 ^ 1022) = of_nat 1 / 2 ^ 1022" by (rule round_okD(2)[OF f]) simp_all
  moreover have "(0 :: rat) < of_nat 1 / 2 ^ 1022" by simp
  ultimately show ?thesis by linarith
qed

lemma draw_quantity_ok:
  assumes S: "sampler_ok S" and cfg: "config_ok (g_cfg g)"
    and fits: "Option.bind (fst (draw_exponential S (round_double S (1 / gc_mean_qty (g_cfg g))) (g_rng g)))
      (size_of_draw S) \<noteq> None"
  obtains r qty where "draw_quantity S g = Some (qty, g\<lparr>g_rng := r\<rparr>)" "qty \<noteq> 0"
    "qty \<le> gc_max_qty (g_cfg g)"
proof -
  let ?rate = "round_double S (1 / gc_mean_qty (g_cfg g))"
  have f: "round_ok (round_double S)" using S by (simp add: sampler_ok_def)
  have rate: "0 < ?rate" using rate_pos[OF f] cfg by (simp add: config_ok_def)
  obtain x r1 size where x: "draw_exponential S ?rate (g_rng g) = (Some x, r1)" "size_of_draw S x = Some size"
    using fits by (cases "draw_exponential S ?rate (g_rng g)") (auto simp: bind_eq_None_conv)
  have "0 \<le> x" using S rate x(1) unfolding sampler_ok_def by (metis fst_conv)
  then have "size \<noteq> 0" using size_of_draw_pos[OF f _ x(2)] by blast
  then have "min size (gc_max_qty (g_cfg g)) \<noteq> 0" using cfg by (simp add: min_def config_ok_def)
  moreover have "draw_quantity S g = Some (min size (gc_max_qty (g_cfg g)), g\<lparr>g_rng := r1\<rparr>)"
    using x rate by (simp add: draw_quantity_def Let_def)
  ultimately show thesis using that by simp
qed

lemma offset_price_ok:
  assumes tick: "0 < i64_val (gc_tick (g_cfg g))" "gc_tick (g_cfg g) \<le> g_mid g" and "0 \<le> offset"
    and bound: "i64_val (g_mid g) + offset * i64_val (gc_tick (g_cfg g)) < 2 ^ 63"
  obtains price where "offset_price higher offset g = Some price" "gc_tick (g_cfg g) \<le> price"
proof -
  let ?t = "gc_tick (g_cfg g)"
  have pos: "0 \<le> offset * i64_val ?t" "0 < i64_val (g_mid g)"
    using tick assms(3) by (simp_all add: less_eq_i64_def)
  obtain d where d: "i64_exact (offset * i64_val ?t) = Some d" "i64_val d = offset * i64_val ?t"
    by (rule i64_exactI[of "offset * i64_val ?t"]) (use pos bound in simp_all)
  obtain x where x: "i64_exact (if higher then i64_val (g_mid g) + i64_val d
      else i64_val (g_mid g) - i64_val d) = Some x"
    by (rule i64_exactI[of "if higher then i64_val (g_mid g) + i64_val d
      else i64_val (g_mid g) - i64_val d"]) (use pos bound d in \<open>simp_all split: if_splits\<close>)
  show thesis
    by (rule that[of "if x < ?t then ?t else x"]) (use d x in \<open>auto simp: offset_price_def Let_def\<close>)
qed

text \<open>A generator that is \<open>k\<close> commands into its stream.\<close>

definition gen_ok :: "gen_config \<Rightarrow> nat \<Rightarrow> 'r generator \<Rightarrow> bool" where
  "gen_ok cfg k g \<longleftrightarrow>
     g_cfg g = cfg \<and> gc_tick cfg \<le> g_mid g \<and>
     i64_val (g_mid g) \<le> i64_val (gc_initial_mid cfg) + int k * i64_val (gc_tick cfg) \<and>
     length (g_live_ids g) \<le> k"

definition room_for :: "gen_config \<Rightarrow> nat \<Rightarrow> bool" where
  "room_for cfg n \<longleftrightarrow>
     i64_val (gc_initial_mid cfg) + (int n + gc_depth_levels cfg) * i64_val (gc_tick cfg) < 2 ^ 63"

lemma ucast_trader:
  assumes "t \<le> (ucast (m - 1) :: 64 word)" "m \<noteq> (0 :: 32 word)"
  shows "(ucast t :: 32 word) < m"
proof -
  have "unat (ucast (m - 1) :: 64 word) = unat (m - 1)"
    using unsigned_less[of "m - 1", where ?'a = nat] by (simp add: unsigned_ucast_eq take_bit_nat_eq_self)
  then have "unat t \<le> unat (m - 1)" using assms(1) by (simp add: word_le_nat_alt)
  moreover have "unat (m - 1) = unat m - 1" using assms(2) by (simp add: unat_minus_one)
  moreover have "0 < unat m" using assms(2) by (simp add: unat_gt_0)
  ultimately have "unat t < unat m" by linarith
  then show ?thesis
    using unsigned_less[of m, where ?'a = nat]
    by (simp add: word_less_nat_alt unsigned_ucast_eq take_bit_nat_eq_self)
qed

lemma gen_submit_head_ok:
  assumes S: "sampler_ok S" and cfg: "config_ok cfg" and g: "gen_ok cfg k g" and room: "room_for cfg (Suc k)"
  obtains sd trader r mid where "gen_submit_head S g = Some (sd, trader, g\<lparr>g_rng := r, g_mid := mid\<rparr>)"
    "trader < gc_num_traders cfg" "gc_tick cfg \<le> mid"
    "i64_val mid \<le> i64_val (g_mid g) + i64_val (gc_tick cfg)"
proof -
  let ?t = "i64_val (gc_tick cfg)"
  have cfg': "0 < ?t" "0 \<le> gc_depth_levels cfg * ?t" "gc_num_traders cfg \<noteq> 0" "gc_mid_move_prob cfg \<in> {0..1}"
    using cfg by (simp_all add: config_ok_def depth_drawable_def)
  have g': "g_cfg g = cfg" "gc_tick cfg \<le> g_mid g"
    "i64_val (g_mid g) \<le> i64_val (gc_initial_mid cfg) + int k * ?t"
    using g by (simp_all add: gen_ok_def)
  have "i64_val (g_mid g) + ?t + gc_depth_levels cfg * ?t < 2 ^ 63"
    using room g'(3) by (simp add: room_for_def algebra_simps)
  then have "i64_val (g_mid g) + ?t < 2 ^ 63" using cfg'(2) by linarith
  then obtain r mid where w: "random_walk_mid S g = Some (g\<lparr>g_rng := r, g_mid := mid\<rparr>)"
    "gc_tick cfg \<le> mid" "i64_val mid \<le> i64_val (g_mid g) + ?t"
    using random_walk_mid_ok[of g S] cfg'(1,4) g'(1,2) by metis
  obtain buy r1 where b: "flip S (1 / 2) r = Some (buy, r1)" by (rule flipE[of "1 / 2"]) simp
  obtain trader r2 where t: "draw_uniform S 0 (ucast (gc_num_traders cfg - 1)) r1 = (trader, r2)" by fastforce
  have "trader \<le> ucast (gc_num_traders cfg - 1)"
    using S t unfolding sampler_ok_def by (metis fst_conv word_zero_le)
  then have trader: "ucast trader < gc_num_traders cfg" using cfg'(3) by (rule ucast_trader)
  have "gen_submit_head S g =
      Some (if buy then Buy else Sell, ucast trader, g\<lparr>g_rng := r2, g_mid := mid\<rparr>)"
    using w(1) b t g'(1) by (simp add: gen_submit_head_def Let_def)
  then show thesis using that trader w(2,3) by blast
qed

lemma gen_make_submit_ok:
  assumes S: "sampler_ok S" and cfg: "config_ok cfg" and g: "gen_ok cfg k g" and room: "room_for cfg (Suc k)"
    and fits: "\<And>sd trader g2. gen_submit_head S g = Some (sd, trader, g2) \<Longrightarrow>
      Option.bind (fst (draw_exponential S (round_double S (1 / gc_mean_qty (g_cfg g2))) (g_rng g2)))
        (size_of_draw S) \<noteq> None"
  obtains c g' where "gen_make_submit S g = Some (c, g')" "gen_ok cfg (Suc k) g'"
    "c_type c = Submit" "submit_in_range cfg c" "c_id c = g_next_id g"
    "g_next_id g' = g_next_id g + 1" "g_live_ids g' = g_live_ids g @ [g_next_id g]"
proof -
  let ?t = "i64_val (gc_tick cfg)"
  have cfg': "0 < ?t" "0 \<le> gc_depth_levels cfg" "depth_drawable (gc_depth_levels cfg)"
    "gc_marketable_prob cfg \<in> {0..1}"
    using cfg by (simp_all add: config_ok_def depth_drawable_def)
  have g': "g_cfg g = cfg" "length (g_live_ids g) \<le> k"
    "i64_val (g_mid g) \<le> i64_val (gc_initial_mid cfg) + int k * ?t"
    using g by (simp_all add: gen_ok_def)
  have bound: "i64_val (g_mid g) + ?t + gc_depth_levels cfg * ?t < 2 ^ 63"
    using room g'(3) by (simp add: room_for_def algebra_simps)
  obtain sd trader r mid where h: "gen_submit_head S g = Some (sd, trader, g\<lparr>g_rng := r, g_mid := mid\<rparr>)"
    "trader < gc_num_traders cfg" "gc_tick cfg \<le> mid" "i64_val mid \<le> i64_val (g_mid g) + ?t"
    by (rule gen_submit_head_ok[OF S cfg g room])
  obtain r3 qty where q: "draw_quantity S (g\<lparr>g_rng := r, g_mid := mid\<rparr>) = Some (qty, g\<lparr>g_mid := mid, g_rng := r3\<rparr>)"
    "qty \<noteq> 0" "qty \<le> gc_max_qty cfg"
    by (rule draw_quantity_ok[OF S _ fits[OF h(1)]]) (use cfg g'(1) in auto)
  obtain drawn r4 where d: "draw_offset S (gc_depth_levels cfg) r3 = (drawn, r4)" by fastforce
  obtain marketable r5 where m: "flip S (gc_marketable_prob cfg) r4 = Some (marketable, r5)"
    by (rule flipE[OF cfg'(4)])
  let ?off = "min drawn (gc_depth_levels cfg)"
  let ?hi = "if marketable then sd = Buy else sd \<noteq> Buy"
  have drawn: "0 \<le> drawn" using S d cfg'(3) unfolding sampler_ok_def by (metis fst_conv)
  have off: "0 \<le> ?off" "?off * ?t \<le> gc_depth_levels cfg * ?t" using drawn cfg' by simp_all
  have room': "i64_val mid + ?off * ?t < 2 ^ 63" using off(2) h(4) bound by linarith
  obtain price where p: "offset_price ?hi ?off (g\<lparr>g_mid := mid, g_rng := r4\<rparr>) = Some price"
    "gc_tick cfg \<le> price"
    using offset_price_ok[of "g\<lparr>g_mid := mid, g_rng := r4\<rparr>" ?off ?hi] cfg'(1) g'(1) h(3) off(1) room' by auto
  show thesis
  proof (rule that)
    show "gen_make_submit S g = Some (make_submit (g_next_id g) trader sd price qty,
        g\<lparr>g_mid := mid, g_rng := r5, g_next_id := g_next_id g + 1,
          g_live_ids := g_live_ids g @ [g_next_id g]\<rparr>)"
      using h(1) q(1) d m p(1) g'(1) cfg'(3)
      by (simp add: gen_make_submit_def draw_ticks_def Let_def)
    show "gen_ok cfg (Suc k) (g\<lparr>g_mid := mid, g_rng := r5, g_next_id := g_next_id g + 1,
          g_live_ids := g_live_ids g @ [g_next_id g]\<rparr>)"
      using g' h by (simp add: gen_ok_def algebra_simps)
  qed (use h(2) q p in \<open>simp_all add: command_defs submit_in_range_def\<close>)
qed

lemma swap_and_pop:
  assumes "i < length xs"
  shows "mset (butlast (xs[i := xs ! (length xs - 1)])) = mset xs - {#xs ! i#}"
proof -
  let ?x = "xs ! (length xs - 1)"
  let ?ys = "xs[i := ?x]"
  have ne: "?ys \<noteq> []" using assms by auto
  have "last ?ys = ?x"
    unfolding last_conv_nth[OF ne] using assms by (cases "i = length xs - 1") simp_all
  moreover have "mset ?ys = add_mset ?x (mset xs - {#xs ! i#})" using assms by (simp add: mset_update)
  moreover have "mset ?ys = add_mset (last ?ys) (mset (butlast ?ys))"
    by (metis append_butlast_last_id ne mset_append mset.simps(2) mset_single_iff_right add_mset_add_single mset.simps(1))
  ultimately show ?thesis by simp
qed

lemma gen_make_cancel_ok:
  assumes S: "sampler_ok S" and cfg: "config_ok cfg" and g: "gen_ok cfg k g"
    and "g_live_ids g \<noteq> []" "k < 2 ^ 64"
  obtains oid g' where "gen_make_cancel S g = Some (make_cancel oid, g')" "gen_ok cfg (Suc k) g'"
    "oid \<in> set (g_live_ids g)" "mset (g_live_ids g') = mset (g_live_ids g) - {#oid#}"
    "g_next_id g' = g_next_id g"
proof -
  let ?L = "g_live_ids g"
  have len: "0 < length ?L" "length ?L \<le> k" using assms(4) g by (simp_all add: gen_ok_def)
  obtain idx r where i: "draw_uniform S 0 (of_nat (length ?L) - 1) (g_rng g) = (idx, r)" by fastforce
  have "idx \<le> of_nat (length ?L) - 1" using S i unfolding sampler_ok_def by (metis fst_conv word_zero_le)
  then have le: "unat idx \<le> unat (of_nat (length ?L) - 1 :: 64 word)" by (simp add: word_le_nat_alt)
  have "unat (of_nat (length ?L) :: 64 word) = length ?L" using len assms(5) by (simp add: unat_of_nat)
  then have "unat (of_nat (length ?L) - 1 :: 64 word) = length ?L - 1"
    using len(1) by (metis unat_minus_one unat_0 less_irrefl)
  then have idx: "unat idx < length ?L" using le len(1) by linarith
  let ?g = "g\<lparr>g_rng := r, g_live_ids := butlast (?L[unat idx := ?L ! (length ?L - 1)])\<rparr>"
  have "gen_make_cancel S g = Some (make_cancel (?L ! unat idx), ?g)"
    using i idx len(1) by (simp add: gen_make_cancel_def)
  moreover have "gen_ok cfg (Suc k) ?g"
    using g len cfg unfolding gen_ok_def config_ok_def by (auto simp: algebra_simps)
  ultimately show thesis using that idx swap_and_pop[OF idx] by simp
qed

section \<open>The stream\<close>

definition submitted :: "command list \<Rightarrow> order_id list" where
  "submitted cs = map c_id (filter (\<lambda>c. c_type c = Submit) cs)"

definition cancelled :: "command list \<Rightarrow> order_id list" where
  "cancelled cs = map c_id (filter (\<lambda>c. c_type c = Cancel) cs)"

lemma submitted_simps [simp]:
  "submitted [] = []" "submitted (cs @ cs') = submitted cs @ submitted cs'"
  "submitted (c # cs) = (if c_type c = Submit then c_id c # submitted cs else submitted cs)"
  by (simp_all add: submitted_def)

lemma cancelled_simps [simp]:
  "cancelled [] = []" "cancelled (cs @ cs') = cancelled cs @ cancelled cs'"
  "cancelled (c # cs) = (if c_type c = Cancel then c_id c # cancelled cs else cancelled cs)"
  by (simp_all add: cancelled_def)

text \<open>Every cancellation is of an id that was submitted and not cancelled before.\<close>

definition cancels_ok :: "command list \<Rightarrow> bool" where
  "cancels_ok cs \<longleftrightarrow>
     (\<forall>i < length cs. c_type (cs ! i) = Cancel \<longrightarrow>
        c_id (cs ! i) \<in> set (submitted (take i cs)) - set (cancelled (take i cs)))"

lemma cancels_ok_snoc:
  "cancels_ok (cs @ [c]) \<longleftrightarrow>
     cancels_ok cs \<and> (c_type c = Cancel \<longrightarrow> c_id c \<in> set (submitted cs) - set (cancelled cs))"
  by (auto simp: cancels_ok_def nth_append less_Suc_eq split: if_splits)

definition stream_ok :: "gen_config \<Rightarrow> command list \<Rightarrow> 'r generator \<Rightarrow> bool" where
  "stream_ok cfg cs g \<longleftrightarrow>
     gen_ok cfg (length cs) g \<and>
     (\<forall>c \<in> set cs. c_type c = Cancel \<or> c_type c = Submit \<and> submit_in_range cfg c) \<and>
     submitted cs = map of_nat [1..<Suc (length (submitted cs))] \<and>
     g_next_id g = of_nat (Suc (length (submitted cs))) \<and>
     mset (g_live_ids g) + mset (cancelled cs) = mset (submitted cs) \<and> cancels_ok cs"

lemma gen_stream_snoc:
  "gen_stream S (Suc n) g =
     do {
       (cs, g1) \<leftarrow> gen_stream S n g;
       (c, g2) \<leftarrow> gen_next S g1;
       Some (cs @ [c], g2)
     }"
proof (induction n arbitrary: g)
  case 0
  show ?case by (cases "gen_next S g") (simp_all add: split_def)
next
  case (Suc n)
  show ?case
    by (subst gen_stream.simps(2), subst Suc.IH)
      (cases "gen_next S g"; simp add: split_def Option.bind_assoc)
qed

lemma distinct_ids: "n < 2 ^ 64 \<Longrightarrow> distinct (map of_nat [1..<Suc n] :: 64 word list)"
proof -
  assume n: "n < 2 ^ 64"
  have "inj_on (of_nat :: nat \<Rightarrow> 64 word) {1..n}"
  proof (rule inj_onI)
    fix i j assume "i \<in> {1..n}" "j \<in> {1..n}" "(of_nat i :: 64 word) = of_nat j"
    then have "unat (of_nat i :: 64 word) = unat (of_nat j :: 64 word)" "i < 2 ^ 64" "j < 2 ^ 64"
      using n by simp_all
    then show "i = j" by (simp add: unat_of_nat)
  qed
  then show ?thesis by (simp add: distinct_map atLeastLessThanSuc_atLeastAtMost del: upt_Suc)
qed

lemma gen_next_ok:
  assumes S: "sampler_ok S" and cfg: "config_ok cfg" and ok: "stream_ok cfg cs g"
    and room: "room_for cfg (Suc (length cs))" and few: "length cs < 2 ^ 64" and fits: "\<not> size_overflows S g"
  obtains c g' where "gen_next S g = Some (c, g')" "stream_ok cfg (cs @ [c]) g'"
proof -
  note goal = that and d = ok[unfolded stream_ok_def]
  have cancel: "gc_cancel_ratio (g_cfg g) \<in> {0..1}" using d cfg by (simp add: gen_ok_def config_ok_def)
  obtain b r where b: "gen_choice S g = Some (b, g\<lparr>g_rng := r\<rparr>)" "b \<Longrightarrow> g_live_ids g \<noteq> []"
  proof (cases "g_live_ids g = []")
    case True
    then show thesis using that[of False "g_rng g"] cancel by (simp add: gen_choice_def bernoulli_def)
  next
    case False
    obtain b r where "draw_bernoulli S (gc_cancel_ratio (g_cfg g)) (g_rng g) = (b, r)" by fastforce
    then show thesis using that[of b r] False cancel by (simp add: gen_choice_def bernoulli_def)
  qed
  show thesis
  proof (cases b)
    case False
    have here: "gen_ok cfg (length cs) (g\<lparr>g_rng := r\<rparr>)" using d by (simp add: gen_ok_def)
    have "Option.bind (fst (draw_exponential S (round_double S (1 / gc_mean_qty (g_cfg g2))) (g_rng g2)))
        (size_of_draw S) \<noteq> None" if "gen_submit_head S (g\<lparr>g_rng := r\<rparr>) = Some (sd, trader, g2)" for sd trader g2
      using fits b(1) False that by (simp add: size_overflows_def)
    then obtain c g' where c: "gen_make_submit S (g\<lparr>g_rng := r\<rparr>) = Some (c, g')"
      "gen_ok cfg (Suc (length cs)) g'" "c_type c = Submit" "submit_in_range cfg c"
      "c_id c = g_next_id g" "g_next_id g' = g_next_id g + 1" "g_live_ids g' = g_live_ids g @ [g_next_id g]"
      by (rule gen_make_submit_ok[OF S cfg here room]) simp_all
    have "stream_ok cfg (cs @ [c]) g'" using d c by (simp add: stream_ok_def cancels_ok_snoc)
    then show thesis by (rule goal[rotated]) (simp add: gen_next_def b(1) False c(1))
  next
    case True
      have "gen_ok cfg (length cs) (g\<lparr>g_rng := r\<rparr>)" using d by (simp add: gen_ok_def)
      then obtain oid g' where c: "gen_make_cancel S (g\<lparr>g_rng := r\<rparr>) = Some (make_cancel oid, g')"
        "gen_ok cfg (Suc (length cs)) g'" "oid \<in> set (g_live_ids g)"
        "mset (g_live_ids g') = mset (g_live_ids g) - {#oid#}" "g_next_id g' = g_next_id g"
        by (rule gen_make_cancel_ok[OF S cfg _ _ few]) (use b(2) True in simp_all)
      have "length (submitted cs) < 2 ^ 64"
        using few by (simp add: submitted_def) (meson le_less_trans length_filter_le)
      then have "distinct (submitted cs)" using d distinct_ids by metis
      then have once: "count (mset (submitted cs)) oid \<le> 1"
        by (simp add: distinct_count_atmost_1)
      have "0 < count (mset (g_live_ids g)) oid" using c(3) by (simp add: count_greater_zero_iff)
      moreover have "count (mset (submitted cs)) oid =
          count (mset (g_live_ids g)) oid + count (mset (cancelled cs)) oid"
        using d by (metis count_union)
      ultimately have "0 < count (mset (submitted cs)) oid" "count (mset (cancelled cs)) oid = 0"
        using once by linarith+
      then have "oid \<in> set (submitted cs)" "oid \<notin> set (cancelled cs)"
        by (simp_all add: count_eq_zero_iff count_greater_zero_iff)
      then have "stream_ok cfg (cs @ [make_cancel oid]) g'"
        using d c by (auto simp: stream_ok_def cancels_ok_snoc command_defs)
      then show thesis using that c(1) b(1) True by (simp add: gen_next_def)
  qed
qed

lemma room_for_less: "config_ok cfg \<Longrightarrow> room_for cfg n \<Longrightarrow> m \<le> n \<Longrightarrow> room_for cfg m"
proof -
  assume cfg: "config_ok cfg" and room: "room_for cfg n" and le: "m \<le> n"
  have "(int m + gc_depth_levels cfg) * i64_val (gc_tick cfg) \<le>
      (int n + gc_depth_levels cfg) * i64_val (gc_tick cfg)"
    using cfg le by (intro mult_right_mono) (simp_all add: config_ok_def depth_drawable_def)
  then show ?thesis using room by (simp add: room_for_def)
qed

lemma sizes_fit_Suc:
  "sizes_fit S cfg seeded (Suc n) \<longleftrightarrow>
     sizes_fit S cfg seeded n \<and>
     (case gen_stream S n (gen_new cfg seeded) of None \<Rightarrow> True | Some (cs, g) \<Rightarrow> \<not> size_overflows S g)"
  by (auto simp: sizes_fit_def less_Suc_eq)

lemma gen_stream_ok:
  assumes S: "sampler_ok S" and cfg: "config_ok cfg" and "room_for cfg n" "n < 2 ^ 64"
    and "sizes_fit S cfg seeded n"
  obtains cs g where "gen_stream S n (gen_new cfg seeded) = Some (cs, g)" "stream_ok cfg cs g"
    "length cs = n"
  using assms(3-5)
proof (induction n arbitrary: thesis)
  case 0
  have "stream_ok cfg [] (gen_new cfg seeded)"
    using cfg by (simp add: stream_ok_def gen_ok_def gen_new_def config_ok_def less_eq_i64_def cancels_ok_def)
  then show ?case using 0 by simp
next
  case (Suc n)
  have room: "room_for cfg n" by (rule room_for_less[OF cfg Suc.prems(2)]) simp
  have few: "n < 2 ^ 64" using Suc.prems(3) by simp
  have fits: "sizes_fit S cfg seeded n" using Suc.prems(4) by (simp add: sizes_fit_Suc)
  obtain cs g where cs: "gen_stream S n (gen_new cfg seeded) = Some (cs, g)" "stream_ok cfg cs g"
    "length cs = n"
    by (rule Suc.IH[OF _ room few fits])
  have "\<not> size_overflows S g" using Suc.prems(4) cs(1) by (simp add: sizes_fit_Suc)
  then obtain c g' where c: "gen_next S g = Some (c, g')" "stream_ok cfg (cs @ [c]) g'"
    by (rule gen_next_ok[OF S cfg cs(2), rotated 2]) (use cs(3) Suc.prems(2) few in simp_all)
  have "gen_stream S (Suc n) (gen_new cfg seeded) = Some (cs @ [c], g')"
    using cs(1) c(1) by (simp add: gen_stream_snoc del: gen_stream.simps)
  then show ?case using Suc.prems(1) c(2) cs(3) by simp
qed

text \<open>A size that is out of range ends the stream.\<close>

lemma size_overflowsE:
  assumes "size_overflows S g"
  obtains g1 sd trader g2 where "gen_choice S g = Some (False, g1)"
    "gen_submit_head S g1 = Some (sd, trader, g2)"
    "Option.bind (fst (draw_exponential S (round_double S (1 / gc_mean_qty (g_cfg g2))) (g_rng g2)))
      (size_of_draw S) = None"
proof (cases "gen_choice S g")
  case None
  then show thesis using assms by (simp add: size_overflows_def)
next
  case (Some c)
  obtain b g1 where c: "c = (b, g1)" by fastforce
  have b: "\<not> b" using assms Some by (cases b) (simp_all add: size_overflows_def c)
  show thesis
  proof (cases "gen_submit_head S g1")
    case None
    then show thesis using assms Some b by (simp add: size_overflows_def c)
  next
    case (Some h)
    then show thesis
      using that assms \<open>gen_choice S g = Some c\<close> b by (cases h) (simp add: size_overflows_def c)
  qed
qed

lemma size_overflows_next: "size_overflows S g \<Longrightarrow> gen_next S g = None"
proof (erule size_overflowsE)
  fix g1 sd trader g2
  assume g: "gen_choice S g = Some (False, g1)" "gen_submit_head S g1 = Some (sd, trader, g2)"
    "Option.bind (fst (draw_exponential S (round_double S (1 / gc_mean_qty (g_cfg g2))) (g_rng g2)))
      (size_of_draw S) = None"
  have "draw_quantity S g2 = None"
    using g(3) by (cases "fst (draw_exponential S (round_double S (1 / gc_mean_qty (g_cfg g2))) (g_rng g2))")
      (simp_all add: draw_quantity_def Let_def split_def)
  then show ?thesis using g(1,2) by (simp add: gen_next_def gen_make_submit_def)
qed

lemma gen_stream_stuck: "gen_stream S k g = None \<Longrightarrow> k \<le> n \<Longrightarrow> gen_stream S n g = None"
proof (induction n)
  case (Suc n)
  show ?case
  proof (cases "k = Suc n")
    case False
    then have "gen_stream S n g = None" using Suc by simp
    then show ?thesis by (simp add: gen_stream_snoc del: gen_stream.simps)
  qed (use Suc.prems in simp)
qed simp

lemma sizes_beyond:
  assumes "\<not> sizes_fit S cfg seeded n"
  shows "gen_stream S n (gen_new cfg seeded) = None"
proof -
  obtain k cs g where k: "k < n" "gen_stream S k (gen_new cfg seeded) = Some (cs, g)" "size_overflows S g"
    using assms by (auto simp: sizes_fit_def split: option.splits)
  have "gen_stream S (Suc k) (gen_new cfg seeded) = None"
    using k(2) size_overflows_next[OF k(3)] by (simp add: gen_stream_snoc del: gen_stream.simps)
  from gen_stream_stuck[OF this] show ?thesis using k(1) by (metis Suc_leI)
qed

text \<open>No operation changes the configuration.\<close>

lemma walk_config: "random_walk_mid S g = Some g' \<Longrightarrow> g_cfg g' = g_cfg g"
  by (auto simp: random_walk_mid_def Let_def bind_eq_Some_conv split: if_splits)

lemma head_config: "gen_submit_head S g = Some (sd, trader, g') \<Longrightarrow> g_cfg g' = g_cfg g"
  by (auto simp: gen_submit_head_def Let_def bind_eq_Some_conv split_def dest: walk_config)

lemma quantity_config: "draw_quantity S g = Some (qty, g') \<Longrightarrow> g_cfg g' = g_cfg g"
  by (auto simp: draw_quantity_def Let_def bind_eq_Some_conv split_def split: if_splits)

lemma ticks_config: "draw_ticks S g = Some (off, g') \<Longrightarrow> g_cfg g' = g_cfg g"
  by (auto simp: draw_ticks_def Let_def split_def split: if_splits)

lemma submitE:
  assumes "gen_make_submit S g = Some (c, g')"
  obtains sd trader g1 qty g2 off g3 where "gen_submit_head S g = Some (sd, trader, g1)"
    "draw_quantity S g1 = Some (qty, g2)" "draw_ticks S g2 = Some (off, g3)" "g_cfg g' = g_cfg g3"
proof -
  obtain sd trader g1 where h: "gen_submit_head S g = Some (sd, trader, g1)"
    using assms by (cases "gen_submit_head S g") (auto simp: gen_make_submit_def)
  obtain qty g2 where q: "draw_quantity S g1 = Some (qty, g2)"
    using assms h by (cases "draw_quantity S g1") (auto simp: gen_make_submit_def)
  obtain off g3 where d: "draw_ticks S g2 = Some (off, g3)"
    using assms h q by (cases "draw_ticks S g2") (auto simp: gen_make_submit_def)
  have "g_cfg g' = g_cfg g3"
    using assms h q d by (auto simp: gen_make_submit_def Let_def bind_eq_Some_conv)
  then show thesis using that h q d by blast
qed

lemma submit_config: "gen_make_submit S g = Some (c, g') \<Longrightarrow> g_cfg g' = g_cfg g"
  by (erule submitE) (simp add: head_config quantity_config ticks_config)

lemma cancel_config: "gen_make_cancel S g = Some (c, g') \<Longrightarrow> g_cfg g' = g_cfg g"
  by (auto simp: gen_make_cancel_def Let_def bind_eq_Some_conv split_def)

lemma choice_config: "gen_choice S g = Some (b, g') \<Longrightarrow> g_cfg g' = g_cfg g"
  by (auto simp: gen_choice_def bind_eq_Some_conv split_def Let_def split: if_splits)

lemma next_config:
  assumes "gen_next S g = Some (c, g')"
  shows "g_cfg g' = g_cfg g"
proof -
  obtain b g1 where b: "gen_choice S g = Some (b, g1)"
    using assms by (cases "gen_choice S g") (auto simp: gen_next_def)
  then have "g_cfg g' = g_cfg g1"
    using assms submit_config cancel_config by (cases b) (simp_all add: gen_next_def)
  then show ?thesis using choice_config[OF b] by simp
qed

lemma stream_config: "gen_stream S n g = Some (cs, g') \<Longrightarrow> g_cfg g' = g_cfg g"
proof (induction n arbitrary: g cs)
  case (Suc n)
  then obtain c g1 cs1 where "gen_next S g = Some (c, g1)" "gen_stream S n g1 = Some (cs1, g')"
    by (auto simp: bind_eq_Some_conv)
  then show ?case using Suc.IH next_config by metis
qed simp

text \<open>Where no draw at all is too large, the sizes fit.\<close>

lemma sizes_fitI:
  assumes "\<And>r. Option.bind (fst (draw_exponential S (round_double S (1 / gc_mean_qty cfg)) r)) (size_of_draw S) \<noteq> None"
  shows "sizes_fit S cfg seeded n"
proof -
  have "False" if g: "gen_stream S k (gen_new cfg seeded) = Some (cs, g)" and over: "size_overflows S g" for k cs g
    using over
  proof (rule size_overflowsE)
    fix g1 sd trader g2
    assume c: "gen_choice S g = Some (False, g1)" and h: "gen_submit_head S g1 = Some (sd, trader, g2)"
      and none: "Option.bind (fst (draw_exponential S (round_double S (1 / gc_mean_qty (g_cfg g2))) (g_rng g2)))
        (size_of_draw S) = None"
    have "g_cfg g2 = cfg"
      using stream_config[OF g] choice_config[OF c] head_config[OF h] by (simp add: gen_new_def)
    then show False using none assms[of "g_rng g2"] by (simp only: simp_thms)
  qed
  then show ?thesis unfolding sizes_fit_def by (auto split: option.split)
qed

text \<open>A sampler that alternates its coin and draws small numbers, with exact arithmetic.\<close>

definition sample_sampler :: "nat sampler" where
  "sample_sampler =
     \<lparr>draw_bernoulli = (\<lambda>p r. (odd r, r + 1)), draw_uniform = (\<lambda>a b r. (a, r + 1)),
      draw_offset = (\<lambda>d r. (2, r + 1)), draw_exponential = (\<lambda>l r. (Some (12 / 5), r + 1)), round_double = id\<rparr>"

definition sample_gen_config :: gen_config where
  "sample_gen_config =
     \<lparr>gc_initial_mid = I64 10000, gc_tick = I64 1, gc_depth_levels = 50, gc_marketable_prob = 1 / 4,
      gc_cancel_ratio = 1 / 5, gc_mean_qty = 20, gc_max_qty = 1000, gc_num_traders = 16,
      gc_mid_move_prob = 1 / 20\<rparr>"

lemma sample_sampler_ok: "sampler_ok sample_sampler"
  by (simp add: sampler_ok_def sample_sampler_def round_ok_def mono_def)

lemma sample_sizes_fit: "sizes_fit sample_sampler cfg seeded n"
proof (rule sizes_fitI)
  have "\<lfloor>29 / 10 :: rat\<rfloor> = 2" by (simp add: floor_eq_iff)
  then show "Option.bind (fst (draw_exponential sample_sampler
      (round_double sample_sampler (1 / gc_mean_qty cfg)) r)) (size_of_draw sample_sampler) \<noteq> None" for r
    by (simp add: sample_sampler_def size_of_draw_def double_to_u64_def round_away_def)
qed

lemma sample_gen_ok: "sampler_ok sample_sampler" "config_ok sample_gen_config" "room_for sample_gen_config 8"
proof -
  have "(20 :: rat) \<le> 2 ^ 5" "(2 :: rat) ^ 5 \<le> 2 ^ 1022" by simp (rule power_increasing; simp)
  then have "(20 :: rat) \<le> 2 ^ 1022" by linarith
  then show "config_ok sample_gen_config"
    by (simp add: config_ok_def sample_gen_config_def i64_val_def depth_drawable_def)
  show "room_for sample_gen_config 8" by (simp add: sample_gen_config_def i64_val_def room_for_def)
qed (rule sample_sampler_ok)

text \<open>A depth of one level or none has no defined order flow.\<close>

lemma shallow_submit:
  assumes "\<not> depth_drawable (gc_depth_levels (g_cfg g))"
  shows "gen_make_submit S g = None"
proof (rule ccontr)
  assume "gen_make_submit S g \<noteq> None"
  then obtain c g' where "gen_make_submit S g = Some (c, g')" by fastforce
  then show False
  proof (rule submitE)
    fix sd trader g1 qty g2 off g3
    assume h: "gen_submit_head S g = Some (sd, trader, g1)" and q: "draw_quantity S g1 = Some (qty, g2)"
      and d: "draw_ticks S g2 = Some (off, g3)"
    have "depth_drawable (gc_depth_levels (g_cfg g2))" using d by (simp add: draw_ticks_def Let_def split: if_splits)
    then show False using assms head_config[OF h] quantity_config[OF q] by simp
  qed
qed

lemma shallow_stream:
  assumes "gc_depth_levels cfg \<le> 1"
  shows "gen_stream S (Suc n) (gen_new cfg seeded) = None"
proof -
  have "gen_make_submit S (gen_new cfg seeded) = None"
    by (rule shallow_submit) (use assms in \<open>simp add: depth_drawable_def gen_new_def\<close>)
  moreover have "gen_choice S (gen_new cfg seeded) \<in> {None, Some (False, gen_new cfg seeded)}"
    by (simp add: gen_choice_def bernoulli_def gen_new_def)
  ultimately have "gen_next S (gen_new cfg seeded) = None" by (auto simp: gen_next_def)
  then show ?thesis by simp
qed

section \<open>Properties\<close>



lemma stream_ids:
  assumes "sampler_ok S" and "config_ok cfg" and "room_for cfg n" and "n < 2 ^ 64" and "sizes_fit S cfg seeded n"
    and "gen_stream S n (gen_new cfg seeded) = Some (cs, g)"
  shows "submitted cs = map of_nat [1..<Suc (length (submitted cs))]" and "distinct (submitted cs)"
    and "cancels_ok cs" and "mset (g_live_ids g) + mset (cancelled cs) = mset (submitted cs)"
proof -
  have ok: "stream_ok cfg cs g" "length cs = n"
    using gen_stream_ok[OF assms(1-5)] assms(6) by (metis option.inject prod.inject)+
  then show sub: "submitted cs = map of_nat [1..<Suc (length (submitted cs))]" and "cancels_ok cs"
    "mset (g_live_ids g) + mset (cancelled cs) = mset (submitted cs)"
    by (simp_all add: stream_ok_def)
  have "length (submitted cs) < 2 ^ 64"
    using ok(2) assms(4) by (simp add: submitted_def) (meson le_less_trans length_filter_le)
  then show "distinct (submitted cs)" using sub distinct_ids by metis
qed

text \<open>
  Ids in order: the submissions of the stream have the ids 1, 2, 3 and so on, every cancellation
  names an id that was submitted before and not cancelled since, and the ids that the generator
  still tracks are those submitted and not cancelled.
\<close>

theorem generator_ids:
  assumes "sampler_ok S" and "config_ok cfg" and "room_for cfg n" and "n < 2 ^ 64"
    and "gen_stream S n (gen_new cfg seeded) = Some (cs, g)"
  shows "submitted cs = map of_nat [1..<Suc (length (submitted cs))] \<and>
    distinct (submitted cs) \<and>
    cancels_ok cs \<and>
    mset (g_live_ids g) + mset (cancelled cs) = mset (submitted cs)"
proof -
  have "sizes_fit S cfg seeded n" using sizes_beyond assms(5) by fastforce
  from stream_ids[OF assms(1-4) this assms(5)] show ?thesis by blast
qed

theorem generator_ids_witness:
  "\<exists>cs g. gen_stream sample_sampler 8 (gen_new sample_gen_config 0) = Some (cs, g) \<and>
     submitted cs = map of_nat [1..<Suc (length (submitted cs))] \<and> cancels_ok cs"
proof -
  have few: "(8 :: nat) < 2 ^ 64" by simp
  obtain cs g where cs: "gen_stream sample_sampler 8 (gen_new sample_gen_config 0) = Some (cs, g)"
    by (rule gen_stream_ok[OF sample_gen_ok few sample_sizes_fit, of 0])
  show ?thesis using generator_ids[OF sample_gen_ok few cs] cs by blast
qed

end
