(* ===== verification/BenchOptions.thy ===== *)
theory BenchOptions
  imports Types
begin

text \<open>
  The command line of \<open>bench/benchmark.cpp\<close>: the options, the number conversions of the standard
  library that they go through, and the loop of \<open>parse\<close>.
\<close>

section \<open>Numbers\<close>

text \<open>\<open>isspace\<close> and \<open>isdigit\<close> of the C locale.\<close>

definition is_space :: "char \<Rightarrow> bool" where
  "is_space c \<longleftrightarrow> (let n = of_char c :: nat in n = 32 \<or> 9 \<le> n \<and> n \<le> 13)"

definition is_digit :: "char \<Rightarrow> bool" where
  "is_digit c \<longleftrightarrow> (let n = of_char c :: nat in 48 \<le> n \<and> n \<le> 57)"

definition digits_value :: "string \<Rightarrow> nat" where
  "digits_value ds = foldl (\<lambda>a c. 10 * a + (of_char c - 48)) 0 ds"

text \<open>
  What \<open>strtoull\<close> and \<open>strtol\<close> read: white space, a sign, and digits up to the first other character.
  The result is the sign and the magnitude, or nothing without a digit.
\<close>

definition scan_sign :: "string \<Rightarrow> bool \<times> string" where
  "scan_sign s =
     (case s of
        [] \<Rightarrow> (False, [])
      | c # cs \<Rightarrow>
          (if c = CHR ''-'' then (True, cs) else if c = CHR ''+'' then (False, cs) else (False, s)))"

definition scan_number :: "string \<Rightarrow> (bool \<times> nat) option" where
  "scan_number s =
     (let (negative, cs) = scan_sign (dropWhile is_space s); ds = takeWhile is_digit cs in
      if ds = [] then None else Some (negative, digits_value ds))"

text \<open>How \<open>parse\<close> can end: the exit with code 2, or an exception that nothing catches.\<close>

datatype parse_error = Unknown_arg string | Invalid_argument | Out_of_range

definition stoull :: "string \<Rightarrow> parse_error + 64 word" where
  "stoull s =
     (case scan_number s of
        None \<Rightarrow> Inl Invalid_argument
      | Some (negative, n) \<Rightarrow>
          (if n < 2 ^ 64 then Inr (if negative then - of_nat n else of_nat n) else Inl Out_of_range))"

definition stoi :: "string \<Rightarrow> parse_error + int" where
  "stoi s =
     (case scan_number s of
        None \<Rightarrow> Inl Invalid_argument
      | Some (negative, n) \<Rightarrow>
          (let i = (if negative then - int n else int n) in
           if - (2 ^ 31) \<le> i \<and> i < 2 ^ 31 then Inr i else Inl Out_of_range))"

section \<open>Options\<close>

record options =
  o_commands :: "64 word"
  o_depth :: int
  o_queue :: "64 word"
  o_seed :: "64 word"
  o_warmup :: "64 word"
  o_csv :: bool
  o_header :: bool

definition options_default :: options where
  "options_default =
     \<lparr>o_commands = 1000000, o_depth = 50, o_queue = push_bit 16 1, o_seed = 0x9E3779B97F4A7C15,
      o_warmup = 50000, o_csv = False, o_header = False\<rparr>"

text \<open>The lambda \<open>next\<close>: the following argument, or the empty string behind the last.\<close>

fun next_arg :: "string list \<Rightarrow> string \<times> string list" where
  "next_arg [] = ([], [])"
| "next_arg (a # as) = (a, as)"

fun bind_sum :: "'e + 'a \<Rightarrow> ('a \<Rightarrow> 'e + 'b) \<Rightarrow> 'e + 'b" where
  "bind_sum (Inl e) f = Inl e"
| "bind_sum (Inr x) f = f x"

lemma bind_sum_Inr: "bind_sum m f = Inr y \<longleftrightarrow> (\<exists>x. m = Inr x \<and> f x = Inr y)"
  by (cases m) simp_all

lemma bind_sum_cong [fundef_cong]:
  "m = m' \<Longrightarrow> (\<And>x. m' = Inr x \<Longrightarrow> f x = f' x) \<Longrightarrow> bind_sum m f = bind_sum m' f'"
  by (cases m') auto

text \<open>
  The body of the loop over \<open>argv\<close>, for an argument and those behind it: the arguments that are left
  and the options so far.
\<close>

definition parse_step :: "string \<Rightarrow> string list \<Rightarrow> options \<Rightarrow> parse_error + string list \<times> options" where
  "parse_step a as opts =
     (let (v, rest) = next_arg as in
      if a = ''--commands'' then bind_sum (stoull v) (\<lambda>n. Inr (rest, opts\<lparr>o_commands := n\<rparr>))
      else if a = ''--depth'' then bind_sum (stoi v) (\<lambda>i. Inr (rest, opts\<lparr>o_depth := i\<rparr>))
      else if a = ''--queue'' then bind_sum (stoull v) (\<lambda>n. Inr (rest, opts\<lparr>o_queue := n\<rparr>))
      else if a = ''--seed'' then bind_sum (stoull v) (\<lambda>n. Inr (rest, opts\<lparr>o_seed := n\<rparr>))
      else if a = ''--warmup'' then bind_sum (stoull v) (\<lambda>n. Inr (rest, opts\<lparr>o_warmup := n\<rparr>))
      else if a = ''--csv'' then Inr (as, opts\<lparr>o_csv := True\<rparr>)
      else if a = ''--header'' then Inr (as, opts\<lparr>o_header := True\<rparr>)
      else Inl (Unknown_arg a))"

lemma parse_step_shorter: "parse_step a as opts = Inr (as', opts') \<Longrightarrow> length as' \<le> length as"
  by (cases as) (auto simp: parse_step_def bind_sum_Inr split: if_splits)

text \<open>The loop, from behind the name of the program.\<close>

function parse_args :: "string list \<Rightarrow> options \<Rightarrow> parse_error + options" where
  "parse_args [] opts = Inr opts"
| "parse_args (a # as) opts =
     bind_sum (parse_step a as opts) (\<lambda>(as', opts'). parse_args as' opts')"
  by pat_completeness auto
termination
  by (relation "measure (length \<circ> fst)") (auto dest: parse_step_shorter)

definition parse_options :: "string list \<Rightarrow> parse_error + options" where
  "parse_options argv = parse_args argv options_default"

section \<open>Printing numbers\<close>

text \<open>\<open>operator<<\<close> of an integer.\<close>

fun decimal_nat :: "nat \<Rightarrow> string" where
  "decimal_nat n =
     (if n < 10 then [char_of (48 + n)] else decimal_nat (n div 10) @ [char_of (48 + n mod 10)])"

declare decimal_nat.simps [simp del]

definition decimal_int :: "int \<Rightarrow> string" where
  "decimal_int i = (if i < 0 then CHR ''-'' # decimal_nat (nat (- i)) else decimal_nat (nat i))"

lemma digit_char:
  assumes "d < 10"
  shows "is_digit (char_of (48 + d))" "of_char (char_of (48 + d) :: char) = (48 + d :: nat)"
proof -
  show code: "of_char (char_of (48 + d) :: char) = (48 + d :: nat)"
    using assms by (simp add: of_char_of)
  show "is_digit (char_of (48 + d))" using assms unfolding is_digit_def Let_def code by simp
qed

lemma digits_snoc: "digits_value (ds @ [c]) = 10 * digits_value ds + (of_char c - 48)"
  by (simp add: digits_value_def)

lemma decimal_nat_ok:
  "decimal_nat n \<noteq> [] \<and> (\<forall>c \<in> set (decimal_nat n). is_digit c) \<and> digits_value (decimal_nat n) = n"
proof (induction n rule: decimal_nat.induct)
  case (1 n)
  show ?case
  proof (cases "n < 10")
    case True
    then show ?thesis
      using digit_char[OF True] by (simp add: decimal_nat.simps digits_value_def)
  next
    case False
    have "n mod 10 < 10" by simp
    note d = digit_char[OF this]
    have "10 * (n div 10) + n mod 10 = n" by simp
    then show ?thesis
      using 1[OF False] d False by (simp add: decimal_nat.simps[of n] digits_snoc)
  qed
qed

lemma digit_not_space: "is_digit c \<Longrightarrow> \<not> is_space c"
  by (auto simp: is_digit_def is_space_def Let_def)

lemma digit_not_sign: "is_digit c \<Longrightarrow> c \<noteq> CHR ''-'' \<and> c \<noteq> CHR ''+''"
  by (auto simp: is_digit_def Let_def)

lemma takeWhile_digits [simp]: "takeWhile is_digit (decimal_nat n) = decimal_nat n"
  using decimal_nat_ok[of n] by (simp add: takeWhile_eq_all_conv)

lemma scan_decimal_nat: "scan_number (decimal_nat n) = Some (False, n)"
proof -
  note d = decimal_nat_ok[of n]
  obtain c cs where c: "decimal_nat n = c # cs" using d by (cases "decimal_nat n") auto
  then have "dropWhile is_space (decimal_nat n) = decimal_nat n" using d digit_not_space by simp
  moreover have "scan_sign (decimal_nat n) = (False, decimal_nat n)"
    using d digit_not_sign[of c] c by (simp add: scan_sign_def)
  ultimately show ?thesis using d by (simp add: scan_number_def Let_def)
qed

lemma scan_decimal_negative: "scan_number (CHR ''-'' # decimal_nat n) = Some (True, n)"
proof -
  note d = decimal_nat_ok[of n]
  have "\<not> is_space CHR ''-''" by (simp add: is_space_def)
  then show ?thesis using d by (simp add: scan_number_def scan_sign_def Let_def)
qed

lemma stoull_decimal [simp]: "stoull (decimal_nat (unat w)) = Inr w"
  using unsigned_less[of w, where ?'a = nat] by (simp add: stoull_def scan_decimal_nat)

lemma stoi_decimal [simp]:
  assumes "- (2 ^ 31) \<le> i" "i < 2 ^ 31"
  shows "stoi (decimal_int i) = Inr i"
  using assms by (auto simp: stoi_def decimal_int_def scan_decimal_nat scan_decimal_negative)

section \<open>What parse accepts\<close>

lemma scan_empty [simp]: "scan_number [] = None"
  by (simp add: scan_number_def scan_sign_def)

lemma no_number_in_empty [simp]: "stoull [] = Inl Invalid_argument" "stoi [] = Inl Invalid_argument"
  by (simp_all add: stoull_def stoi_def)

lemma parse_step_append:
  "parse_step a as opts = Inr (as', opts') \<Longrightarrow> parse_step a (as @ bs) opts = Inr (as' @ bs, opts')"
  by (cases as) (auto simp: parse_step_def bind_sum_Inr split: if_splits)

lemma parse_args_append:
  "parse_args as opts = Inr opts' \<Longrightarrow> parse_args (as @ bs) opts = parse_args bs opts'"
proof (induction as opts rule: parse_args.induct)
  case (2 a as opts)
  then obtain as1 opts1 where "parse_step a as opts = Inr (as1, opts1)" "parse_args as1 opts1 = Inr opts'"
    by (auto simp: bind_sum_Inr)
  then show ?case using "2.IH"[OF _ refl] parse_step_append[of a as opts as1 opts1 bs] by simp
qed simp

definition value_options :: "string list" where
  "value_options = [''--commands'', ''--depth'', ''--queue'', ''--seed'', ''--warmup'']"

definition flag_options :: "string list" where
  "flag_options = [''--csv'', ''--header'']"

lemma parse_unknown:
  "a \<notin> set (value_options @ flag_options) \<Longrightarrow> parse_args (a # as) opts = Inl (Unknown_arg a)"
  by (simp add: value_options_def flag_options_def parse_step_def split_def)

lemma parse_missing: "a \<in> set value_options \<Longrightarrow> parse_args [a] opts = Inl Invalid_argument"
  by (auto simp: value_options_def parse_step_def)

lemma parse_no_number:
  "a \<in> set value_options \<Longrightarrow> scan_number v = None \<Longrightarrow> parse_args (a # v # as) opts = Inl Invalid_argument"
  by (auto simp: value_options_def parse_step_def stoull_def stoi_def)

text \<open>The arguments that set every option.\<close>

definition options_args :: "options \<Rightarrow> string list" where
  "options_args opts =
     [''--commands'', decimal_nat (unat (o_commands opts)), ''--depth'', decimal_int (o_depth opts),
      ''--queue'', decimal_nat (unat (o_queue opts)), ''--seed'', decimal_nat (unat (o_seed opts)),
      ''--warmup'', decimal_nat (unat (o_warmup opts))] @
     (if o_csv opts then [''--csv''] else []) @ (if o_header opts then [''--header''] else [])"

lemma parse_options_args:
  assumes "- (2 ^ 31) \<le> o_depth opt" "o_depth opt < 2 ^ 31"
  shows "parse_options (options_args opt) = Inr opt"
  using assms by (cases opt) (simp add: parse_options_def options_args_def options_default_def parse_step_def)

lemma stoi_range: "stoi s = Inr i \<Longrightarrow> - (2 ^ 31) \<le> i \<and> i < 2 ^ 31"
  by (auto simp: stoi_def Let_def split: option.splits if_splits)

lemma parse_step_depth:
  "parse_step a as opts = Inr (as', opts') \<Longrightarrow> - (2 ^ 31) \<le> o_depth opts \<and> o_depth opts < 2 ^ 31 \<Longrightarrow>
   - (2 ^ 31) \<le> o_depth opts' \<and> o_depth opts' < 2 ^ 31"
  by (cases as) (auto simp: parse_step_def bind_sum_Inr dest: stoi_range split: if_splits)

lemma parse_args_depth:
  "parse_args as opts = Inr opts' \<Longrightarrow> - (2 ^ 31) \<le> o_depth opts \<and> o_depth opts < 2 ^ 31 \<Longrightarrow>
   - (2 ^ 31) \<le> o_depth opts' \<and> o_depth opts' < 2 ^ 31"
proof (induction as opts rule: parse_args.induct)
  case (2 a as opts)
  then obtain as1 opts1 where s: "parse_step a as opts = Inr (as1, opts1)"
    "parse_args as1 opts1 = Inr opts'"
    by (auto simp: bind_sum_Inr)
  show ?case using "2.IH"[OF s(1) refl s(2) parse_step_depth[OF s(1) "2.prems"(2)]] .
qed simp

lemma default_depth: "o_depth options_default = 50"
  by (simp add: options_default_def)

lemma parse_options_depth:
  "parse_options argv = Inr opts \<Longrightarrow> - (2 ^ 31) \<le> o_depth opts \<and> o_depth opts < 2 ^ 31"
  using parse_args_depth[of argv options_default opts] by (simp add: parse_options_def default_depth)

section \<open>Properties\<close>

text \<open>
  Every setting has a command line: the arguments that name each option with its value in
  decimal parse to exactly these options, and they are so for the options of any command line that
  is accepted.
\<close>

theorem options_round_trip:
  assumes "- (2 ^ 31) \<le> o_depth opts \<and> o_depth opts < 2 ^ 31 \<or> parse_options argv = Inr opts"
  shows "parse_options (options_args opts) = Inr opts"
  using parse_options_args parse_options_depth assms by blast

theorem options_round_trip_witness:
  "parse_options (options_args (options_default\<lparr>o_depth := - 3, o_csv := True\<rparr>)) =
     Inr (options_default\<lparr>o_depth := - 3, o_csv := True\<rparr>)"
  by (rule options_round_trip) (simp add: options_default_def)

text \<open>
  C40: Wrong command lines are refused where the first mistake is: behind arguments that are accepted,
  an unknown one ends the program with its name and the code 2, and an option whose value is missing
  at the end, or has no digits, ends it with an uncaught \<open>invalid_argument\<close>.
\<close>

theorem options_rejected:
  assumes "parse_args as options_default = Inr opts"
  shows "(a \<notin> set (value_options @ flag_options) \<longrightarrow>
      parse_options (as @ a # bs) = Inl (Unknown_arg a)) \<and>
    (a \<in> set value_options \<longrightarrow> parse_options (as @ [a]) = Inl Invalid_argument) \<and>
    (a \<in> set value_options \<and> scan_number v = None \<longrightarrow>
      parse_options (as @ a # v # bs) = Inl Invalid_argument)"
  unfolding parse_options_def parse_args_append[OF assms]
  using parse_unknown parse_missing parse_no_number by blast

theorem options_rejected_witness:
  "parse_options [''--csv'', ''--seed''] = Inl Invalid_argument"
proof -
  have "parse_args [''--csv''] options_default = Inr (options_default\<lparr>o_csv := True\<rparr>)"
    by (simp add: parse_step_def split_def)
  from options_rejected[OF this, of "''--seed''"] show ?thesis by (simp add: value_options_def)
qed

end
