(* ===== verification/Benchmark.thy ===== *)
theory Benchmark
  imports Complex_Main PipelineFair OrderGenerator BenchOptions
begin

text \<open>
  The two measurements of \<open>bench/benchmark.cpp\<close>, and its \<open>main\<close>.

  What the machine and the standard library decide is a \<open>platform\<close>: the byte order, the random
  distributions and the seeding of their engine, the rounding of \<open>double\<close> arithmetic, the order in
  which \<open>std::nth_element\<close> leaves a vector, the clock, and the printing of a \<open>double\<close>.  A \<open>double\<close> is
  the rational number it stands for.
\<close>

section \<open>The platform\<close>

record 'r platform =
  pf_byte_order :: byte_order
  pf_sampler :: "'r sampler"
  pf_seeding :: "64 word \<Rightarrow> 'r"
  pf_nth_element :: "nat \<Rightarrow> 64 word list \<Rightarrow> 64 word list"
  pf_elapsed :: "nat \<Rightarrow> int"
  pf_seconds :: rat
  pf_show :: "rat \<Rightarrow> string"

abbreviation pf_round :: "'r platform \<Rightarrow> rat \<Rightarrow> rat" where
  "pf_round P \<equiv> round_double (pf_sampler P)"

definition nth_element_ok :: "(nat \<Rightarrow> 64 word list \<Rightarrow> 64 word list) \<Rightarrow> bool" where
  "nth_element_ok f \<longleftrightarrow> (\<forall>k v. k < length v \<longrightarrow> mset (f k v) = mset v \<and> f k v ! k = sort v ! k)"

text \<open>What the measurements rely on, and what the program as a whole does.\<close>

definition measure_ok :: "'r platform \<Rightarrow> bool" where
  "measure_ok P \<longleftrightarrow> round_ok (pf_round P) \<and> nth_element_ok (pf_nth_element P)"

definition platform_ok :: "'r platform \<Rightarrow> bool" where
  "platform_ok P \<longleftrightarrow> sampler_ok (pf_sampler P) \<and> nth_element_ok (pf_nth_element P)"

lemma platform_measure: "platform_ok P \<Longrightarrow> measure_ok P"
  by (simp add: platform_ok_def measure_ok_def sampler_ok_def)

section \<open>Percentiles\<close>

definition percentile_index :: "(rat \<Rightarrow> rat) \<Rightarrow> rat \<Rightarrow> nat \<Rightarrow> int" where
  "percentile_index f p n = \<lfloor>f (f (p / 100) * f (of_nat (n - 1)))\<rfloor>"

text \<open>The vector is a reference in the code: \<open>nth_element\<close> leaves it in another order.\<close>

definition percentile :: "'r platform \<Rightarrow> 64 word list \<Rightarrow> rat \<Rightarrow> (rat \<times> 64 word list) option" where
  "percentile P v p =
     (if v = [] then Some (0, v)
      else
        (let idx = percentile_index (pf_round P) p (length v) in
         if 0 \<le> idx \<and> nat idx < length v then
           (let v' = pf_nth_element P (nat idx) v in
            do {
              x \<leftarrow> fetch v' (nat idx);
              Some (pf_round P (of_int (uint x)), v')
            })
         else None))"

section \<open>The order flow\<close>

text \<open>The defaults of \<open>GeneratorConfig\<close>; its \<open>seed\<close> is the argument of \<open>pf_seeding\<close>.\<close>

definition gen_config_default :: gen_config where
  "gen_config_default =
     \<lparr>gc_initial_mid = I64 10000, gc_tick = I64 1, gc_depth_levels = 50, gc_marketable_prob = 25 / 100,
      gc_cancel_ratio = 20 / 100, gc_mean_qty = 20, gc_max_qty = 1000, gc_num_traders = 16,
      gc_mid_move_prob = 5 / 100\<rparr>"

definition bench_generate :: "'r platform \<Rightarrow> options \<Rightarrow> command list option" where
  "bench_generate P opts =
     (let cfg = gen_config_default\<lparr>gc_depth_levels := o_depth opts\<rparr> in
      do {
        (cmds, _) \<leftarrow> gen_stream (pf_sampler P) (unat (o_commands opts))
                       (gen_new cfg (pf_seeding P (o_seed opts)));
        Some cmds
      })"

section \<open>Latency\<close>

record latency_result =
  lr_mean_ns :: rat
  lr_p50 :: rat
  lr_p99 :: rat
  lr_p999 :: rat
  lr_trades :: "64 word"

text \<open>
  \<open>pf_elapsed P i\<close> is the number of nanoseconds between the two readings of the clock around the
  command \<open>i\<close>.
\<close>

fun latency_loop ::
    "'r platform \<Rightarrow> 64 word \<Rightarrow> nat \<Rightarrow> command list \<Rightarrow> book engine \<Rightarrow> 64 word list \<Rightarrow> 64 word \<Rightarrow>
     (book engine \<times> 64 word list \<times> 64 word) option" where
  "latency_loop P warmup i [] engine samples sum_ns = Some (engine, samples, sum_ns)"
| "latency_loop P warmup i (c # cmds) engine samples sum_ns =
     do {
       (_, engine1) \<leftarrow> engine_apply (pf_byte_order P) c engine;
       if unat warmup \<le> i then
         (let ns = word_of_int (pf_elapsed P i) in
          latency_loop P warmup (Suc i) cmds engine1 (samples @ [ns]) (sum_ns + ns))
       else latency_loop P warmup (Suc i) cmds engine1 samples sum_ns
     }"

definition bench_engine :: "book engine option" where
  "bench_engine = engine_new CancelResting (push_bit 16 1)"

definition measure_latency ::
    "'r platform \<Rightarrow> command list \<Rightarrow> options \<Rightarrow> latency_result option" where
  "measure_latency P cmds opts =
     do {
       engine0 \<leftarrow> bench_engine;
       (engine, samples, sum_ns) \<leftarrow> latency_loop P (o_warmup opts) 0 cmds engine0 [] 0;
       let r = \<lparr>lr_mean_ns = 0, lr_p50 = 0, lr_p99 = 0, lr_p999 = 0,
                lr_trades = st_trades (engine_stats_of engine)\<rparr>;
       if samples \<noteq> [] then
         do {
           let mean = pf_round P (pf_round P (of_int (uint sum_ns)) / pf_round P (of_nat (length samples)));
           (p50, samples1) \<leftarrow> percentile P samples 50;
           (p99, samples2) \<leftarrow> percentile P samples1 99;
           (p999, samples3) \<leftarrow> percentile P samples2 (pf_round P (999 / 10));
           Some (r\<lparr>lr_mean_ns := mean, lr_p50 := p50, lr_p99 := p99, lr_p999 := p999\<rparr>)
         }
       else Some r
     }"

section \<open>Throughput\<close>

text \<open>
  The engine of this measurement is the threaded one, started on the same commands; the result is
  the number of commands over the seconds that the clock gives.
\<close>

definition throughput_start :: "book engine \<Rightarrow> command list \<Rightarrow> options \<Rightarrow> pipeline" where
  "throughput_start engine cmds opts = pipeline_start (o_queue opts) engine cmds"

definition throughput_of :: "'r platform \<Rightarrow> command list \<Rightarrow> rat" where
  "throughput_of P cmds =
     (if 0 < pf_seconds P then pf_round P (pf_round P (of_nat (length cmds)) / pf_seconds P) else 0)"

section \<open>The program\<close>

definition newline :: string where
  "newline = [CHR 0x0A]"

definition header_text :: string where
  "header_text =
     ''depth,commands,throughput_ops_sec,mean_ns,p50_ns,p99_ns,'' @ ''p999_ns,trades'' @ newline"

definition csv_text :: "'r platform \<Rightarrow> options \<Rightarrow> rat \<Rightarrow> latency_result \<Rightarrow> string" where
  "csv_text P opts tput lat =
     decimal_int (o_depth opts) @ '','' @ decimal_nat (unat (o_commands opts)) @ '','' @
     pf_show P tput @ '','' @
     pf_show P (lr_mean_ns lat) @ '','' @ pf_show P (lr_p50 lat) @ '','' @ pf_show P (lr_p99 lat) @ '','' @
     pf_show P (lr_p999 lat) @ '','' @ decimal_nat (unat (lr_trades lat)) @ newline"

definition report_text :: "'r platform \<Rightarrow> options \<Rightarrow> rat \<Rightarrow> latency_result \<Rightarrow> string" where
  "report_text P opts tput lat =
     ''=== order-book-engine benchmark ==='' @ newline @
     ''commands     : '' @ decimal_nat (unat (o_commands opts)) @ newline @
     ''depth levels : '' @ decimal_int (o_depth opts) @ newline @
     ''trades       : '' @ decimal_nat (unat (lr_trades lat)) @ newline @
     ''--- latency (single-thread, ns/command) ---'' @ newline @
     ''mean   : '' @ pf_show P (lr_mean_ns lat) @ newline @
     ''p50    : '' @ pf_show P (lr_p50 lat) @ newline @
     ''p99    : '' @ pf_show P (lr_p99 lat) @ newline @
     ''p99.9  : '' @ pf_show P (lr_p999 lat) @ newline @
     ''--- throughput (SPSC pipeline) ---'' @ newline @
     ''ops/sec: '' @ pf_show P tput @ newline"

text \<open>The exit code with what went to the two streams, or an exception that nothing catches.\<close>

datatype outcome = Exit nat string string | Uncaught parse_error

definition bench_main :: "'r platform \<Rightarrow> string list \<Rightarrow> outcome option" where
  "bench_main P argv =
     (case parse_options argv of
        Inl (Unknown_arg a) \<Rightarrow> Some (Exit 2 [] (''unknown arg: '' @ a @ newline))
      | Inl e \<Rightarrow> Some (Uncaught e)
      | Inr opts \<Rightarrow>
          (if o_header opts then Some (Exit 0 header_text [])
           else
             do {
               cmds \<leftarrow> bench_generate P opts;
               lat \<leftarrow> measure_latency P cmds opts;
               let tput = throughput_of P cmds;
               Some (Exit 0 (if o_csv opts then csv_text P opts tput lat
                             else report_text P opts tput lat) [])
             }))"

section \<open>The percentiles are order statistics\<close>

lemma percentile_index_bounds:
  assumes "round_ok f" "0 \<le> p" "p \<le> 100" "0 < n" "n \<le> 2 ^ 53"
  shows "0 \<le> percentile_index f p n" "nat (percentile_index f p n) < n"
proof -
  note r = round_okD[OF assms(1)]
  have n: "f (of_nat (n - 1)) = of_nat (n - 1)" using r(3)[of "n - 1"] assms(5) by simp
  have p: "0 \<le> f (p / 100)" "f (p / 100) \<le> 1"
    using r(1)[of 0 "p / 100"] r(1)[of "p / 100" 1] r(4,5) assms(2,3) by simp_all
  have prod: "0 \<le> f (p / 100) * of_nat (n - 1)" "f (p / 100) * of_nat (n - 1) \<le> of_nat (n - 1)"
    using p by (simp_all add: mult_left_le_one_le)
  have "0 \<le> f (f (p / 100) * f (of_nat (n - 1)))"
    using r(1)[OF prod(1)] r(4) n by simp
  moreover have "f (f (p / 100) * f (of_nat (n - 1))) \<le> of_nat (n - 1)"
    using r(1)[OF prod(2)] n by simp
  ultimately have "0 \<le> percentile_index f p n" "percentile_index f p n \<le> int (n - 1)"
    unfolding percentile_index_def by (simp_all add: floor_le_iff)
  then show "0 \<le> percentile_index f p n" "nat (percentile_index f p n) < n"
    using assms(4) by linarith+
qed

lemma percentile_index_mono:
  assumes "round_ok f" "0 \<le> p" "p \<le> q"
  shows "percentile_index f p n \<le> percentile_index f q n"
proof -
  note r = round_okD[OF assms(1)]
  have "0 \<le> f (of_nat (n - 1))" using r(1)[of 0 "of_nat (n - 1)"] r(4) by simp
  moreover have "f (p / 100) \<le> f (q / 100)" using r(1) assms(3) by (simp add: divide_right_mono)
  ultimately have "f (p / 100) * f (of_nat (n - 1)) \<le> f (q / 100) * f (of_nat (n - 1))"
    by (simp add: mult_right_mono)
  then show ?thesis unfolding percentile_index_def by (intro floor_mono r(1))
qed

text \<open>Below \<open>2 ^ (53 - k)\<close> rounding is off by at most \<open>1 / 2 ^ k\<close>.\<close>

lemma round_near:
  assumes f: "round_ok f" and x: "0 \<le> x" "x * 2 ^ k + 1 \<le> 2 ^ 53" and k: "k \<le> 1022"
  shows "\<bar>f x - x\<bar> \<le> 1 / 2 ^ k"
proof -
  define n where "n = nat \<lfloor>x * 2 ^ k\<rfloor>"
  have n: "of_nat n = (of_int \<lfloor>x * 2 ^ k\<rfloor> :: rat)" using x(1) by (simp add: n_def)
  have b: "of_nat n \<le> x * 2 ^ k" "x * 2 ^ k \<le> of_nat (Suc n)" unfolding of_nat_Suc n by linarith+
  have "(of_nat (Suc n) :: rat) \<le> of_nat (2 ^ 53)" using b(1) x(2) by simp
  then have small: "Suc n \<le> 2 ^ 53" by (simp only: of_nat_le_iff)
  have lo: "of_nat n / 2 ^ k \<le> x" "x \<le> of_nat (Suc n) / 2 ^ k"
    using b by (simp_all add: field_simps)
  have "f (of_nat n / 2 ^ k) = of_nat n / 2 ^ k" "f (of_nat (Suc n) / 2 ^ k) = of_nat (Suc n) / 2 ^ k"
    by (rule round_okD(2)[OF f _ k], use small in simp)+
  then have "of_nat n / 2 ^ k \<le> f x" "f x \<le> of_nat (Suc n) / 2 ^ k"
    using round_okD(1)[OF f lo(1)] round_okD(1)[OF f lo(2)] by simp_all
  moreover have "of_nat (Suc n) / 2 ^ k = (of_nat n / 2 ^ k + 1 / 2 ^ k :: rat)" by (simp add: add_divide_distrib)
  ultimately show ?thesis using lo by linarith
qed

text \<open>
  The index of a percentile: exact for the median, and otherwise within two of its place, where \<open>p\<close>
  is what the code divides by 100 and \<open>q\<close> what is meant.
\<close>

definition rank_near :: "nat \<Rightarrow> rat \<Rightarrow> nat \<Rightarrow> bool" where
  "rank_near i q n \<longleftrightarrow> i < n \<and> \<bar>of_nat i - q * of_nat (n - 1)\<bar> < 2"

lemma percentile_index_median:
  assumes f: "round_ok f" and n: "0 < n" "n \<le> 2 ^ 53"
  shows "nat (percentile_index f 50 n) = (n - 1) div 2"
proof -
  let ?m = "of_nat (n - 1) :: rat"
  have m: "f ?m = ?m" by (rule round_okD(3)[OF f]) (use n in simp)
  have "f (of_nat 1 / 2 ^ 1) = of_nat 1 / 2 ^ 1" by (rule round_okD(2)[OF f]) simp_all
  then have half: "f (50 / 100) = 1 / 2" by (simp only: of_nat_1 power_one_right) simp
  have prod: "f (?m / 2 ^ 1) = ?m / 2 ^ 1" by (rule round_okD(2)[OF f]) (use n in simp_all)
  have eq: "1 / 2 * ?m = ?m / 2 ^ 1" by simp
  have "percentile_index f 50 n = \<lfloor>?m / 2 ^ 1\<rfloor>"
    unfolding percentile_index_def half m eq prod ..
  then have "percentile_index f 50 n = \<lfloor>?m / 2\<rfloor>" by (simp only: power_one_right)
  also have "\<dots> = int ((n - 1) div 2)"
    using floor_divide_of_nat_eq[of "n - 1" 2, where ?'a = rat] by simp
  finally show ?thesis by simp
qed

lemma percentile_index_near:
  assumes f: "round_ok f" and p: "0 \<le> p" "p \<le> 100" "\<bar>p / 100 - q\<bar> \<le> 1 / 2 ^ 52" and n: "0 < n" "n \<le> 2 ^ 50"
  shows "rank_near (nat (percentile_index f p n)) q n"
proof -
  let ?m = "of_nat (n - 1) :: rat"
  define y where "y = f (p / 100) * ?m"
  have n53: "n \<le> 2 ^ 53" using n(2) by (rule order_trans) simp
  have m: "f ?m = ?m" "0 \<le> ?m" using round_okD(3)[OF f, of "n - 1"] n53 by simp_all
  have "(of_nat (n - 1) :: rat) \<le> of_nat (2 ^ 50)" using n by (simp only: of_nat_le_iff)
  then have m50: "?m \<le> 2 ^ 50" by simp
  have two: "(1 / 2 ^ 51 :: rat) = 1 / 2 ^ 52 + 1 / 2 ^ 52" by simp
  have "\<bar>f (p / 100) - p / 100\<bar> \<le> 1 / 2 ^ 52" by (rule round_near[OF f]) (use p in simp_all)
  then have err: "\<bar>f (p / 100) - q\<bar> \<le> 1 / 2 ^ 51" using p(3) unfolding two by linarith
  have "\<bar>y - q * ?m\<bar> = \<bar>f (p / 100) - q\<bar> * ?m"
    using m(2) by (simp add: y_def abs_mult flip: left_diff_distrib)
  also have "\<dots> \<le> 1 / 2 ^ 51 * 2 ^ 50" by (intro mult_mono) (use err m50 m(2) in simp_all)
  finally have near: "\<bar>y - q * ?m\<bar> \<le> 1 / 2" by simp
  have u: "0 \<le> f (p / 100)" "f (p / 100) \<le> 1"
    using round_okD(1)[OF f, of 0 "p / 100"] round_okD(1)[OF f, of "p / 100" 1] round_okD(4,5)[OF f] p by simp_all
  have y: "0 \<le> y" "y \<le> ?m" using u m(2) by (simp_all add: y_def mult_left_le_one_le)
  define k where "k = nat \<lfloor>y\<rfloor>"
  have k: "of_nat k = (of_int \<lfloor>y\<rfloor> :: rat)" using y(1) by (simp add: k_def)
  have b: "of_nat k \<le> y" "y \<le> of_nat (Suc k)" "y < of_nat k + 1" unfolding of_nat_Suc k by linarith+
  have "(of_nat k :: rat) \<le> of_nat (n - 1)" using b(1) y(2) by (rule order_trans)
  then have "k \<le> n - 1" by (simp only: of_nat_le_iff)
  then have small: "Suc k \<le> 2 ^ 53" using n n53 by linarith
  have "f (of_nat k) = of_nat k" "f (of_nat (Suc k)) = of_nat (Suc k)"
    by (rule round_okD(3)[OF f], use small in simp)+
  then have fy: "of_nat k \<le> f y" "f y \<le> of_nat (Suc k)"
    using round_okD(1)[OF f b(1)] round_okD(1)[OF f b(2)] by simp_all
  have "int k \<le> \<lfloor>f y\<rfloor>" using fy(1) by (simp add: le_floor_iff)
  moreover have "\<lfloor>f y\<rfloor> \<le> int (Suc k)" using floor_mono[OF fy(2)] by simp
  moreover have "percentile_index f p n = \<lfloor>f y\<rfloor>" unfolding percentile_index_def m(1) y_def ..
  ultimately have i: "k \<le> nat (percentile_index f p n)" "nat (percentile_index f p n) \<le> Suc k" by linarith+
  define i where "i = (of_nat (nat (percentile_index f p n)) :: rat)"
  have "of_nat k \<le> i" "i \<le> of_nat (Suc k)" unfolding i_def of_nat_le_iff by (rule i)+
  then have "of_nat k \<le> i" "i \<le> of_nat k + 1" by (simp_all only: of_nat_Suc add.commute)
  moreover define t where "t = q * ?m"
  ultimately have "\<bar>i - t\<bar> < 2" using b near[folded t_def] by linarith
  then have "\<bar>of_nat (nat (percentile_index f p n)) - q * ?m\<bar> < 2" by (simp only: i_def t_def)
  then show ?thesis
    using percentile_index_bounds(2)[OF f p(1,2) n(1) n53] by (simp add: rank_near_def)
qed

text \<open>The sample that a percentile stands for: the one at its index in ascending order.\<close>

definition percentile_of :: "'r platform \<Rightarrow> 64 word list \<Rightarrow> rat \<Rightarrow> rat" where
  "percentile_of P v p =
     pf_round P (of_int (uint (sort v ! nat (percentile_index (pf_round P) p (length v)))))"

lemma percentile_of_cong: "mset v = mset v' \<Longrightarrow> percentile_of P v p = percentile_of P v' p"
proof -
  assume eq: "mset v = mset v'"
  have "sort v = sort v'" using arg_cong[OF eq, of sorted_list_of_multiset] by simp
  then show "percentile_of P v p = percentile_of P v' p"
    using mset_eq_length[OF eq] by (simp only: percentile_of_def)
qed

lemma percentile_ok:
  assumes P: "measure_ok P" and v: "v \<noteq> []" "length v \<le> 2 ^ 53" and p: "0 \<le> p" "p \<le> 100"
  obtains v' where "percentile P v p = Some (percentile_of P v p, v')" "mset v' = mset v"
proof -
  let ?k = "percentile_index (pf_round P) p (length v)"
  have ok: "round_ok (pf_round P)" "nth_element_ok (pf_nth_element P)"
    using P by (simp_all add: measure_ok_def)
  have k: "0 \<le> ?k" "nat ?k < length v"
    using percentile_index_bounds[OF ok(1) p _ v(2)] v(1) by simp_all
  let ?v = "pf_nth_element P (nat ?k) v"
  have n: "mset ?v = mset v" "?v ! nat ?k = sort v ! nat ?k"
    using ok(2) k(2) by (simp_all add: nth_element_ok_def)
  have "length ?v = length v" by (rule mset_eq_length[OF n(1)])
  then have "percentile P v p = Some (percentile_of P v p, ?v)"
    using k n(2) v(1) by (simp add: percentile_def percentile_of_def Let_def)
  then show thesis using n(1) that by blast
qed

section \<open>What is measured\<close>

definition elapsed_words :: "'r platform \<Rightarrow> nat list \<Rightarrow> 64 word list" where
  "elapsed_words P ks = map (\<lambda>k. word_of_int (pf_elapsed P k)) ks"

lemma latency_loop_run:
  "latency_loop P warmup i cmds engine samples sum_ns =
     (case engine_run (pf_byte_order P) cmds engine of
        None \<Rightarrow> None
      | Some engine' \<Rightarrow>
          (let new = elapsed_words P (filter (\<lambda>k. unat warmup \<le> k) [i..<i + length cmds]) in
           Some (engine', samples @ new, sum_ns + sum_list new)))"
proof (induction cmds arbitrary: i engine samples sum_ns)
  case Nil
  show ?case by (simp add: elapsed_words_def)
next
  case (Cons c cmds)
  have "[i..<i + length (c # cmds)] = i # [Suc i..<Suc i + length cmds]"
    by (simp add: upt_conv_Cons del: upt_Suc)
  then show ?case
    using Cons.IH
    by (cases "engine_apply (pf_byte_order P) c engine")
      (auto simp: elapsed_words_def Let_def ac_simps simp del: upt_Suc split: option.split)
qed

text \<open>The samples: one for each command behind the warm-up.\<close>

definition latency_samples :: "'r platform \<Rightarrow> options \<Rightarrow> command list \<Rightarrow> 64 word list" where
  "latency_samples P opts cmds = elapsed_words P [unat (o_warmup opts)..<length cmds]"

lemma filter_upt: "filter (\<lambda>k. w \<le> k) [0..<n] = [w..<n]"
  by (induction n) auto

lemma bench_engine_ok:
  obtains e0 where "bench_engine = Some e0" "engine_rep CancelResting e0 (engine_init spec_new)"
    "unlogged e0 = e0"
proof -
  obtain e0 where e0: "engine_new CancelResting (push_bit 16 1) = Some e0"
    "engine_rep CancelResting e0 (engine_init spec_new)" "en_risk e0 = None" "en_log e0 = None"
    by (rule engine_new_ok)
  then show thesis using that by (simp add: bench_engine_def unlogged_def)
qed

lemma bench_engine_runs:
  obtains e0 e where "bench_engine = Some e0" "\<And>bo. engine_run bo cmds e0 = Some e"
proof -
  obtain e0 where e0: "bench_engine = Some e0" "engine_rep CancelResting e0 (engine_init spec_new)"
    "unlogged e0 = e0"
    by (rule bench_engine_ok)
  have "en_risk (engine_init spec_new) = None" by (simp add: engine_init_def)
  then obtain e where "engine_run BigEndian cmds e0 = Some e"
    using engine_run_defined[OF e0(2)] by blast
  then show thesis using that e0(1) engine_run_byte_order[OF e0(3)] by metis
qed

lemma measure_latency_ok:
  assumes P: "measure_ok P" and few: "length cmds \<le> 2 ^ 53"
    and e: "bench_engine = Some e0" "engine_run (pf_byte_order P) cmds e0 = Some e"
    and v: "v = latency_samples P opts cmds"
  shows "measure_latency P cmds opts =
    Some (if v = [] then \<lparr>lr_mean_ns = 0, lr_p50 = 0, lr_p99 = 0, lr_p999 = 0, lr_trades = en_trades e\<rparr>
      else \<lparr>lr_mean_ns = pf_round P (pf_round P (of_int (uint (sum_list v))) / pf_round P (of_nat (length v))),
             lr_p50 = percentile_of P v 50, lr_p99 = percentile_of P v 99,
             lr_p999 = percentile_of P v (pf_round P (999 / 10)), lr_trades = en_trades e\<rparr>)"
proof -
  have loop: "latency_loop P (o_warmup opts) 0 cmds e0 [] 0 = Some (e, v, sum_list v)"
    using e(2) v by (simp add: latency_loop_run filter_upt latency_samples_def Let_def)
  show ?thesis
  proof (cases "v = []")
    case True
    then show ?thesis
      unfolding measure_latency_def e(1) Option.bind.bind_lunit loop by (simp add: engine_stats_of_def)
  next
    case False
    have len: "length v \<le> 2 ^ 53" using few v by (simp add: latency_samples_def elapsed_words_def)
    have ok: "round_ok (pf_round P)" using P by (simp add: measure_ok_def)
    have "pf_round P 0 \<le> pf_round P (999 / 10)" "pf_round P (999 / 10) \<le> pf_round P 100"
      by (rule round_okD(1)[OF ok], simp)+
    then have p999: "0 \<le> pf_round P (999 / 10)" "pf_round P (999 / 10) \<le> 100"
      using round_okD(3)[OF ok, of 100] round_okD(4)[OF ok] by simp_all
    obtain v1 where v1: "percentile P v 50 = Some (percentile_of P v 50, v1)" "mset v1 = mset v"
      by (rule percentile_ok[OF P False len, of 50]) simp_all
    have ne1: "v1 \<noteq> []" "length v1 \<le> 2 ^ 53" using v1(2) False len mset_eq_length[OF v1(2)] by auto
    obtain v2 where v2: "percentile P v1 99 = Some (percentile_of P v1 99, v2)" "mset v2 = mset v1"
      by (rule percentile_ok[OF P ne1, of 99]) simp_all
    have ne2: "v2 \<noteq> []" "length v2 \<le> 2 ^ 53" using v2(2) ne1 mset_eq_length[OF v2(2)] by auto
    obtain v3 where v3: "percentile P v2 (pf_round P (999 / 10)) =
        Some (percentile_of P v2 (pf_round P (999 / 10)), v3)"
      by (rule percentile_ok[OF P ne2 p999])
    have same: "percentile_of P v1 99 = percentile_of P v 99"
      "percentile_of P v2 (pf_round P (999 / 10)) = percentile_of P v (pf_round P (999 / 10))"
      using percentile_of_cong v1(2) v2(2) by metis+
    show ?thesis
      unfolding measure_latency_def e(1) Option.bind.bind_lunit loop
      using False v1(1) v2(1) v3 by (simp add: engine_stats_of_def same)
  qed
qed

lemma twenty_le: "(20 :: rat) \<le> 2 ^ 1022"
proof -
  have "(2 :: rat) ^ 5 \<le> 2 ^ 1022" by (rule power_increasing) simp_all
  then show ?thesis by simp
qed

lemma default_config_ok:
  assumes "depth_drawable d" "n \<le> 2 ^ 53"
  shows "config_ok (gen_config_default\<lparr>gc_depth_levels := d\<rparr>)"
    and "room_for (gen_config_default\<lparr>gc_depth_levels := d\<rparr>) n"
proof -
  show "config_ok (gen_config_default\<lparr>gc_depth_levels := d\<rparr>)"
    using assms(1) twenty_le by (simp add: config_ok_def gen_config_default_def i64_val_def)
  have "int n \<le> 2 ^ 53" using assms(2) by (metis of_nat_le_iff of_nat_numeral of_nat_power)
  then show "room_for (gen_config_default\<lparr>gc_depth_levels := d\<rparr>) n"
    using assms(1) by (simp add: room_for_def gen_config_default_def i64_val_def depth_drawable_def)
qed

text \<open>No size that the benchmark draws is out of range.\<close>

definition bench_sizes_fit :: "'r platform \<Rightarrow> options \<Rightarrow> bool" where
  "bench_sizes_fit P opts \<longleftrightarrow>
     sizes_fit (pf_sampler P) (gen_config_default\<lparr>gc_depth_levels := o_depth opts\<rparr>)
       (pf_seeding P (o_seed opts)) (unat (o_commands opts))"


lemma bench_generate_ok:
  assumes P: "platform_ok P" and d: "depth_drawable (o_depth opts)" and n: "o_commands opts \<le> 2 ^ 53"
    and fits: "bench_sizes_fit P opts"
  obtains cmds where "bench_generate P opts = Some cmds" "length cmds = unat (o_commands opts)"
    "\<forall>c \<in> set cmds. c_type c \<noteq> Shutdown" "length cmds \<le> 2 ^ 53"
proof -
  let ?cfg = "gen_config_default\<lparr>gc_depth_levels := o_depth opts\<rparr>"
  have n': "unat (o_commands opts) \<le> 2 ^ 53" using n by (simp add: word_le_nat_alt)
  have S: "sampler_ok (pf_sampler P)" using P by (simp add: platform_ok_def)
  have few: "unat (o_commands opts) < 2 ^ 64" using unsigned_less[of "o_commands opts", where ?'a = nat] by simp
  note cfg = default_config_ok[OF d n']
  obtain cs g where cs: "gen_stream (pf_sampler P) (unat (o_commands opts))
      (gen_new ?cfg (pf_seeding P (o_seed opts))) = Some (cs, g)" "stream_ok ?cfg cs g"
    "length cs = unat (o_commands opts)"
    by (rule gen_stream_ok[OF S cfg few fits[unfolded bench_sizes_fit_def]])
  have "\<forall>c \<in> set cs. c_type c \<noteq> Shutdown" using cs(2) by (auto simp: stream_ok_def)
  then show thesis using that cs n' by (simp add: bench_generate_def)
qed

lemma shallow_generate:
  assumes "o_depth opts \<le> 1" "o_commands opts \<noteq> 0"
  shows "bench_generate P opts = None"
proof -
  obtain n where "unat (o_commands opts) = Suc n" using assms(2) by (cases "unat (o_commands opts)") (simp_all add: unat_eq_zero)
  moreover have "gc_depth_levels (gen_config_default\<lparr>gc_depth_levels := o_depth opts\<rparr>) \<le> 1"
    using assms(1) by simp
  ultimately have "gen_stream (pf_sampler P) (unat (o_commands opts))
      (gen_new (gen_config_default\<lparr>gc_depth_levels := o_depth opts\<rparr>) (pf_seeding P (o_seed opts))) = None"
    using shallow_stream by metis
  then show ?thesis by (simp add: bench_generate_def)
qed

section \<open>Both measurements\<close>

lemma both_measurements:
  assumes P: "platform_ok P" and d: "depth_drawable (o_depth opts)" and n: "o_commands opts \<le> 2 ^ 53"
    and q: "o_queue opts \<le> 2 ^ 63" and fits: "bench_sizes_fit P opts"
  shows "\<exists>cmds e0 e lat. bench_generate P opts = Some cmds \<and> length cmds = unat (o_commands opts) \<and>
    bench_engine = Some e0 \<and> (\<forall>bo. engine_run bo cmds e0 = Some e) \<and>
    measure_latency P cmds opts = Some lat \<and> lr_trades lat = st_trades (engine_stats_of e) \<and>
    (\<forall>r. pipeline_run (pf_byte_order P) r \<and> r 0 = throughput_start e0 cmds opts \<and> fair_run r \<and>
       visible_run r \<longrightarrow> (\<exists>m. \<forall>i \<ge> m. \<not> pl_running (r i) \<and> pl_engine (r i) = e))"
proof -
  obtain cmds where c: "bench_generate P opts = Some cmds" "length cmds = unat (o_commands opts)"
    "\<forall>c \<in> set cmds. c_type c \<noteq> Shutdown" "length cmds \<le> 2 ^ 53"
    by (rule bench_generate_ok[OF P d n fits])
  obtain e0 e where e: "bench_engine = Some e0" "\<And>bo. engine_run bo cmds e0 = Some e"
    using bench_engine_runs[of cmds] by blast
  obtain lat where lat: "measure_latency P cmds opts = Some lat" "lr_trades lat = en_trades e"
    using measure_latency_ok[OF platform_measure[OF P] c(4) e refl, of opts] by simp
  have cap: "unat (o_queue opts) \<le> 2 ^ 63" using q by (simp add: word_le_nat_alt)
  have "\<exists>m. \<forall>i \<ge> m. \<not> pl_running (r i) \<and> pl_engine (r i) = e"
    if "pipeline_run (pf_byte_order P) r" "r 0 = throughput_start e0 cmds opts" "fair_run r"
      "visible_run r" for r
    using fair_run_ends[OF that(1) _ cap c(3) that(3,4), of e0] that(2) e(2)
    by (auto simp: throughput_start_def)
  then show ?thesis using c(1,2) e lat by (auto simp: engine_stats_of_def)
qed

text \<open>The figures by their place among the samples.\<close>

lemma latency_ranks:
  assumes P: "measure_ok P" and few: "length cmds \<le> 2 ^ 50"
    and v: "v = latency_samples P opts cmds" and ne: "v \<noteq> []"
  shows "percentile_of P v 50 = pf_round P (of_int (uint (sort v ! ((length v - 1) div 2))))"
    and "\<exists>i j. rank_near i (99 / 100) (length v) \<and> rank_near j (999 / 1000) (length v) \<and> i \<le> j \<and>
      percentile_of P v 99 = pf_round P (of_int (uint (sort v ! i))) \<and>
      percentile_of P v (pf_round P (999 / 10)) = pf_round P (of_int (uint (sort v ! j)))"
proof -
  let ?p = "pf_round P (999 / 10)" and ?ix = "\<lambda>p. nat (percentile_index (pf_round P) p (length v))"
  have ok: "round_ok (pf_round P)" using P by (simp add: measure_ok_def)
  have len: "0 < length v" "length v \<le> 2 ^ 50" using few ne by (simp_all add: v latency_samples_def elapsed_words_def)
  have len53: "length v \<le> 2 ^ 53" using len(2) by (rule order_trans) simp
  show "percentile_of P v 50 = pf_round P (of_int (uint (sort v ! ((length v - 1) div 2))))"
    unfolding percentile_of_def percentile_index_median[OF ok len(1) len53] ..
  have "pf_round P 99 \<le> ?p" "?p \<le> pf_round P 100" by (rule round_okD(1)[OF ok], simp)+
  then have p: "99 \<le> ?p" "?p \<le> 100" using round_okD(3)[OF ok, of 99] round_okD(3)[OF ok, of 100] by simp_all
  have "\<bar>?p - 999 / 10\<bar> \<le> 1 / 2 ^ 46" by (rule round_near[OF ok]) simp_all
  then have "\<bar>?p / 100 - 999 / 1000\<bar> \<le> 1 / 2 ^ 52" by (simp add: abs_le_iff field_simps)
  then have "rank_near (?ix ?p) (999 / 1000) (length v)"
    using percentile_index_near[OF ok _ p(2) _ len] p(1) by simp
  moreover have "rank_near (?ix 99) (99 / 100) (length v)"
    using percentile_index_near[OF ok _ _ _ len, of 99 "99 / 100"] by simp
  moreover have "?ix 99 \<le> ?ix ?p" using percentile_index_mono[OF ok _ p(1)] by (intro nat_mono) simp
  ultimately show "\<exists>i j. rank_near i (99 / 100) (length v) \<and> rank_near j (999 / 1000) (length v) \<and> i \<le> j \<and>
      percentile_of P v 99 = pf_round P (of_int (uint (sort v ! i))) \<and>
      percentile_of P v ?p = pf_round P (of_int (uint (sort v ! j)))"
    unfolding percentile_of_def by blast
qed

section \<open>The row and its header\<close>

lemma decimal_plain:
  assumes "\<not> is_digit c"
  shows "c \<notin> set (decimal_nat n)" "c \<noteq> CHR ''-'' \<Longrightarrow> c \<notin> set (decimal_int i)"
  using assms decimal_nat_ok by (auto simp: decimal_int_def)

lemma csv_columns:
  assumes "\<forall>x. CHR '','' \<notin> set (pf_show P x) \<and> CHR 0x0A \<notin> set (pf_show P x)"
  shows "count_list (csv_text P opts tput lat) (CHR '','') = 7"
    "count_list (csv_text P opts tput lat) (CHR 0x0A) = 1"
proof -
  have "\<not> is_digit (CHR '','')" "\<not> is_digit (CHR 0x0A)" by (simp_all add: is_digit_def)
  note d = decimal_plain[OF this(1)] decimal_plain[OF this(2)]
  show "count_list (csv_text P opts tput lat) (CHR '','') = 7"
    "count_list (csv_text P opts tput lat) (CHR 0x0A) = 1"
    using assms d by (simp_all add: csv_text_def newline_def count_list_0_iff[THEN iffD2])
qed

lemma header_columns:
  "count_list header_text (CHR '','') = 7" "count_list header_text (CHR 0x0A) = 1"
  by (simp_all add: header_text_def newline_def)

section \<open>A sample platform\<close>

definition sample_platform :: "nat platform" where
  "sample_platform =
     \<lparr>pf_byte_order = BigEndian, pf_sampler = sample_sampler, pf_seeding = unat,
      pf_nth_element = (\<lambda>k v. sort v), pf_elapsed = (\<lambda>i. 100 + int i), pf_seconds = 2,
      pf_show = (\<lambda>x. ''0'')\<rparr>"

lemma sample_platform_ok: "platform_ok sample_platform" "measure_ok sample_platform"
  "bench_sizes_fit sample_platform opts"
proof -
  show ok: "platform_ok sample_platform"
    by (simp add: platform_ok_def sample_platform_def nth_element_ok_def sample_sampler_ok)
  show "measure_ok sample_platform" by (rule platform_measure[OF ok])
  show "bench_sizes_fit sample_platform opts"
    by (simp add: bench_sizes_fit_def sample_platform_def sample_sizes_fit)
qed

section \<open>Properties\<close>

text \<open>
  C34: The latency figures: on any platform whose rounding is that of IEEE 754, for at most \<open>2^50\<close>
  commands, the measurement is defined and its trades are those of the inline engine on the same
  commands.  Of the samples taken behind the warm-up in ascending order, p50 is the one in the middle,
  p99 and p99.9 are less than two places from \<open>0.99\<close> and \<open>0.999\<close> of the way, in this order, and the mean
  is the rounded quotient of their sum modulo \<open>2^64\<close> and their number; without samples every figure is 0.
\<close>

theorem latency_figures:
  assumes "measure_ok P" and "length cmds \<le> 2 ^ 50"
  shows "\<exists>lat e0 e. bench_engine = Some e0 \<and> engine_run (pf_byte_order P) cmds e0 = Some e \<and>
    measure_latency P cmds opts = Some lat \<and> lr_trades lat = st_trades (engine_stats_of e) \<and>
    (let v = latency_samples P opts cmds; n = length v; figure = (\<lambda>i. pf_round P (of_int (uint (sort v ! i)))) in
     if v = [] then lr_mean_ns lat = 0 \<and> lr_p50 lat = 0 \<and> lr_p99 lat = 0 \<and> lr_p999 lat = 0
     else lr_p50 lat = figure ((n - 1) div 2) \<and>
       (\<exists>i j. rank_near i (99 / 100) n \<and> rank_near j (999 / 1000) n \<and> i \<le> j \<and>
         lr_p99 lat = figure i \<and> lr_p999 lat = figure j) \<and>
       lr_mean_ns lat = pf_round P (pf_round P (of_int (uint (sum_list v))) / of_nat n))"
proof -
  have few: "length cmds \<le> 2 ^ 53" using assms(2) by (rule order_trans) simp
  obtain e0 e where e: "bench_engine = Some e0" "\<And>bo. engine_run bo cmds e0 = Some e"
    using bench_engine_runs[of cmds] by blast
  define v where "v = latency_samples P opts cmds"
  have n: "length v \<le> 2 ^ 53" using few by (simp add: v_def latency_samples_def elapsed_words_def)
  have ok: "round_ok (pf_round P)" using assms(1) by (simp add: measure_ok_def)
  note lat = measure_latency_ok[OF assms(1) few e v_def]
  show ?thesis
  proof (cases "v = []")
    case True
    then show ?thesis
      using lat e unfolding v_def[symmetric] Let_def
      by (intro exI[of _ "\<lparr>lr_mean_ns = 0, lr_p50 = 0, lr_p99 = 0, lr_p999 = 0, lr_trades = en_trades e\<rparr>"]
          exI[of _ e0] exI[of _ e]) (simp add: engine_stats_of_def)
  next
    case False
    note r = latency_ranks[OF assms v_def False]
    obtain i j where ij: "rank_near i (99 / 100) (length v)" "rank_near j (999 / 1000) (length v)" "i \<le> j"
      "percentile_of P v 99 = pf_round P (of_int (uint (sort v ! i)))"
      "percentile_of P v (pf_round P (999 / 10)) = pf_round P (of_int (uint (sort v ! j)))"
      using r(2) by blast
    let ?lat = "\<lparr>lr_mean_ns = pf_round P (pf_round P (of_int (uint (sum_list v))) / of_nat (length v)),
      lr_p50 = percentile_of P v 50, lr_p99 = percentile_of P v 99,
      lr_p999 = percentile_of P v (pf_round P (999 / 10)), lr_trades = en_trades e\<rparr>"
    have "measure_latency P cmds opts = Some ?lat"
      using lat False round_okD(3)[OF ok n] by simp
    moreover have "\<exists>i j. rank_near i (99 / 100) (length v) \<and> rank_near j (999 / 1000) (length v) \<and> i \<le> j \<and>
        lr_p99 ?lat = pf_round P (of_int (uint (sort v ! i))) \<and>
        lr_p999 ?lat = pf_round P (of_int (uint (sort v ! j)))"
      using ij by (intro exI[of _ i] exI[of _ j]) simp
    ultimately show ?thesis
      using e r(1) False unfolding v_def[symmetric] Let_def
      by (intro exI[of _ ?lat] exI[of _ e0] exI[of _ e]) (simp add: engine_stats_of_def)
  qed
qed

theorem latency_figures_witness:
  "\<exists>lat. measure_latency sample_platform pipeline_commands (options_default\<lparr>o_warmup := 1\<rparr>) = Some lat \<and>
     latency_samples sample_platform (options_default\<lparr>o_warmup := 1\<rparr>) pipeline_commands = [101, 102] \<and>
     lr_p50 lat = 101"
proof -
  have len: "length pipeline_commands \<le> 2 ^ 50" by (simp add: pipeline_commands_def)
  have "[1..<3] = [1, 2 :: nat]" by (simp add: upt_rec)
  then have v: "latency_samples sample_platform (options_default\<lparr>o_warmup := 1\<rparr>) pipeline_commands = [101, 102]"
    by (simp add: latency_samples_def elapsed_words_def pipeline_commands_def sample_platform_def
        numeral_3_eq_3)
  have "pf_round sample_platform = id" "sort [101, 102 :: 64 word] = [101, 102]"
    by (simp_all add: sample_platform_def sample_sampler_def)
  then show ?thesis
    using latency_figures[OF sample_platform_ok(2) len, of "options_default\<lparr>o_warmup := 1\<rparr>"] v
    unfolding Let_def by force
qed



text \<open>
  The row fits its header: with \<open>--csv\<close> the program prints one line with as many columns as the
  line that \<open>--header\<close> prints, when the printing of a number uses neither a comma nor a line break.
\<close>

theorem csv_row_fits_header:
  assumes "parse_options argv = Inr opts" and "o_csv opts" and "\<not> o_header opts"
    and "bench_main P argv = Some res"
    and "\<forall>x. CHR '','' \<notin> set (pf_show P x) \<and> CHR 0x0A \<notin> set (pf_show P x)"
  shows "\<exists>row. res = Exit 0 row [] \<and>
    bench_main P [''--header''] = Some (Exit 0 header_text []) \<and>
    count_list row (CHR '','') = count_list header_text (CHR '','') \<and>
    count_list row (CHR 0x0A) = count_list header_text (CHR 0x0A)"
proof -
  have "parse_options [''--header''] = Inr (options_default\<lparr>o_header := True\<rparr>)"
    by (simp add: parse_options_def parse_step_def)
  then have "bench_main P [''--header''] = Some (Exit 0 header_text [])" by (simp add: bench_main_def)
  then show ?thesis
    using assms(1-4) csv_columns[OF assms(5)] header_columns
    by (auto simp: bench_main_def Let_def bind_eq_Some_conv)
qed

theorem csv_row_fits_header_witness:
  "\<exists>row. bench_main sample_platform [''--csv'', ''--commands'', ''4''] = Some (Exit 0 row []) \<and>
     count_list row (CHR '','') = count_list header_text (CHR '','')"
proof -
  let ?o = "options_default\<lparr>o_csv := True, o_commands := 4\<rparr>"
  have "stoull ''4'' = Inr 4"
    by (simp add: stoull_def scan_number_def scan_sign_def is_space_def is_digit_def digits_value_def)
  then have p: "parse_options [''--csv'', ''--commands'', ''4''] = Inr ?o"
    by (simp add: parse_options_def parse_step_def)
  have flags: "o_csv ?o" "\<not> o_header ?o" by (simp_all add: options_default_def)
  have "depth_drawable (o_depth ?o)" "o_commands ?o \<le> 2 ^ 53" "o_queue ?o \<le> 2 ^ 63"
    by (simp_all add: options_default_def depth_drawable_def)
  from both_measurements[OF sample_platform_ok(1) this sample_platform_ok(3)]
  obtain res where res: "bench_main sample_platform [''--csv'', ''--commands'', ''4''] = Some res"
    using p flags(2) by (auto simp: bench_main_def)
  have "\<forall>x. CHR '','' \<notin> set (pf_show sample_platform x) \<and> CHR 0x0A \<notin> set (pf_show sample_platform x)"
    by (simp add: sample_platform_def)
  from csv_row_fits_header[OF p flags res this] show ?thesis using res by blast
qed

text \<open>
  A depth of one level has no defined benchmark: the geometric distribution of the generator is
  then given the probability \<open>2.0 / 2\<close>, which its contract excludes.  These are the arguments that
  \<open>bench/sweep.sh\<close> starts with.
\<close>

theorem sweep_depth_undefined:
  "bench_main P [''--csv'', ''--depth'', ''1'', ''--commands'', ''100000''] = None"
proof -
  let ?o = "options_default\<lparr>o_csv := True, o_depth := 1, o_commands := 100000\<rparr>"
  have "stoull ''100000'' = Inr 100000" "stoi ''1'' = Inr 1"
    by (simp_all add: stoull_def stoi_def scan_number_def scan_sign_def is_space_def is_digit_def
        digits_value_def)
  then have "parse_options [''--csv'', ''--depth'', ''1'', ''--commands'', ''100000''] = Inr ?o"
    by (simp add: parse_options_def parse_step_def)
  moreover have "bench_generate P ?o = None" by (rule shallow_generate) simp_all
  ultimately show ?thesis by (simp add: bench_main_def options_default_def)
qed

end
